(* ===== verification/Prelude.thy ===== *)
theory Prelude
  imports Main "HOL-Library.Word" "HOL-Library.List_Lexorder" "HOL-Library.Monad_Syntax"
begin

text \<open>
  Shared vocabulary of the development: the machine types of the Go sources, the slice and
  \<^verbatim>\<open>encoding/binary\<close> primitives they are built on, and the lemmas about them that every
  component uses.

  Conventions.
  \<^item> A Go \<open>[]byte\<close> and a Go \<open>string\<close> are both byte lists; \<open>str\<close> turns a literal into one.
    The order of \<open>bytes.Compare\<close> and \<open>strings.Compare\<close> is the lexicographic order that
    \<^verbatim>\<open>List_Lexorder\<close> puts on lists.
  \<^item> A computation that can panic (or call \<open>log.Fatal\<close>; nothing in the program recovers from
    either) has an \<open>option\<close> type, with \<open>None\<close> for the abort. A Go \<open>error\<close> result is a value of a
    sum type, \<open>Inl\<close> the error.
  \<^item> Slices have their capacity equal to their length, except where a component says otherwise.
\<close>

section \<open>Types\<close>

type_synonym byte = "8 word"
type_synonym bytes = "byte list"
type_synonym gostring = "byte list"
type_synonym u16 = "16 word"
type_synonym u32 = "32 word"
type_synonym u64 = "64 word"
type_synonym i64 = "64 word"

named_theorems go_defs \<open>definitions of the Go primitives\<close>
named_theorems slice_simps \<open>reading back what a positional write stored\<close>

section \<open>Go primitives\<close>

definition str :: "string \<Rightarrow> gostring" where
  "str s = map of_char s"

definition bytes_Compare :: "bytes \<Rightarrow> bytes \<Rightarrow> int" where
  "bytes_Compare a b = (if a = b then 0 else if a < b then - 1 else 1)"

text \<open>\<open>slice p n b\<close> is the total reading of \<open>n\<close> bytes at \<open>p\<close>; \<open>put p xs b\<close> overwrites in place.\<close>

definition slice :: "nat \<Rightarrow> nat \<Rightarrow> bytes \<Rightarrow> bytes" where
  "slice p n b = take n (drop p b)"

definition put :: "nat \<Rightarrow> bytes \<Rightarrow> bytes \<Rightarrow> bytes" where
  "put p xs b = take p b @ xs @ drop (p + length xs) b"

text \<open>\<open>b[p:]\<close> and \<open>b[:n]\<close> panic out of range.\<close>

definition go_from :: "bytes \<Rightarrow> nat \<Rightarrow> bytes option" where
  "go_from b p = (if p \<le> length b then Some (drop p b) else None)"

definition go_upto :: "bytes \<Rightarrow> nat \<Rightarrow> bytes option" where
  "go_upto b n = (if n \<le> length b then Some (take n b) else None)"

definition go_range :: "bytes \<Rightarrow> nat \<Rightarrow> nat \<Rightarrow> bytes option" where
  "go_range b lo hi = (if lo \<le> hi \<and> hi \<le> length b then Some (slice lo (hi - lo) b) else None)"

text \<open>\<open>copy(b[p:], src)\<close>: the index panics out of range, the copy is cut at the end of \<open>b\<close>.\<close>

definition go_copy :: "bytes \<Rightarrow> nat \<Rightarrow> bytes \<Rightarrow> bytes option" where
  "go_copy b p src =
     (if p \<le> length b then Some (put p (take (length b - p) src) b) else None)"

text \<open>Little- and big-endian digits: the \<open>n\<close> low bytes of a number.\<close>

fun le_bytes :: "nat \<Rightarrow> nat \<Rightarrow> bytes" where
  "le_bytes 0 x = []"
| "le_bytes (Suc n) x = of_nat (x mod 256) # le_bytes n (x div 256)"

fun le_val :: "bytes \<Rightarrow> nat" where
  "le_val [] = 0"
| "le_val (b # bs) = unat b + 256 * le_val bs"

definition be_bytes :: "nat \<Rightarrow> nat \<Rightarrow> bytes" where
  "be_bytes n x = rev (le_bytes n x)"

definition be_val :: "bytes \<Rightarrow> nat" where
  "be_val bs = le_val (rev bs)"

definition le16 :: "u16 \<Rightarrow> bytes" where "le16 w = le_bytes 2 (unat w)"
definition le64 :: "u64 \<Rightarrow> bytes" where "le64 w = le_bytes 8 (unat w)"
definition be32 :: "u32 \<Rightarrow> bytes" where "be32 w = be_bytes 4 (unat w)"
definition be64 :: "u64 \<Rightarrow> bytes" where "be64 w = be_bytes 8 (unat w)"

text \<open>\<open>binary.LittleEndian.Uint16(b[p:])\<close> and its kin: panic when fewer bytes are left.\<close>

definition Uint16_at :: "bytes \<Rightarrow> nat \<Rightarrow> u16 option" where
  "Uint16_at b p = (if p + 2 \<le> length b then Some (of_nat (le_val (slice p 2 b))) else None)"

definition Uint64_at :: "bytes \<Rightarrow> nat \<Rightarrow> u64 option" where
  "Uint64_at b p = (if p + 8 \<le> length b then Some (of_nat (le_val (slice p 8 b))) else None)"

definition PutUint16_at :: "bytes \<Rightarrow> nat \<Rightarrow> u16 \<Rightarrow> bytes option" where
  "PutUint16_at b p v = (if p + 2 \<le> length b then Some (put p (le16 v) b) else None)"

definition PutUint64_at :: "bytes \<Rightarrow> nat \<Rightarrow> u64 \<Rightarrow> bytes option" where
  "PutUint64_at b p v = (if p + 8 \<le> length b then Some (put p (le64 v) b) else None)"

lemmas [go_defs] = go_from_def go_upto_def go_range_def go_copy_def
  Uint16_at_def Uint64_at_def PutUint16_at_def PutUint64_at_def

section \<open>Positional reads and writes\<close>

lemma length_put [simp]: "p + length xs \<le> length b \<Longrightarrow> length (put p xs b) = length b"
  by (simp add: put_def)

lemma length_slice: "length (slice p n b) = min n (length b - p)"
  by (simp add: slice_def)

lemma slice_put_same [slice_simps]:
  "p + length xs \<le> length b \<Longrightarrow> n = length xs \<Longrightarrow> slice p n (put p xs b) = xs"
  by (simp add: slice_def put_def)

lemma slice_put_before [slice_simps]:
  "q + n \<le> p \<Longrightarrow> p + length xs \<le> length b \<Longrightarrow> slice q n (put p xs b) = slice q n b"
proof -
  assume q: "q + n \<le> p" and p: "p + length xs \<le> length b"
  have "take (q + n) (put p xs b) = take (q + n) b"
    using q p by (simp add: put_def min_absorb1)
  then show "slice q n (put p xs b) = slice q n b"
    by (metis add_diff_cancel_left' drop_take slice_def)
qed

lemma slice_put_after [slice_simps]:
  "p + length xs \<le> q \<Longrightarrow> p + length xs \<le> length b \<Longrightarrow> slice q n (put p xs b) = slice q n b"
  by (simp add: slice_def put_def)

lemma slice_append_slice:
  "slice p (n + m) b = slice p n b @ slice (p + n) m b"
  by (simp add: slice_def take_add add.commute [of p])

lemma slice_slice: "m + k \<le> n \<Longrightarrow> slice m k (slice p n b) = slice (p + m) k b"
  by (simp add: slice_def drop_take add.commute min_def)

lemma slice_take: "p + n \<le> m \<Longrightarrow> slice p n (take m b) = slice p n b"
  by (simp add: slice_def drop_take min_def)

lemma slice_0 [simp]: "slice p 0 b = []"
  by (simp add: slice_def)

section \<open>16-bit positions\<close>

lemma u16_add: "unat a + unat b < 65536 \<Longrightarrow> unat (a + b :: u16) = unat a + unat b"
  by (simp add: unat_word_ariths)

lemma u16_of_nat: "n < 65536 \<Longrightarrow> unat (of_nat n :: u16) = n"
  by (simp add: unat_of_nat)

lemma u16_bound: "unat (w :: u16) < 65536"
  using unsigned_less [of w] by simp

lemma u16_Suc: "(i :: u16) < n \<Longrightarrow> unat (i + 1) = Suc (unat i)"
  using u16_bound [of n] by (simp add: word_less_nat_alt unat_word_ariths)

section \<open>Digits\<close>

lemma length_le_bytes [simp]: "length (le_bytes n x) = n"
  by (induction n arbitrary: x) auto

lemma length_word_bytes [simp]:
  "length (le16 a) = 2" "length (le64 b) = 8" "length (be32 c) = 4" "length (be64 d) = 8"
  by (simp_all add: le16_def le64_def be32_def be64_def be_bytes_def)

lemma le_val_le_bytes: "le_val (le_bytes n x) = x mod 256 ^ n"
proof (induction n arbitrary: x)
  case 0
  then show ?case by simp
next
  case (Suc n)
  have "unat (of_nat (x mod 256) :: byte) = x mod 256"
    by (simp add: unat_of_nat)
  with Suc show ?case by (simp add: mod_mult2_eq)
qed

lemma of_nat_le_val_le16 [simp]: "of_nat (le_val (le16 w)) = w"
proof -
  have "unat w < 256 ^ 2" using unsigned_less [of w] by simp
  then show ?thesis by (simp add: le16_def le_val_le_bytes)
qed

lemma of_nat_le_val_le64 [simp]: "of_nat (le_val (le64 w)) = w"
proof -
  have "unat w < 256 ^ 8" using unsigned_less [of w] by simp
  then show ?thesis by (simp add: le64_def le_val_le_bytes)
qed

lemma of_nat_be_val_be64 [simp]: "of_nat (be_val (be64 w)) = w"
proof -
  have "unat w < 256 ^ 8" using unsigned_less [of w] by simp
  then show ?thesis by (simp add: be64_def be_val_def be_bytes_def le_val_le_bytes)
qed

lemma Uint16_at_slice: "p + 2 \<le> length b \<Longrightarrow> slice p 2 b = le16 w \<Longrightarrow> Uint16_at b p = Some w"
  by (simp add: Uint16_at_def)

lemma Uint64_at_slice: "p + 8 \<le> length b \<Longrightarrow> slice p 8 b = le64 w \<Longrightarrow> Uint64_at b p = Some w"
  by (simp add: Uint64_at_def)

section \<open>Lexicographic order\<close>

lemma lex_append_same [simp]: "(xs :: bytes) @ ys < xs @ zs \<longleftrightarrow> ys < zs"
  by (induction xs) auto

lemma lex_append_less:
  "length xs = length (ys :: bytes) \<Longrightarrow> xs @ us < ys @ vs \<longleftrightarrow> xs < ys \<or> xs = ys \<and> us < vs"
  by (induction xs ys rule: list_induct2) auto

lemma lex_same_length_append:
  "xs < (ys :: bytes) \<Longrightarrow> length xs = length ys \<Longrightarrow> xs @ us < ys @ vs"
  by (simp add: lex_append_less)

lemma le_val_bound: "le_val bs < 256 ^ length bs"
proof (induction bs)
  case Nil
  then show ?case by simp
next
  case (Cons b bs)
  have "unat b < 256" using unsigned_less [of b] by simp
  with Cons show ?case by simp
qed

lemma le_val_append: "le_val (xs @ ys) = le_val xs + 256 ^ length xs * le_val ys"
  by (induction xs) (auto simp: algebra_simps)

lemma be_val_Cons: "be_val (b # bs) = unat b * 256 ^ length bs + be_val bs"
  by (simp add: be_val_def le_val_append)

lemma be_val_bound: "be_val bs < 256 ^ length bs"
  using le_val_bound [of "rev bs"] by (simp add: be_val_def)

lemma be_val_less_iff:
  "length xs = length ys \<Longrightarrow> xs < ys \<longleftrightarrow> be_val xs < be_val ys"
proof (induction xs ys rule: list_induct2)
  case Nil
  then show ?case by simp
next
  case (Cons x xs y ys)
  have bx: "be_val xs < 256 ^ length ys" using be_val_bound [of xs] Cons by simp
  have b: "be_val ys < 256 ^ length ys" by (rule be_val_bound)
  consider "x < y" | "x = y" | "y < x" by force
  then show ?case
  proof cases
    case 1
    then have "unat x + 1 \<le> unat y" by (simp add: word_less_nat_alt)
    then have "(unat x + 1) * 256 ^ length ys \<le> unat y * 256 ^ length ys"
      by (rule mult_le_mono1)
    with bx Cons.hyps 1 show ?thesis by (simp add: be_val_Cons algebra_simps)
  next
    case 2
    with Cons show ?thesis by (simp add: be_val_Cons)
  next
    case 3
    then have "unat y + 1 \<le> unat x" by (simp add: word_less_nat_alt)
    then have "(unat y + 1) * 256 ^ length ys \<le> unat x * 256 ^ length ys"
      by (rule mult_le_mono1)
    with b Cons.hyps 3 show ?thesis by (auto simp: be_val_Cons algebra_simps)
  qed
qed

lemma length_be_bytes: "length (be_bytes n x) = n"
  by (simp add: be_bytes_def)

lemma be_val_be_bytes: "be_val (be_bytes n x) = x mod 256 ^ n"
  by (simp add: be_val_def be_bytes_def le_val_le_bytes)

lemma be64_less_iff: "be64 v < be64 w \<longleftrightarrow> v < w"
proof -
  have "unat v < 256 ^ 8" "unat w < 256 ^ 8"
    using unsigned_less [of v] unsigned_less [of w] by simp_all
  then show ?thesis
    using be_val_less_iff [of "be64 v" "be64 w"]
    by (simp add: be64_def be_val_be_bytes word_less_nat_alt length_be_bytes)
qed

lemma be32_less_iff: "be32 v < be32 w \<longleftrightarrow> v < w"
proof -
  have "unat v < 256 ^ 4" "unat w < 256 ^ 4"
    using unsigned_less [of v] unsigned_less [of w] by simp_all
  then show ?thesis
    using be_val_less_iff [of "be32 v" "be32 w"]
    by (simp add: be32_def be_val_be_bytes word_less_nat_alt length_be_bytes)
qed

section \<open>The sign bit of a 64-bit word\<close>

unbundle bit_operations_syntax

lemma take_bit_uint64: "take_bit 64 (uint (v :: i64)) = uint v"
proof -
  have "uint v < 2 ^ LENGTH(64)" by (rule unsigned_less)
  then show ?thesis by (simp add: take_bit_int_eq_self)
qed

lemma uint_split_top: "uint (v :: i64) = 2 ^ 63 * of_bool (bit v 63) + take_bit 63 (uint v)"
proof -
  have "uint v = take_bit (Suc 63) (uint v)" by (simp add: take_bit_uint64)
  also have "\<dots> = 2 ^ 63 * of_bool (bit (uint v) 63) + take_bit 63 (uint v)"
    by (rule take_bit_Suc_from_most)
  finally show ?thesis by (simp add: bit_uint_iff)
qed

lemma sint_split_top: "sint (v :: i64) = take_bit 63 (uint v) - 2 ^ 63 * of_bool (bit v 63)"
proof -
  have "sint v = signed_take_bit 63 (uint v)" by (simp add: sint_uint)
  also have "\<dots> = take_bit (Suc 63) (uint v) - 2 ^ Suc 63 * of_bool (bit (uint v) 63)"
    by (rule signed_take_bit_eq_take_bit_minus)
  finally show ?thesis using uint_split_top [of v] by (simp add: bit_uint_iff take_bit_uint64)
qed

lemma uint_xor_top: "uint ((v :: i64) XOR push_bit 63 1) = sint v + 2 ^ 63"
proof -
  let ?w = "v XOR push_bit 63 1"
  have "bit ?w 63 \<longleftrightarrow> \<not> bit v 63"
    by (simp add: bit_xor_iff)
  moreover have "take_bit 63 (uint ?w) = take_bit 63 (uint v)"
    by (simp add: unsigned_xor_eq)
  ultimately show ?thesis
    using uint_split_top [of ?w] by (simp add: sint_split_top)
qed
lemma xor_top_less_iff:
  "(v :: i64) XOR 9223372036854775808 < w XOR 9223372036854775808 \<longleftrightarrow> sint v < sint w"
proof -
  have "v XOR push_bit 63 1 < w XOR push_bit 63 1 \<longleftrightarrow> sint v < sint w"
    unfolding word_less_def uint_xor_top by simp
  then show ?thesis by simp
qed

lemma xor_top_twice [simp]: "((v :: i64) XOR 9223372036854775808) XOR 9223372036854775808 = v"
  by (simp add: xor.assoc)

lemma xor_top_inj [simp]:
  "(v :: i64) XOR 9223372036854775808 = w XOR 9223372036854775808 \<longleftrightarrow> v = w"
proof
  assume "v XOR 9223372036854775808 = w XOR 9223372036854775808"
  then have "(v XOR 9223372036854775808) XOR 9223372036854775808
    = (w XOR 9223372036854775808) XOR 9223372036854775808" by (rule arg_cong)
  then show "v = w" unfolding xor_top_twice .
qed simp

lemma be64_inj [simp]: "be64 v = be64 w \<longleftrightarrow> v = w"
  by (metis of_nat_be_val_be64)

lemma be64_not_Nil [simp]: "be64 v \<noteq> []"
  by (metis length_word_bytes(4) list.size(3) zero_neq_numeral)

end
