(* ===== verification/Tree.thy ===== *)
theory Tree
  imports Node
begin

text \<open>
  The tree layer of \<^verbatim>\<open>storage/btree.go\<close>. A \<open>BTree\<close> is the struct of the source: the root page and
  the three callbacks through which it reads, allocates and frees pages. The state behind the
  callbacks is the type parameter \<open>'s\<close> and is passed along explicitly, so that the same definitions
  serve the page store of \<^verbatim>\<open>storage/disk.go\<close> and the in-memory pages of a transaction.

  The recursion follows page pointers, which nothing forces to be acyclic, so every recursive
  operation takes a fuel that bounds its depth; it returns \<open>None\<close> when the fuel runs out. The fuel
  that is enough is one more than the height of the tree (see \<^verbatim>\<open>Tree_Correct\<close>).
\<close>

record 's BTree =
  Root :: u64
  tget :: "'s \<Rightarrow> u64 \<Rightarrow> bytes option"
  tnew :: "'s \<Rightarrow> bytes \<Rightarrow> ('s \<times> u64) option"
  tdel :: "'s \<Rightarrow> u64 \<Rightarrow> 's option"

definition make_bytes :: "nat \<Rightarrow> bytes" where
  "make_bytes n = replicate n 0"

section \<open>Replacing kids\<close>

fun replaceKids_loop :: "'s BTree \<Rightarrow> 's \<Rightarrow> BNode \<Rightarrow> u16 \<Rightarrow> BNode list \<Rightarrow> ('s \<times> BNode) option" where
  "replaceKids_loop tree s new idx [] = Some (s, new)"
| "replaceKids_loop tree s new idx (kidNode # kids) = do {
     (s, ptr) \<leftarrow> tnew tree s kidNode;
     key \<leftarrow> getKey kidNode 0;
     new \<leftarrow> nodeAppendKV new idx ptr key [];
     replaceKids_loop tree s new (idx + 1) kids }"

definition nodeReplaceKidN ::
    "'s BTree \<Rightarrow> 's \<Rightarrow> BNode \<Rightarrow> BNode \<Rightarrow> u16 \<Rightarrow> BNode list \<Rightarrow> ('s \<times> BNode) option" where
  "nodeReplaceKidN tree s new old idx kids = do {
     let inc = of_nat (length kids);
     n \<leftarrow> nkeys old;
     new \<leftarrow> setHeader new BNODE_NODE (n + inc - 1);
     new \<leftarrow> nodeAppendRange new old 0 0 idx;
     (s, new) \<leftarrow> replaceKids_loop tree s new idx kids;
     new \<leftarrow> nodeAppendRange new old (idx + inc) (idx + 1) (n - (idx + 1));
     Some (s, new) }"

text \<open>\<open>shouldMerge\<close>: the direction (-1 left, 1 right, 0 none) and the sibling.\<close>

definition shouldMerge :: "'s BTree \<Rightarrow> 's \<Rightarrow> BNode \<Rightarrow> u16 \<Rightarrow> BNode \<Rightarrow> (int \<times> BNode) option" where
  "shouldMerge tree s node idx updated = do {
     u \<leftarrow> nbytes updated;
     if u > PAGE_SIZE div 4 then Some (0, [])
     else do {
       left \<leftarrow> (if idx > 0 then do {
           p \<leftarrow> getptr node (idx - 1);
           leftSib \<leftarrow> tget tree s p;
           l \<leftarrow> nbytes leftSib;
           Some (if l + u - HEADER \<le> PAGE_SIZE then Some leftSib else None) }
         else Some None);
       case left of
         Some leftSib \<Rightarrow> Some (- 1, leftSib)
       | None \<Rightarrow> do {
           n \<leftarrow> nkeys node;
           if idx + 1 < n then do {
             p \<leftarrow> getptr node (idx + 1);
             rightSib \<leftarrow> tget tree s p;
             r \<leftarrow> nbytes rightSib;
             Some (if r + u - HEADER \<le> PAGE_SIZE then (1, rightSib) else (0, [])) }
           else Some (0, []) } } }"

section \<open>Insertion\<close>

definition leafPut :: "BNode \<Rightarrow> u16 \<Rightarrow> bytes \<Rightarrow> bytes \<Rightarrow> BNode option" where
  "leafPut node idx key val = do {
     k \<leftarrow> getKey node idx;
     if key = k then leafUpdate (make_bytes (2 * PAGE_SIZE)) node idx key val
     else do {
       k0 \<leftarrow> getKey node 0;
       if bytes_Compare key k0 < 0 \<and> idx = 0 then do {
         n \<leftarrow> nkeys node;
         new \<leftarrow> setHeader (make_bytes (2 * PAGE_SIZE)) BNODE_LEAF (n + 1);
         new \<leftarrow> nodeAppendKV new 0 0 key val;
         nodeAppendRange new node 1 0 n }
       else leafInsert (make_bytes (2 * PAGE_SIZE)) node (idx + 1) key val } }"

fun treeInsert :: "nat \<Rightarrow> 's BTree \<Rightarrow> 's \<Rightarrow> BNode \<Rightarrow> bytes \<Rightarrow> bytes \<Rightarrow> ('s \<times> BNode) option"
  and nodeInsert :: "nat \<Rightarrow> 's BTree \<Rightarrow> 's \<Rightarrow> BNode \<Rightarrow> BNode \<Rightarrow> u16 \<Rightarrow> bytes \<Rightarrow> bytes \<Rightarrow> ('s \<times> BNode) option"
where
  "treeInsert 0 tree s node key val = None"
| "treeInsert (Suc fuel) tree s node key val = do {
     idx \<leftarrow> nodeLookupLE node key;
     bt \<leftarrow> btype node;
     if bt = BNODE_LEAF then map_option (Pair s) (leafPut node idx key val)
     else if bt = BNODE_NODE then nodeInsert fuel tree s (make_bytes (2 * PAGE_SIZE)) node idx key val
     else None }"
| "nodeInsert fuel tree s new node idx key val = do {
     kptr \<leftarrow> getptr node idx;
     kid \<leftarrow> tget tree s kptr;
     (s, knode) \<leftarrow> treeInsert fuel tree s kid key val;
     split \<leftarrow> nodeSplit3 knode;
     s \<leftarrow> tdel tree s kptr;
     nodeReplaceKidN tree s new node idx split }"

section \<open>Deletion\<close>

text \<open>The empty slice stands for "key not found", as in the source.\<close>

fun treeDelete :: "nat \<Rightarrow> 's BTree \<Rightarrow> 's \<Rightarrow> BNode \<Rightarrow> bytes \<Rightarrow> ('s \<times> BNode) option"
  and nodeDelete :: "nat \<Rightarrow> 's BTree \<Rightarrow> 's \<Rightarrow> BNode \<Rightarrow> u16 \<Rightarrow> bytes \<Rightarrow> ('s \<times> BNode) option"
where
  "treeDelete 0 tree s node key = None"
| "treeDelete (Suc fuel) tree s node key = do {
     idx \<leftarrow> nodeLookupLE node key;
     bt \<leftarrow> btype node;
     if bt = BNODE_LEAF then do {
       k \<leftarrow> getKey node idx;
       if key \<noteq> k then Some (s, [])
       else map_option (Pair s) (leafDelete (make_bytes PAGE_SIZE) node idx) }
     else if bt = BNODE_NODE then nodeDelete fuel tree s node idx key
     else None }"
| "nodeDelete fuel tree s node idx key = do {
     kptr \<leftarrow> getptr node idx;
     kid \<leftarrow> tget tree s kptr;
     (s, updated) \<leftarrow> treeDelete fuel tree s kid key;
     if updated = [] then Some (s, [])
     else do {
       (mergeDir, sibling) \<leftarrow> shouldMerge tree s node idx updated;
       un \<leftarrow> nkeys updated;
       if mergeDir < 0 then do {
         merged \<leftarrow> nodeMerge (make_bytes PAGE_SIZE) sibling updated;
         p \<leftarrow> getptr node (idx - 1);
         s \<leftarrow> tdel tree s p;
         (s, mp) \<leftarrow> tnew tree s merged;
         mk \<leftarrow> getKey merged 0;
         new \<leftarrow> nodeReplace2Kid (make_bytes PAGE_SIZE) node (idx - 1) mp mk;
         Some (s, new) }
       else if mergeDir > 0 then do {
         merged \<leftarrow> nodeMerge (make_bytes PAGE_SIZE) updated sibling;
         p \<leftarrow> getptr node (idx + 1);
         s \<leftarrow> tdel tree s p;
         (s, mp) \<leftarrow> tnew tree s merged;
         mk \<leftarrow> getKey merged 0;
         new \<leftarrow> nodeReplace2Kid (make_bytes PAGE_SIZE) node idx mp mk;
         Some (s, new) }
       else if un = 0 then do {
         n \<leftarrow> nkeys node;
         if n = 1 \<and> idx = 0 then do {
           new \<leftarrow> setHeader (make_bytes PAGE_SIZE) BNODE_NODE 0;
           Some (s, new) }
         else Some (s, make_bytes PAGE_SIZE) }
       else nodeReplaceKidN tree s (make_bytes PAGE_SIZE) node idx [updated] } }"

section \<open>Lookup\<close>

fun tree_getVal :: "nat \<Rightarrow> 's BTree \<Rightarrow> 's \<Rightarrow> BNode \<Rightarrow> bytes \<Rightarrow> (gostring + bytes) option" where
  "tree_getVal 0 t s node key = None"
| "tree_getVal (Suc fuel) t s node key = do {
     bt \<leftarrow> btype node;
     if bt = BNODE_LEAF then do {
       idx \<leftarrow> nodeLookupLE node key;
       k \<leftarrow> getKey node idx;
       if k = key then do { v \<leftarrow> getVal node idx; Some (Inr v) }
       else Some (Inl (str ''key not present'')) }
     else if bt = BNODE_NODE then do {
       idx \<leftarrow> nodeLookupLE node key;
       cptr \<leftarrow> getptr node idx;
       cnode \<leftarrow> tget t s cptr;
       tree_getVal fuel t s cnode key }
     else Some (Inl (str ''invalid node header'')) }"

definition GetVal :: "nat \<Rightarrow> 's BTree \<Rightarrow> 's \<Rightarrow> bytes \<Rightarrow> (gostring + bytes) option" where
  "GetVal fuel t s key =
     (if Root t = 0 then Some (Inl (str ''btree is empty''))
      else do { node \<leftarrow> tget t s (Root t); tree_getVal fuel t s node key })"

section \<open>The operations on the whole tree\<close>

text \<open>
  The loop of \<open>Insert\<close> that fills a new root: when the old root was a leaf, the first entry of the
  first part is dropped (it is the empty key the tree was created with).
\<close>

fun newRoot_loop :: "'s BTree \<Rightarrow> 's \<Rightarrow> BNode \<Rightarrow> bool \<Rightarrow> u16 \<Rightarrow> BNode list \<Rightarrow> ('s \<times> BNode) option" where
  "newRoot_loop t s newRoot rootWasLeaf i [] = Some (s, newRoot)"
| "newRoot_loop t s newRoot rootWasLeaf i (childNode # rest) = do {
     childNode \<leftarrow> (if rootWasLeaf \<and> i = 0 then do {
         bt \<leftarrow> btype childNode;
         n \<leftarrow> nkeys childNode;
         modChildNode \<leftarrow> setHeader (make_bytes PAGE_SIZE) bt (n - 1);
         nodeAppendRange modChildNode childNode 0 1 (n - 1) }
       else Some childNode);
     (s, ptr) \<leftarrow> tnew t s childNode;
     childKey \<leftarrow> getKey childNode 0;
     newRoot \<leftarrow> nodeAppendKV newRoot i ptr childKey [];
     newRoot_loop t s newRoot rootWasLeaf (i + 1) rest }"

definition Insert :: "nat \<Rightarrow> 's BTree \<Rightarrow> 's \<Rightarrow> bytes \<Rightarrow> bytes \<Rightarrow> ('s BTree \<times> 's) option" where
  "Insert fuel t s key val =
     (if Root t = 0 then do {
        new \<leftarrow> setHeader (make_bytes PAGE_SIZE) BNODE_LEAF 2;
        new \<leftarrow> nodeAppendKV new 0 0 [] [];
        new \<leftarrow> nodeAppendKV new 1 0 key val;
        (s, p) \<leftarrow> tnew t s new;
        Some (t\<lparr>Root := p\<rparr>, s) }
      else do {
        root \<leftarrow> tget t s (Root t);
        (s, node) \<leftarrow> treeInsert fuel t s root key val;
        split \<leftarrow> nodeSplit3 node;
        rootnode \<leftarrow> tget t s (Root t);
        rt \<leftarrow> btype rootnode;
        s \<leftarrow> (if rt \<noteq> BNODE_LEAF then tdel t s (Root t) else Some s);
        if length split > 1 then do {
          newRoot \<leftarrow> setHeader (make_bytes PAGE_SIZE) BNODE_NODE (of_nat (length split));
          (s, newRoot) \<leftarrow> newRoot_loop t s newRoot (rt = BNODE_LEAF) 0 split;
          (s, p) \<leftarrow> tnew t s newRoot;
          Some (t\<lparr>Root := p\<rparr>, s) }
        else do {
          (s, p) \<leftarrow> tnew t s (split ! 0);
          Some (t\<lparr>Root := p\<rparr>, s) } })"

definition Delete :: "nat \<Rightarrow> 's BTree \<Rightarrow> 's \<Rightarrow> bytes \<Rightarrow> ('s BTree \<times> 's \<times> bool) option" where
  "Delete fuel tree s key =
     (if Root tree = 0 then None
      else do {
        root \<leftarrow> tget tree s (Root tree);
        (s, updatedNode) \<leftarrow> treeDelete fuel tree s root key;
        if updatedNode = [] then Some (tree, s, False)
        else do {
          s \<leftarrow> tdel tree s (Root tree);
          bt \<leftarrow> btype updatedNode;
          n \<leftarrow> nkeys updatedNode;
          if bt = BNODE_NODE \<and> n = 1 then do {
            p \<leftarrow> getptr updatedNode 0;
            Some (tree\<lparr>Root := p\<rparr>, s, True) }
          else do {
            (s, p) \<leftarrow> tnew tree s updatedNode;
            Some (tree\<lparr>Root := p\<rparr>, s, True) } } })"

end
