(* ===== verification/Node_Repr.thy ===== *)
theory Node_Repr
  imports Node
begin

text \<open>
  What the bytes of a node mean. An entry is a pointer, a key and a value; \<open>pnode b t n es\<close> says
  that the slice \<open>b\<close> has the header (type \<open>t\<close>, \<open>n\<close> keys) and that its first
  \<open>length es\<close> slots are filled with the entries \<open>es\<close>; the remaining slots are free, as in a node
  under construction. \<open>node b t es\<close> is a complete node. The lemmas give every reader's result and
  every writer's effect in terms of the entries; they are the only facts about the layout that the
  tree layer uses.
\<close>

section \<open>Entries and their encoding\<close>

type_synonym entry = "u64 \<times> bytes \<times> bytes"

abbreviation eptr :: "entry \<Rightarrow> u64" where "eptr e \<equiv> fst e"
abbreviation ekey :: "entry \<Rightarrow> bytes" where "ekey e \<equiv> fst (snd e)"
abbreviation eval :: "entry \<Rightarrow> bytes" where "eval e \<equiv> snd (snd e)"

definition kv_len :: "entry \<Rightarrow> nat" where
  "kv_len e = 4 + length (ekey e) + length (eval e)"

definition kvs_len :: "entry list \<Rightarrow> nat" where
  "kvs_len es = sum_list (map kv_len es)"

definition kv_bytes :: "entry \<Rightarrow> bytes" where
  "kv_bytes e = le16 (of_nat (length (ekey e))) @ le16 (of_nat (length (eval e))) @ ekey e @ eval e"

definition kvs_bytes :: "entry list \<Rightarrow> bytes" where
  "kvs_bytes es = concat (map kv_bytes es)"

definition node_size :: "entry list \<Rightarrow> nat" where
  "node_size es = 4 + 10 * length es + kvs_len es"

definition pnode :: "BNode \<Rightarrow> u16 \<Rightarrow> nat \<Rightarrow> entry list \<Rightarrow> bool" where
  "pnode b t n es \<longleftrightarrow>
     length es \<le> n \<and> 4 + 10 * n + kvs_len es \<le> length b \<and> length b < 65536 \<and>
     slice 0 2 b = le16 t \<and> slice 2 2 b = le16 (of_nat n) \<and>
     (\<forall>i < length es. slice (4 + 8 * i) 8 b = le64 (eptr (es ! i))) \<and>
     (\<forall>i < length es. slice (4 + 8 * n + 2 * i) 2 b = le16 (of_nat (kvs_len (take (Suc i) es)))) \<and>
     slice (4 + 10 * n) (kvs_len es) b = kvs_bytes es"

definition node :: "BNode \<Rightarrow> u16 \<Rightarrow> entry list \<Rightarrow> bool" where
  "node b t es \<longleftrightarrow> pnode b t (length es) es"

lemma kvs_len_simps [simp]:
  "kvs_len [] = 0" "kvs_len (e # es) = kv_len e + kvs_len es"
  "kvs_len (es @ fs) = kvs_len es + kvs_len fs"
  by (simp_all add: kvs_len_def)

lemma kvs_bytes_simps [simp]:
  "kvs_bytes [] = []" "kvs_bytes (e # es) = kv_bytes e @ kvs_bytes es"
  "kvs_bytes (es @ fs) = kvs_bytes es @ kvs_bytes fs"
  by (simp_all add: kvs_bytes_def)

lemma length_kv_bytes [simp]: "length (kv_bytes e) = kv_len e"
  by (simp add: kv_bytes_def kv_len_def)

lemma length_kvs_bytes [simp]: "length (kvs_bytes es) = kvs_len es"
  by (induction es) auto

lemma kvs_len_take_drop: "kvs_len (take i es) + kvs_len (drop i es) = kvs_len es"
  by (metis append_take_drop_id kvs_len_simps(3))

lemma kvs_len_take_le: "kvs_len (take i es) \<le> kvs_len es"
  using kvs_len_take_drop [of i es] by simp

lemma kvs_len_take_Suc:
  "i < length es \<Longrightarrow> kvs_len (take (Suc i) es) = kvs_len (take i es) + kv_len (es ! i)"
  by (simp add: take_Suc_conv_app_nth)

lemma slice_kvs:
  assumes "slice p (kvs_len es) b = kvs_bytes es" and "i < length es"
  shows "slice (p + kvs_len (take i es)) (kv_len (es ! i)) b = kv_bytes (es ! i)"
proof -
  have split: "es = take i es @ es ! i # drop (Suc i) es"
    using assms(2) by (rule id_take_nth_drop)
  have len: "kvs_len es = kvs_len (take i es) + kv_len (es ! i) + kvs_len (drop (Suc i) es)"
    by (subst split) simp
  have "slice (kvs_len (take i es)) (kv_len (es ! i)) (kvs_bytes es) = kv_bytes (es ! i)"
    by (subst split) (simp add: slice_def)
  with assms(1) len show ?thesis by (metis le_add1 slice_slice)
qed

lemma slice_kvs_range:
  assumes "slice p (kvs_len es) b = kvs_bytes es"
  shows "slice (p + kvs_len (take i es)) (kvs_len (take m (drop i es))) b = kvs_bytes (take m (drop i es))"
proof -
  let ?r = "drop m (drop i es)"
  have split: "es = take i es @ take m (drop i es) @ ?r" by (metis append_take_drop_id)
  have len: "kvs_len es = kvs_len (take i es) + kvs_len (take m (drop i es)) + kvs_len ?r"
    by (subst split, simp only: kvs_len_simps)
  have "slice (kvs_len (take i es)) (kvs_len (take m (drop i es)))
      (kvs_bytes (take i es) @ kvs_bytes (take m (drop i es)) @ kvs_bytes ?r)
    = kvs_bytes (take m (drop i es))"
    by (simp add: slice_def)
  then have "slice (kvs_len (take i es)) (kvs_len (take m (drop i es))) (kvs_bytes es)
    = kvs_bytes (take m (drop i es))"
    using split by (metis kvs_bytes_simps(3))
  with assms len show ?thesis by (metis le_add1 slice_slice)
qed

section \<open>Reading a node\<close>

lemma pnode_bounds:
  assumes "pnode b t n es"
  shows "length es \<le> n" "n < 65536" "4 + 10 * n + kvs_len es \<le> length b" "length b < 65536"
  using assms by (auto simp: pnode_def)

lemma pnode_btype: "pnode b t n es \<Longrightarrow> btype b = Some t"
  by (auto simp: pnode_def btype_def intro: Uint16_at_slice)

lemma pnode_nkeys: "pnode b t n es \<Longrightarrow> nkeys b = Some (of_nat n)"
  by (auto simp: pnode_def nkeys_def intro: Uint16_at_slice)

lemma u16_of_nat_less: "i < 65536 \<Longrightarrow> j < 65536 \<Longrightarrow> (of_nat i :: u16) < of_nat j \<longleftrightarrow> i < j"
  by (simp add: word_less_nat_alt u16_of_nat)

lemma u16_of_nat_le: "i < 65536 \<Longrightarrow> j < 65536 \<Longrightarrow> (of_nat i :: u16) \<le> of_nat j \<longleftrightarrow> i \<le> j"
  by (simp add: word_le_nat_alt u16_of_nat)

lemma ptr_pos: "4 + 8 * i < 65536 \<Longrightarrow> unat (HEADER + of_nat i * 8) = 4 + 8 * i"
  using u16_of_nat [of "4 + 8 * i"] by (simp add: mult.commute)

lemma off_pos:
  "4 + 8 * n + 2 * i < 65536 \<Longrightarrow>
   unat (HEADER + of_nat n * POINTER + (of_nat (Suc i) - 1) * OFFSET) = 4 + 8 * n + 2 * i"
  using u16_of_nat [of "4 + 8 * n + 2 * i"] by (simp add: mult.commute)

lemma pnode_getptr:
  assumes "pnode b t n es" "i < length es"
  shows "getptr b (of_nat i) = Some (eptr (es ! i))"
proof -
  have "4 + 8 * i + 8 \<le> length b" using assms by (auto simp: pnode_def)
  moreover have "(of_nat i :: u16) < of_nat n"
    using assms pnode_bounds [OF assms(1)] by (simp add: u16_of_nat_less)
  ultimately show ?thesis
    using assms pnode_bounds [OF assms(1)]
    by (auto simp: getptr_def pnode_nkeys [OF assms(1)] ptr_pos pnode_def intro!: Uint64_at_slice)
qed


lemma pnode_offsetPos:
  assumes "pnode b t n es" "i < n"
  shows "\<exists>p. offsetPos b (of_nat (Suc i)) = Some p \<and> unat p = 4 + 8 * n + 2 * i"
proof -
  have "\<not> (of_nat n :: u16) < of_nat (Suc i)"
    using assms pnode_bounds [OF assms(1)] by (simp add: u16_of_nat_less del: of_nat_Suc)
  moreover have "4 + 8 * n + 2 * i < 65536" using assms pnode_bounds [OF assms(1)] by linarith
  ultimately show ?thesis
    using off_pos [of n i] by (simp add: offsetPos_def pnode_nkeys [OF assms(1)] del: of_nat_Suc)
qed

lemma of_nat_Suc_u16_nonzero: "i + 1 < 65536 \<Longrightarrow> (of_nat (Suc i) :: u16) \<noteq> 0"
  using u16_of_nat [of "Suc i"] by (metis Suc_eq_plus1 nat.distinct(1) unat_0)

lemma pnode_getOffset:
  assumes "pnode b t n es" "i \<le> length es"
  shows "getOffset b (of_nat i) = Some (of_nat (kvs_len (take i es)))"
proof (cases i)
  case 0
  then show ?thesis by (simp add: getOffset_def)
next
  case (Suc j)
  with assms pnode_bounds [OF assms(1)] have j: "j < length es" "j < n" by simp_all
  obtain p where "offsetPos b (of_nat (Suc j)) = Some p" "unat p = 4 + 8 * n + 2 * j"
    using pnode_offsetPos [OF assms(1) j(2)] by blast
  moreover have "4 + 8 * n + 2 * j + 2 \<le> length b" using pnode_bounds [OF assms(1)] j by linarith
  moreover have "(of_nat (Suc j) :: u16) \<noteq> 0"
    using j pnode_bounds [OF assms(1)] by (intro of_nat_Suc_u16_nonzero) simp
  ultimately show ?thesis
    using assms(1) j Suc by (auto simp: getOffset_def pnode_def simp del: of_nat_Suc intro!: Uint16_at_slice)
qed

lemma pnode_kvPos:
  assumes "pnode b t n es" "i \<le> length es"
  shows "kvPos b (of_nat i) = Some (of_nat (4 + 10 * n + kvs_len (take i es)))"
  using pnode_nkeys [OF assms(1)] pnode_getOffset [OF assms]
  by (simp add: kvPos_def algebra_simps)

lemma pnode_kvStart: "pnode b t n es \<Longrightarrow> kvStart b = Some (of_nat (4 + 10 * n))"
  by (simp add: kvStart_def pnode_nkeys algebra_simps)

lemma pnode_kv:
  assumes "pnode b t n es" "i < length es"
  shows "slice (4 + 10 * n + kvs_len (take i es)) (kv_len (es ! i)) b = kv_bytes (es ! i)"
    and "4 + 10 * n + kvs_len (take i es) + kv_len (es ! i) \<le> length b"
proof -
  show "slice (4 + 10 * n + kvs_len (take i es)) (kv_len (es ! i)) b = kv_bytes (es ! i)"
    using assms by (intro slice_kvs) (auto simp: pnode_def)
  have "kvs_len (take (Suc i) es) \<le> kvs_len es" by (rule kvs_len_take_le)
  then show "4 + 10 * n + kvs_len (take i es) + kv_len (es ! i) \<le> length b"
    using pnode_bounds [OF assms(1)] assms(2) by (simp add: kvs_len_take_Suc)
qed

lemma kv_bytes_parts:
  "slice 0 2 (kv_bytes e) = le16 (of_nat (length (ekey e)))"
  "slice 2 2 (kv_bytes e) = le16 (of_nat (length (eval e)))"
  "slice 4 (length (ekey e)) (kv_bytes e) = ekey e"
  "slice (4 + length (ekey e)) (length (eval e)) (kv_bytes e) = eval e"
  by (simp_all add: kv_bytes_def slice_def)

lemma go_from_upto: "p + n \<le> length b \<Longrightarrow> do { r \<leftarrow> go_from b p; go_upto r n } = Some (slice p n b)"
  by (simp add: go_defs slice_def)

lemma pnode_kv_parts:
  assumes "pnode b t n es" "i < length es"
  defines "p \<equiv> 4 + 10 * n + kvs_len (take i es)"
  shows "slice p 2 b = le16 (of_nat (length (ekey (es ! i))))"
    and "slice (p + 2) 2 b = le16 (of_nat (length (eval (es ! i))))"
    and "slice (p + 4) (length (ekey (es ! i))) b = ekey (es ! i)"
    and "slice (p + 4 + length (ekey (es ! i))) (length (eval (es ! i))) b = eval (es ! i)"
  using kv_bytes_parts [of "es ! i"] pnode_kv(1) [OF assms(1,2)]
    slice_slice [of 0 2 "kv_len (es ! i)" p b] slice_slice [of 2 2 "kv_len (es ! i)" p b]
    slice_slice [of 4 "length (ekey (es ! i))" "kv_len (es ! i)" p b]
    slice_slice [of "4 + length (ekey (es ! i))" "length (eval (es ! i))" "kv_len (es ! i)" p b]
  by (simp_all add: p_def kv_len_def add.assoc)

lemma pnode_getKey:
  assumes "pnode b t n es" "i < length es"
  shows "getKey b (of_nat i) = Some (ekey (es ! i))"
proof -
  define p where "p = 4 + 10 * n + kvs_len (take i es)"
  note parts = pnode_kv_parts [OF assms, folded p_def]
  have len: "p + 4 + length (ekey (es ! i)) + length (eval (es ! i)) \<le> length b"
    using pnode_kv(2) [OF assms] by (simp add: p_def kv_len_def)
  have bnd: "length b < 65536" by (rule pnode_bounds [OF assms(1)])
  have pos: "kvPos b (of_nat i) = Some (of_nat p)"
    using pnode_kvPos [OF assms(1), of i] assms(2) by (simp add: p_def)
  have u: "unat (of_nat p :: u16) = p" "unat (of_nat p + 4 :: u16) = p + 4"
    "unat (of_nat (length (ekey (es ! i))) :: u16) = length (ekey (es ! i))"
    using len bnd u16_of_nat [of "p + 4"] by (simp_all add: u16_of_nat add.commute)
  have k: "Uint16_at b p = Some (of_nat (length (ekey (es ! i))))"
    using len parts(1) by (intro Uint16_at_slice) simp_all
  show ?thesis
    using go_from_upto [of "p + 4" "length (ekey (es ! i))" b] len parts(3)
    by (simp add: getKey_def pos u k)
qed

lemma pnode_getVal:
  assumes "pnode b t n es" "i < length es"
  shows "getVal b (of_nat i) = Some (eval (es ! i))"
proof -
  define p where "p = 4 + 10 * n + kvs_len (take i es)"
  define kl where "kl = length (ekey (es ! i))"
  note parts = pnode_kv_parts [OF assms, folded p_def kl_def]
  have len: "p + 4 + kl + length (eval (es ! i)) \<le> length b"
    using pnode_kv(2) [OF assms] by (simp add: p_def kv_len_def kl_def)
  have bnd: "length b < 65536" by (rule pnode_bounds [OF assms(1)])
  have pos: "kvPos b (of_nat i) = Some (of_nat p)"
    using pnode_kvPos [OF assms(1), of i] assms(2) by (simp add: p_def)
  have u: "unat (of_nat p :: u16) = p" "unat (of_nat p + 2 :: u16) = p + 2"
    "unat (of_nat p + 4 + of_nat kl :: u16) = p + 4 + kl"
    "unat (of_nat (length (eval (es ! i))) :: u16) = length (eval (es ! i))"
    using len bnd u16_of_nat [of "p + 2"] u16_of_nat [of "p + 4 + kl"]
    by (simp_all add: u16_of_nat add.commute)
  have k: "Uint16_at b p = Some (of_nat kl)" "Uint16_at b (p + 2) = Some (of_nat (length (eval (es ! i))))"
    using len parts(1,2) by (auto intro: Uint16_at_slice)
  show ?thesis
    using go_from_upto [of "p + 4 + kl" "length (eval (es ! i))" b] len parts(4)
    by (simp add: getVal_def pos u k del: add_2_eq_Suc')
qed

lemma pnode_nbytes: "node b t es \<Longrightarrow> nbytes b = Some (of_nat (node_size es))"
  by (simp add: node_def nbytes_def pnode_nkeys pnode_kvPos node_size_def)


section \<open>Writing a node\<close>

text \<open>A write into a free pointer slot, a free offset slot or the free space keeps the entries.\<close>

definition free_region :: "nat \<Rightarrow> entry list \<Rightarrow> nat \<Rightarrow> nat \<Rightarrow> bool" where
  "free_region n es p l \<longleftrightarrow>
     4 + 8 * length es \<le> p \<and> p + l \<le> 4 + 8 * n
   \<or> 4 + 8 * n + 2 * length es \<le> p \<and> p + l \<le> 4 + 10 * n
   \<or> 4 + 10 * n + kvs_len es \<le> p"

lemma pnode_put:
  assumes "pnode b t n es" "free_region n es p (length xs)" "p + length xs \<le> length b"
  shows "pnode (put p xs b) t n es"
proof -
  have keep: "slice q l (put p xs b) = slice q l b" if "q + l \<le> p \<or> p + length xs \<le> q" for q l
    using that assms(3) by (auto simp: slice_simps)
  have h: "4 \<le> p" using assms(2) by (auto simp: free_region_def)
  have "slice (4 + 8 * i) 8 (put p xs b) = slice (4 + 8 * i) 8 b" if "i < length es" for i
    using that assms(2) pnode_bounds(1) [OF assms(1)] by (intro keep) (auto simp: free_region_def)
  moreover have "slice (4 + 8 * n + 2 * i) 2 (put p xs b) = slice (4 + 8 * n + 2 * i) 2 b"
    if "i < length es" for i
    using that assms(2) pnode_bounds(1) [OF assms(1)] by (intro keep) (auto simp: free_region_def)
  moreover have "slice (4 + 10 * n) (kvs_len es) (put p xs b) = slice (4 + 10 * n) (kvs_len es) b"
    using assms(2) by (intro keep) (auto simp: free_region_def)
  ultimately show ?thesis
    using assms(1,3) h by (simp add: pnode_def keep)
qed

lemma pnode_append:
  assumes "pnode b t n es" "length es + length ms \<le> n"
    and "4 + 10 * n + kvs_len es + kvs_len ms \<le> length b"
    and "\<And>i. i < length ms \<Longrightarrow> slice (4 + 8 * (length es + i)) 8 b = le64 (eptr (ms ! i))"
    and "\<And>i. i < length ms \<Longrightarrow> slice (4 + 8 * n + 2 * (length es + i)) 2 b
           = le16 (of_nat (kvs_len es + kvs_len (take (Suc i) ms)))"
    and "slice (4 + 10 * n + kvs_len es) (kvs_len ms) b = kvs_bytes ms"
  shows "pnode b t n (es @ ms)"
proof -
  have "slice (4 + 8 * i) 8 b = le64 (eptr ((es @ ms) ! i))" if "i < length (es @ ms)" for i
  proof (cases "i < length es")
    case True
    with assms(1) show ?thesis by (simp add: pnode_def nth_append)
  next
    case False
    then have "length es + (i - length es) = i" by simp
    with that False assms(4) [of "i - length es"] show ?thesis by (simp add: nth_append)
  qed
  moreover have "slice (4 + 8 * n + 2 * i) 2 b = le16 (of_nat (kvs_len (take (Suc i) (es @ ms))))"
    if "i < length (es @ ms)" for i
    using that assms(1) assms(5) [of "i - length es"]
    by (cases "i < length es") (auto simp: pnode_def Suc_diff_le algebra_simps)
  moreover have "slice (4 + 10 * n) (kvs_len (es @ ms)) b = kvs_bytes (es @ ms)"
    using assms(1,6) by (simp add: pnode_def slice_append_slice)
  ultimately show ?thesis using assms(1-3) by (simp add: pnode_def)
qed

lemma setHeader_pnode:
  assumes "4 + 10 * n \<le> length b" "length b < 65536"
  shows "\<exists>b'. setHeader b t (of_nat n) = Some b' \<and> pnode b' t n [] \<and> length b' = length b"
proof -
  let ?b = "put 2 (le16 (of_nat n)) (put 0 (le16 t) b)"
  have "setHeader b t (of_nat n) = Some ?b"
    using assms by (simp add: setHeader_def PutUint16_at_def)
  moreover have "pnode ?b t n []" "length ?b = length b"
    using assms by (simp_all add: pnode_def slice_simps)
  ultimately show ?thesis by blast
qed

lemma pnode_setptr:
  assumes "pnode b t n es" "j < n"
  shows "setptr b (of_nat j) p = Some (put (4 + 8 * j) (le64 p) b)"
proof -
  have "(of_nat j :: u16) < of_nat n"
    using assms pnode_bounds [OF assms(1)] by (simp add: u16_of_nat_less)
  then show ?thesis
    using assms pnode_bounds [OF assms(1)]
    by (auto simp: setptr_def pnode_nkeys [OF assms(1)] ptr_pos PutUint64_at_def)
qed

lemma pnode_setOffset:
  assumes "pnode b t n es" "j < n"
  shows "setOffset b (of_nat (Suc j)) v = Some (put (4 + 8 * n + 2 * j) (le16 v) b)"
proof -
  have "\<not> (of_nat n :: u16) < of_nat (Suc j)"
    using assms pnode_bounds [OF assms(1)] by (simp add: u16_of_nat_less del: of_nat_Suc)
  moreover obtain q where "offsetPos b (of_nat (Suc j)) = Some q" "unat q = 4 + 8 * n + 2 * j"
    using pnode_offsetPos [OF assms] by blast
  ultimately show ?thesis
    using assms pnode_bounds [OF assms(1)]
    by (auto simp: setOffset_def pnode_nkeys [OF assms(1)] PutUint16_at_def simp del: of_nat_Suc)
qed

lemma nodeAppendKV_pnode:
  assumes "pnode b t n es" "length es < n"
    and "4 + 10 * n + kvs_len es + kv_len (p, k, v) \<le> length b"
  shows "\<exists>b'. nodeAppendKV b (of_nat (length es)) p k v = Some b' \<and>
           pnode b' t n (es @ [(p, k, v)]) \<and> length b' = length b"
proof -
  define i where "i = length es"
  define q where "q = 4 + 10 * n + kvs_len es"
  define kl where "kl = length k"
  define b1 where "b1 = put (4 + 8 * i) (le64 p) b"
  define b2 where "b2 = put q (le16 (of_nat kl)) b1"
  define b3 where "b3 = put (q + 2) (le16 (of_nat (length v))) b2"
  define b4 where "b4 = put (q + 4) k b3"
  define b5 where "b5 = put (q + 4 + kl) v b4"
  define b6 where "b6 = put (4 + 8 * n + 2 * i) (le16 (of_nat (kvs_len es + kv_len (p, k, v)))) b5"
  have len: "q + 4 + kl + length v \<le> length b" "length b < 65536" "i < n"
    using assms pnode_bounds [OF assms(1)] by (simp_all add: q_def kl_def kv_len_def i_def)
  have lens: "length b1 = length b" "length b2 = length b" "length b3 = length b"
    "length b4 = length b" "length b5 = length b" "length b6 = length b"
    using len by (simp_all add: b1_def b2_def b3_def b4_def b5_def b6_def kl_def q_def)
  have P1: "pnode b1 t n es"
    unfolding b1_def using assms(1) len by (intro pnode_put) (simp_all add: free_region_def i_def q_def)
  have P2: "pnode b2 t n es"
    unfolding b2_def using P1 len lens by (intro pnode_put) (simp_all add: free_region_def q_def)
  have P3: "pnode b3 t n es"
    unfolding b3_def using P2 len lens by (intro pnode_put) (simp_all add: free_region_def q_def)
  have P4: "pnode b4 t n es"
    unfolding b4_def using P3 len lens by (intro pnode_put) (simp_all add: free_region_def q_def kl_def)
  have P5: "pnode b5 t n es"
    unfolding b5_def using P4 len lens by (intro pnode_put) (simp_all add: free_region_def q_def)
  have P6: "pnode b6 t n es"
    unfolding b6_def using P5 len lens by (intro pnode_put) (simp_all add: free_region_def i_def q_def)
  have u: "unat (of_nat q :: u16) = q" "unat (of_nat q + 2 :: u16) = q + 2"
    "unat (of_nat q + KVHEADER) = q + 4" "unat (of_nat q + KVHEADER + of_nat kl) = q + 4 + kl"
    using len u16_of_nat [of "q + 2"] u16_of_nat [of "q + 4"] u16_of_nat [of "q + 4 + kl"]
    by (simp_all add: u16_of_nat add.commute)
  have step: "setptr b (of_nat i) p = Some b1" "kvPos b1 (of_nat i) = Some (of_nat q)"
    "PutUint16_at b1 q (of_nat kl) = Some b2"
    "PutUint16_at b2 (q + 2) (of_nat (length v)) = Some b3"
    "go_copy b3 (q + 4) k = Some b4" "go_copy b4 (q + 4 + kl) v = Some b5"
    "getOffset b5 (of_nat i) = Some (of_nat (kvs_len es))"
    using len lens pnode_setptr [OF assms(1,2)] pnode_kvPos [OF P1, of i] pnode_getOffset [OF P5, of i]
    by (simp_all add: PutUint16_at_def go_copy_def b1_def b2_def b3_def b4_def b5_def i_def q_def kl_def)
  have off: "of_nat (kvs_len es) + KVHEADER + of_nat (length k + length v)
      = (of_nat (kvs_len es + kv_len (p, k, v)) :: u16)"
    by (simp add: kv_len_def)
  have "setOffset b5 (of_nat i + 1) (of_nat (kvs_len es) + KVHEADER + of_nat (length k + length v)) = Some b6"
    using pnode_setOffset [OF P5 len(3)] unfolding off by (simp add: b6_def add.commute)
  then have "nodeAppendKV b (of_nat i) p k v = Some b6"
    unfolding nodeAppendKV_def by (simp add: step u flip: kl_def del: add_2_eq_Suc' of_nat_add)
  moreover have "pnode b6 t n (es @ [(p, k, v)])"
  proof (rule pnode_append [OF P6])
    show "slice (4 + 10 * n + kvs_len es) (kvs_len [(p, k, v)]) b6 = kvs_bytes [(p, k, v)]"
    proof -
      have "slice q 2 b6 = le16 (of_nat kl)" "slice (q + 2) 2 b6 = le16 (of_nat (length v))"
        "slice (q + 4) kl b6 = k" "slice (q + 4 + kl) (length v) b6 = v"
        using len lens by (simp_all add: b6_def b5_def b4_def b3_def b2_def slice_simps q_def kl_def)
      moreover have "slice q 4 b6 = slice q 2 b6 @ slice (q + 2) 2 b6"
        using slice_append_slice [of q 2 2 b6] by simp
      moreover have "slice q (4 + (kl + length v)) b6
          = slice q 4 b6 @ slice (q + 4) kl b6 @ slice (q + 4 + kl) (length v) b6"
        by (simp only: slice_append_slice)
      ultimately show ?thesis by (simp add: kv_bytes_def kv_len_def q_def kl_def add.assoc)
    qed
  qed (use len lens assms in \<open>simp_all add: i_def q_def kl_def kv_len_def b6_def b5_def b4_def b3_def b2_def b1_def slice_simps\<close>)
  ultimately show ?thesis using lens by (auto simp: i_def)
qed


lemma appendPtrs_pnode:
  assumes "pnode b t n es" "pnode old t' n' os" "length es + i + k \<le> n" "s + i + k \<le> length os"
  shows "\<exists>b'. appendPtrs b old (of_nat (length es)) (of_nat s) (of_nat i) k = Some b' \<and>
     pnode b' t n es \<and> length b' = length b \<and>
     (\<forall>j. i \<le> j \<and> j < i + k \<longrightarrow> slice (4 + 8 * (length es + j)) 8 b' = le64 (eptr (os ! (s + j)))) \<and>
     (\<forall>q l. q + l \<le> 4 + 8 * (length es + i) \<longrightarrow> slice q l b' = slice q l b)"
  using assms
proof (induction k arbitrary: b i)
  case 0
  then show ?case by auto
next
  case (Suc k)
  let ?d = "length es"
  let ?b = "put (4 + 8 * (?d + i)) (le64 (eptr (os ! (s + i)))) b"
  have len: "4 + 8 * (?d + i) + 8 \<le> length b"
    using Suc.prems pnode_bounds [OF Suc.prems(1)] by simp
  have P: "pnode ?b t n es"
    using Suc.prems len by (intro pnode_put) (simp_all add: free_region_def)
  obtain b' where b': "appendPtrs ?b old (of_nat ?d) (of_nat s) (of_nat (Suc i)) k = Some b'"
    "pnode b' t n es" "length b' = length ?b"
    "\<forall>j. Suc i \<le> j \<and> j < Suc i + k \<longrightarrow> slice (4 + 8 * (?d + j)) 8 b' = le64 (eptr (os ! (s + j)))"
    "\<forall>q l. q + l \<le> 4 + 8 * (?d + Suc i) \<longrightarrow> slice q l b' = slice q l ?b"
    using Suc.IH [OF P Suc.prems(2), of "Suc i"] Suc.prems by auto
  have get: "getptr old (of_nat s + of_nat i) = Some (eptr (os ! (s + i)))"
    using pnode_getptr [OF Suc.prems(2), of "s + i"] Suc.prems by simp
  have set: "setptr b (of_nat ?d + of_nat i) (eptr (os ! (s + i))) = Some ?b"
    using pnode_setptr [OF Suc.prems(1), of "?d + i"] Suc.prems by simp
  have "appendPtrs b old (of_nat ?d) (of_nat s) (of_nat i) (Suc k) = Some b'"
    using b'(1) by (simp add: get set add.commute [of "of_nat i" "1 :: u16"])
  moreover have "slice (4 + 8 * (?d + j)) 8 b' = le64 (eptr (os ! (s + j)))"
    if "i \<le> j" "j < i + Suc k" for j
  proof (cases "j = i")
    case True
    have "slice (4 + 8 * (?d + i)) 8 b' = slice (4 + 8 * (?d + i)) 8 ?b" using b'(5) by simp
    with True len show ?thesis by (simp add: slice_simps)
  next
    case False
    with that b'(4) show ?thesis by simp
  qed
  moreover have "slice q l b' = slice q l b" if "q + l \<le> 4 + 8 * (?d + i)" for q l
    using that b'(5) len by (simp add: slice_simps)
  ultimately show ?case using b'(2,3) len by auto
qed

lemma appendOffsets_pnode:
  assumes "pnode b t n es" "pnode old t' n' os" "length es + i + k \<le> n" "s + i + k \<le> length os"
    and sh: "\<And>j. j \<le> length os \<Longrightarrow> j \<ge> s \<Longrightarrow>
      of_nat (kvs_len (take j os)) + sh = (of_nat (kvs_len es + kvs_len (take (j - s) (drop s os))) :: u16)"
  shows "\<exists>b'. appendOffsets b old (of_nat (length es)) (of_nat s) sh (of_nat (Suc i)) k = Some b' \<and>
     pnode b' t n es \<and> length b' = length b \<and>
     (\<forall>j. i \<le> j \<and> j < i + k \<longrightarrow> slice (4 + 8 * n + 2 * (length es + j)) 2 b'
        = le16 (of_nat (kvs_len es + kvs_len (take (Suc j) (drop s os))))) \<and>
     (\<forall>q l. q + l \<le> 4 + 8 * n + 2 * (length es + i) \<longrightarrow> slice q l b' = slice q l b)"
  using assms(1-4)
proof (induction k arbitrary: b i)
  case 0
  then show ?case by auto
next
  case (Suc k)
  let ?d = "length es"
  let ?v = "of_nat (kvs_len es + kvs_len (take (Suc i) (drop s os))) :: u16"
  let ?b = "put (4 + 8 * n + 2 * (?d + i)) (le16 ?v) b"
  have len: "4 + 8 * n + 2 * (?d + i) + 2 \<le> length b"
    using Suc.prems pnode_bounds [OF Suc.prems(1)] by simp
  have P: "pnode ?b t n es"
    using Suc.prems len by (intro pnode_put) (simp_all add: free_region_def)
  obtain b' where b': "appendOffsets ?b old (of_nat ?d) (of_nat s) sh (of_nat (Suc (Suc i))) k = Some b'"
    "pnode b' t n es" "length b' = length ?b"
    "\<forall>j. Suc i \<le> j \<and> j < Suc i + k \<longrightarrow> slice (4 + 8 * n + 2 * (?d + j)) 2 b'
        = le16 (of_nat (kvs_len es + kvs_len (take (Suc j) (drop s os))))"
    "\<forall>q l. q + l \<le> 4 + 8 * n + 2 * (?d + Suc i) \<longrightarrow> slice q l b' = slice q l ?b"
    using Suc.IH [OF P Suc.prems(2), of "Suc i"] Suc.prems by auto
  have get: "getOffset old (of_nat s + of_nat (Suc i)) = Some (of_nat (kvs_len (take (s + Suc i) os)))"
    using pnode_getOffset [OF Suc.prems(2), of "s + Suc i"] Suc.prems by (simp add: ac_simps)
  have v: "of_nat (kvs_len (take (s + Suc i) os)) + sh = ?v"
    using sh [of "s + Suc i"] Suc.prems by simp
  have set: "setOffset b (of_nat ?d + of_nat (Suc i)) ?v = Some ?b"
    using pnode_setOffset [OF Suc.prems(1), of "?d + i"] Suc.prems by (simp add: algebra_simps)
  have "appendOffsets b old (of_nat ?d) (of_nat s) sh (of_nat (Suc i)) (Suc k) = Some b'"
    using b'(1) by (simp only: appendOffsets.simps get v set Option.bind.simps of_nat_Suc [of "Suc i"] add.commute [of "of_nat (Suc i)" "1 :: u16"])
  moreover have "slice (4 + 8 * n + 2 * (?d + j)) 2 b'
      = le16 (of_nat (kvs_len es + kvs_len (take (Suc j) (drop s os))))"
    if "i \<le> j" "j < i + Suc k" for j
  proof (cases "j = i")
    case True
    have "slice (4 + 8 * n + 2 * (?d + i)) 2 b' = slice (4 + 8 * n + 2 * (?d + i)) 2 ?b"
      using b'(5) by simp
    with True len show ?thesis by (simp add: slice_simps)
  next
    case False
    with that b'(4) show ?thesis by simp
  qed
  moreover have "slice q l b' = slice q l b" if "q + l \<le> 4 + 8 * n + 2 * (?d + i)" for q l
    using that b'(5) len by (simp add: slice_simps)
  ultimately show ?case using b'(2,3) len by auto
qed


lemma kvs_len_take_shift:
  assumes "s \<le> j"
  shows "of_nat (kvs_len (take j os)) + (of_nat x - of_nat (kvs_len (take s os)) :: u16)
    = of_nat (x + kvs_len (take (j - s) (drop s os)))"
proof -
  have "take j os = take s os @ take (j - s) (drop s os)"
    using assms by (metis le_add_diff_inverse take_add)
  then have "kvs_len (take j os) = kvs_len (take s os) + kvs_len (take (j - s) (drop s os))"
    by (metis kvs_len_simps(3))
  then show ?thesis by simp
qed

lemma kvs_len_take_add: "kvs_len (take (s + m) os) = kvs_len (take s os) + kvs_len (take m (drop s os))"
  by (metis kvs_len_simps(3) take_add)

text \<open>The two loops: after them the pointers and the offsets of the range are in place.\<close>

lemma range_loops_pnode:
  assumes new: "pnode b t n es" and old: "node old t' os"
    and m: "s + m \<le> length os" "length es + m \<le> n"
  defines "sh \<equiv> of_nat (kvs_len es) - of_nat (kvs_len (take s os)) :: u16"
  shows "\<exists>b1 b2.
    appendPtrs b old (of_nat (length es)) (of_nat s) 0 m = Some b1 \<and> pnode b1 t n es \<and>
    appendOffsets b1 old (of_nat (length es)) (of_nat s) sh 1 m = Some b2 \<and> pnode b2 t n es \<and>
    length b2 = length b \<and>
    (\<forall>j < m. slice (4 + 8 * (length es + j)) 8 b2 = le64 (eptr (os ! (s + j)))) \<and>
    (\<forall>j < m. slice (4 + 8 * n + 2 * (length es + j)) 2 b2
       = le16 (of_nat (kvs_len es + kvs_len (take (Suc j) (drop s os)))))"
proof -
  let ?d = "length es"
  note old' = old [unfolded node_def]
  obtain b1 where b1: "appendPtrs b old (of_nat ?d) (of_nat s) 0 m = Some b1" "pnode b1 t n es"
    "length b1 = length b"
    "\<forall>j < m. slice (4 + 8 * (?d + j)) 8 b1 = le64 (eptr (os ! (s + j)))"
    using appendPtrs_pnode [OF new old', of 0 m s] m by auto
  obtain b2 where b2: "appendOffsets b1 old (of_nat ?d) (of_nat s) sh 1 m = Some b2" "pnode b2 t n es"
    "length b2 = length b1"
    "\<forall>j < m. slice (4 + 8 * n + 2 * (?d + j)) 2 b2
       = le16 (of_nat (kvs_len es + kvs_len (take (Suc j) (drop s os))))"
    "\<forall>q l. q + l \<le> 4 + 8 * n + 2 * ?d \<longrightarrow> slice q l b2 = slice q l b1"
    using appendOffsets_pnode [OF b1(2) old', of 0 m s sh] m kvs_len_take_shift
    unfolding sh_def by auto
  have "\<forall>j < m. slice (4 + 8 * (?d + j)) 8 b2 = le64 (eptr (os ! (s + j)))"
    using b1(4) b2(5) m by simp
  moreover have "length b2 = length b" using b1(3) b2(3) by simp
  ultimately show ?thesis using b1(1,2) b2(1,2,4) by blast
qed

lemma u16_small:
  assumes "m < 65535"
  shows "unat (of_nat m :: u16) = m" "(of_nat m :: u16) = 0 \<longleftrightarrow> m = 0" "(of_nat m :: u16) \<noteq> 65535"
proof -
  show u: "unat (of_nat m :: u16) = m" using assms by (simp add: u16_of_nat)
  show "(of_nat m :: u16) = 0 \<longleftrightarrow> m = 0" using u by auto
  show "(of_nat m :: u16) \<noteq> 65535" using u assms by auto
qed

lemma nodeAppendRange_copy:
  assumes new: "pnode b t n es" and old: "node old t' os"
    and m: "s + m \<le> length os" "length es + m \<le> n" "0 < m"
  shows "\<exists>b2. pnode b2 t n es \<and> length b2 = length b \<and>
    (\<forall>j < m. slice (4 + 8 * (length es + j)) 8 b2 = le64 (eptr (os ! (s + j)))) \<and>
    (\<forall>j < m. slice (4 + 8 * n + 2 * (length es + j)) 2 b2
       = le16 (of_nat (kvs_len es + kvs_len (take (Suc j) (drop s os))))) \<and>
    nodeAppendRange b old (of_nat (length es)) (of_nat s) (of_nat m)
       = go_copy b2 (4 + 10 * n + kvs_len es) (kvs_bytes (take m (drop s os)))"
proof -
  let ?d = "length es" and ?os = "4 + 10 * length os"
  note old' = old [unfolded node_def]
  note bnd = pnode_bounds [OF new] and obnd = pnode_bounds [OF old']
  obtain b1 b2 where b: "appendPtrs b old (of_nat ?d) (of_nat s) 0 m = Some b1" "pnode b1 t n es"
    "appendOffsets b1 old (of_nat ?d) (of_nat s)
       (of_nat (kvs_len es) - of_nat (kvs_len (take s os))) 1 m = Some b2"
    "pnode b2 t n es" "length b2 = length b"
    "\<forall>j < m. slice (4 + 8 * (?d + j)) 8 b2 = le64 (eptr (os ! (s + j)))"
    "\<forall>j < m. slice (4 + 8 * n + 2 * (?d + j)) 2 b2
       = le16 (of_nat (kvs_len es + kvs_len (take (Suc j) (drop s os))))"
    using range_loops_pnode [OF new old m(1,2)] by blast
  have small: "m < 65535" using m bnd by linarith
  note sm = u16_small [OF small]
  have guards: "\<not> (of_nat n :: u16) < of_nat ?d + of_nat m"
    "\<not> (of_nat (length os) :: u16) < of_nat s + of_nat m"
    using m bnd obnd u16_of_nat_less [of n "?d + m"] u16_of_nat_less [of "length os" "s + m"]
    by simp_all
  have off: "getOffset b1 (of_nat ?d) = Some (of_nat (kvs_len es))"
    "getOffset b2 (of_nat ?d) = Some (of_nat (kvs_len es))"
    "getOffset old (of_nat s) = Some (of_nat (kvs_len (take s os)))"
    "getOffset old (of_nat s + of_nat m) = Some (of_nat (kvs_len (take (s + m) os)))"
    using pnode_getOffset [OF b(2), of ?d] pnode_getOffset [OF b(4), of ?d]
      pnode_getOffset [OF old', of s] pnode_getOffset [OF old', of "s + m"] m by simp_all
  have pos: "unat (of_nat (kvs_len (take s os)) + of_nat ?os :: u16) = ?os + kvs_len (take s os)"
    "unat (of_nat (kvs_len (take (s + m) os)) + of_nat ?os :: u16) = ?os + kvs_len (take (s + m) os)"
    "unat (of_nat (kvs_len es) + of_nat (4 + 10 * n) :: u16) = 4 + 10 * n + kvs_len es"
    using obnd bnd kvs_len_take_le [of s os] kvs_len_take_le [of "s + m" os]
      u16_of_nat [of "?os + kvs_len (take s os)"] u16_of_nat [of "?os + kvs_len (take (s + m) os)"]
      u16_of_nat [of "4 + 10 * n + kvs_len es"]
    by (simp_all add: add.commute)
  have src: "go_range old (?os + kvs_len (take s os)) (?os + kvs_len (take (s + m) os))
      = Some (kvs_bytes (take m (drop s os)))"
    using slice_kvs_range [of ?os os old s m] old' obnd kvs_len_take_le [of "s + m" os]
    by (simp add: go_range_def kvs_len_take_add pnode_def)
  have "nodeAppendRange b old (of_nat ?d) (of_nat s) (of_nat m)
       = go_copy b2 (4 + 10 * n + kvs_len es) (kvs_bytes (take m (drop s os)))"
    unfolding nodeAppendRange_def
    using m(3) by (simp add: pnode_nkeys [OF new] pnode_nkeys [OF old'] guards sm b(1,3) off
        pnode_kvStart [OF old'] pnode_kvStart [OF b(4)] pos src
        del: of_nat_add of_nat_mult of_nat_numeral)
  with b(4-7) show ?thesis by blast
qed

lemma nodeAppendRange_pnode:
  assumes new: "pnode b t n es" and old: "node old t' os"
    and m: "s + m \<le> length os" "length es + m \<le> n"
    and room: "4 + 10 * n + kvs_len es + kvs_len (take m (drop s os)) \<le> length b"
  shows "\<exists>b'. nodeAppendRange b old (of_nat (length es)) (of_nat s) (of_nat m) = Some b' \<and>
           pnode b' t n (es @ take m (drop s os)) \<and> length b' = length b"
proof (cases "m = 0")
  case True
  then have "\<not> (of_nat n :: u16) < of_nat (length es)" "\<not> (of_nat (length os) :: u16) < of_nat s"
    using m pnode_bounds [OF new] pnode_bounds [OF old [unfolded node_def]]
    by (simp_all add: u16_of_nat_less)
  with True new show ?thesis
    by (simp add: nodeAppendRange_def pnode_nkeys [OF new] pnode_nkeys [OF old [unfolded node_def]])
next
  case False
  let ?d = "length es" and ?ms = "take m (drop s os)"
  obtain b2 where b2: "pnode b2 t n es" "length b2 = length b"
    "\<forall>j < m. slice (4 + 8 * (?d + j)) 8 b2 = le64 (eptr (os ! (s + j)))"
    "\<forall>j < m. slice (4 + 8 * n + 2 * (?d + j)) 2 b2
       = le16 (of_nat (kvs_len es + kvs_len (take (Suc j) (drop s os))))"
    and eq: "nodeAppendRange b old (of_nat ?d) (of_nat s) (of_nat m)
       = go_copy b2 (4 + 10 * n + kvs_len es) (kvs_bytes ?ms)"
    using nodeAppendRange_copy [OF new old m] False by blast
  define b3 where "b3 = put (4 + 10 * n + kvs_len es) (kvs_bytes ?ms) b2"
  have "nodeAppendRange b old (of_nat ?d) (of_nat s) (of_nat m) = Some b3"
    using room b2(2) by (simp add: eq go_copy_def b3_def)
  moreover have P3: "pnode b3 t n es" and l3: "length b3 = length b"
    unfolding b3_def using b2(1,2) room by (auto intro!: pnode_put simp: free_region_def)
  moreover have "pnode b3 t n (es @ ?ms)"
  proof (rule pnode_append [OF P3])
    have keep: "slice q l b3 = slice q l b2" if "q + l \<le> 4 + 10 * n" for q l
      unfolding b3_def using that room b2(2) by (intro slice_put_before) simp_all
    show "slice (4 + 8 * (?d + i)) 8 b3 = le64 (eptr (?ms ! i))" if "i < length ?ms" for i
      using that b2(3) m by (simp add: keep)
    show "slice (4 + 8 * n + 2 * (?d + i)) 2 b3 = le16 (of_nat (kvs_len es + kvs_len (take (Suc i) ?ms)))"
      if "i < length ?ms" for i
      using that b2(4) m by (simp add: keep min_absorb1)
    show "slice (4 + 10 * n + kvs_len es) (kvs_len ?ms) b3 = kvs_bytes ?ms"
      unfolding b3_def using room b2(2) by (intro slice_put_same) simp_all
  qed (use m room l3 in simp_all)
  ultimately show ?thesis by blast
qed

end
