(* ===== verification/Node_Ops.thy ===== *)
theory Node_Ops
  imports Node_Repr
begin

text \<open>
  What the node operations of \<^verbatim>\<open>storage/btree.go\<close> do to the entries of a node: lookup, the leaf
  updates, merging and splitting, each derived from the byte-level facts of \<^verbatim>\<open>Node_Repr\<close>.
\<close>

section \<open>Binary search\<close>

definition keys_of :: "entry list \<Rightarrow> bytes list" where
  "keys_of es = map ekey es"

text \<open>The last key at or below the wanted one, skipping the first key, which is never compared.\<close>

definition lookup_le :: "bytes list \<Rightarrow> bytes \<Rightarrow> nat" where
  "lookup_le ks key = length (takeWhile (\<lambda>k. k \<le> key) (tl ks))"

lemma lookup_le_unique:
  assumes "i = 0 \<or> i < length ks" "\<And>j. 1 \<le> j \<Longrightarrow> j \<le> i \<Longrightarrow> ks ! j \<le> key"
    and "\<And>j. i < j \<Longrightarrow> j < length ks \<Longrightarrow> \<not> ks ! j \<le> key"
  shows "lookup_le ks key = i"
proof -
  have le: "i \<le> length (tl ks)" using assms(1) by auto
  have "takeWhile (\<lambda>k. k \<le> key) (tl ks) = take i (tl ks)"
  proof (rule takeWhile_eq_take_P_nth)
    show "tl ks ! j \<le> key" if "j < i" "j < length (tl ks)" for j
      using that assms(2) [of "Suc j"] by (simp add: nth_tl)
    show "\<not> tl ks ! i \<le> key" if "i < length (tl ks)"
      using that assms(3) [of "Suc i"] by (simp add: nth_tl)
  qed
  then show ?thesis using le by (simp add: lookup_le_def)
qed

lemma bytes_Compare_simps [simp]:
  "bytes_Compare a b = 0 \<longleftrightarrow> a = b" "bytes_Compare a b < 0 \<longleftrightarrow> a < b"
  by (auto simp: bytes_Compare_def)

lemma u16_mid_of_nat:
  assumes "l < h" "h < 65536"
  shows "(of_nat l + (of_nat h - of_nat l) div 2 :: u16) = of_nat (l + (h - l) div 2)"
proof -
  have "(of_nat l :: u16) < of_nat h" using assms by (simp add: u16_of_nat_less)
  then have "unat (of_nat l + (of_nat h - of_nat l) div 2 :: u16) = l + (h - l) div 2"
    using assms by (simp add: u16_mid u16_of_nat)
  then have "(of_nat (unat (of_nat l + (of_nat h - of_nat l) div 2 :: u16)) :: u16) = of_nat (l + (h - l) div 2)"
    by simp
  then show ?thesis by simp
qed

lemma nodeLookupLE_loop_node:
  assumes b: "node b t es" and sorted: "sorted_wrt (<) (keys_of es)"
    and "1 \<le> l" "l \<le> h \<or> l = 1" "h \<le> length es"
    and "\<And>j. 1 \<le> j \<Longrightarrow> j < l \<Longrightarrow> keys_of es ! j \<le> key"
    and "\<And>j. h \<le> j \<Longrightarrow> j < length es \<Longrightarrow> \<not> keys_of es ! j \<le> key"
  shows "nodeLookupLE_loop b key (of_nat l) (of_nat h) (of_nat (l - 1))
    = Some (of_nat (lookup_le (keys_of es) key))"
  using assms(3-)
proof (induction "h - l" arbitrary: l h rule: less_induct)
  case less
  note b' = b [unfolded node_def]
  have small: "length es < 65535" using pnode_bounds [OF b'] by simp
  then have l: "l < 65536" using less.prems by auto
  show ?case
  proof (cases "l < h")
    case False
    then have "\<not> (of_nat l :: u16) < of_nat h" using l less.prems small by (simp add: u16_of_nat_less)
    moreover have "lookup_le (keys_of es) key = l - 1"
      using less.prems False by (intro lookup_le_unique) (auto simp: keys_of_def)
    ultimately show ?thesis by (simp add: nodeLookupLE_loop.simps)
  next
    case True
    define m where "m = l + (h - l) div 2"
    have m: "l \<le> m" "m < h" "m < length es" using True less.prems(3) by (auto simp: m_def)
    have lt: "(of_nat l :: u16) < of_nat h" using l True less.prems small by (simp add: u16_of_nat_less)
    have mid: "(of_nat l + (of_nat h - of_nat l) div 2 :: u16) = of_nat m"
      unfolding m_def using u16_mid_of_nat True less.prems(3) small by simp
    have key: "getKey b (of_nat m) = Some (keys_of es ! m)"
      using pnode_getKey [OF b' m(3)] m(3) by (simp add: keys_of_def)
    have mono: "i < j \<Longrightarrow> j < length es \<Longrightarrow> keys_of es ! i < keys_of es ! j" for i j
      using sorted by (simp add: sorted_wrt_iff_nth_less keys_of_def)
    have low: "keys_of es ! j \<le> key" if "keys_of es ! m \<le> key" "j \<le> m" for j
      using mono [of j m] that m(3) by (cases "j = m") auto
    have high: "\<not> keys_of es ! j \<le> key" if "key < keys_of es ! m" "m \<le> j" "j < length es" for j
      using mono [of m j] that by (cases "j = m") auto
    consider "keys_of es ! m = key" | "keys_of es ! m < key" | "key < keys_of es ! m" by force
    then show ?thesis
    proof cases
      case 1
      have "lookup_le (keys_of es) key = m"
        using 1 low mono m by (intro lookup_le_unique) (force simp: keys_of_def not_le)+
      with 1 show ?thesis
        by (subst nodeLookupLE_loop.simps) (simp add: lt mid key Let_def)
    next
      case 2
      have "nodeLookupLE_loop b key (of_nat (Suc m)) (of_nat h) (of_nat (Suc m - 1))
          = Some (of_nat (lookup_le (keys_of es) key))"
        using less.prems 2 low m by (intro less.hyps) auto
      with 2 show ?thesis
        by (subst nodeLookupLE_loop.simps) (auto simp: lt mid key Let_def add.commute [of "of_nat m" "1 :: u16"])
    next
      case 3
      have "nodeLookupLE_loop b key (of_nat l) (of_nat m) (of_nat (l - 1))
          = Some (of_nat (lookup_le (keys_of es) key))"
        using less.prems 3 high m by (intro less.hyps) auto
      with 3 show ?thesis
        by (subst nodeLookupLE_loop.simps) (auto simp: lt mid key Let_def)
    qed
  qed
qed

lemma nodeLookupLE_node:
  assumes "node b t es" "sorted_wrt (<) (keys_of es)"
  shows "nodeLookupLE b key = Some (of_nat (lookup_le (keys_of es) key))"
  using nodeLookupLE_loop_node [OF assms, of 1 "length es" key] pnode_nkeys [of b t "length es" es] assms(1)
  by (auto simp: nodeLookupLE_def node_def)


section \<open>Building a node from ranges of old ones\<close>

lemma node_length: "node b t es \<Longrightarrow> node_size es \<le> length b" "node b t es \<Longrightarrow> length b < 65536"
  by (auto simp: node_def node_size_def dest: pnode_bounds)

lemma node_size_simps:
  "node_size (es @ fs) = node_size es + 10 * length fs + kvs_len fs"
  "node_size (e # fs) = 14 + kv_len e + 10 * length fs + kvs_len fs"
  by (simp_all add: node_size_def)

text \<open>Header, a range of an old node, one new entry, and a later range of the old node.\<close>

lemma build_splice:
  assumes old: "node old t' os" and "i \<le> length os" "s + m \<le> length os"
    and room: "node_size (take i os @ (p, k, v) # take m (drop s os)) \<le> length b" "length b < 65536"
  shows "\<exists>b'. do {
       b \<leftarrow> setHeader b t (of_nat (i + 1 + m));
       b \<leftarrow> nodeAppendRange b old 0 0 (of_nat i);
       b \<leftarrow> nodeAppendKV b (of_nat i) p k v;
       nodeAppendRange b old (of_nat i + 1) (of_nat s) (of_nat m) } = Some b' \<and>
     node b' t (take i os @ (p, k, v) # take m (drop s os)) \<and> length b' = length b"
proof -
  let ?n = "i + 1 + m"
  have len: "length (take i os) = i" "length (take m (drop s os)) = m" using assms(2,3) by simp_all
  have sz: "4 + 10 * ?n + kvs_len (take i os) + kv_len (p, k, v) + kvs_len (take m (drop s os)) \<le> length b"
    using room(1) len by (simp add: node_size_def algebra_simps)
  obtain b1 where b1: "setHeader b t (of_nat ?n) = Some b1" "pnode b1 t ?n []" "length b1 = length b"
    using setHeader_pnode [of ?n b t] sz room(2) by auto
  obtain b2 where b2: "nodeAppendRange b1 old 0 0 (of_nat i) = Some b2"
    "pnode b2 t ?n (take i os)" "length b2 = length b"
    using nodeAppendRange_pnode [OF b1(2) old, of 0 i] assms(2) sz b1(3) by auto
  obtain b3 where b3: "nodeAppendKV b2 (of_nat i) p k v = Some b3"
    "pnode b3 t ?n (take i os @ [(p, k, v)])" "length b3 = length b"
    using nodeAppendKV_pnode [OF b2(2), of p k v] sz b2(3) len by auto
  obtain b4 where b4: "nodeAppendRange b3 old (of_nat (i + 1)) (of_nat s) (of_nat m) = Some b4"
    "pnode b4 t ?n (take i os @ (p, k, v) # take m (drop s os))" "length b4 = length b"
    using nodeAppendRange_pnode [OF b3(2) old assms(3)] sz b3(3) len by auto
  then show ?thesis using b1(1) b2(1) b3(1) len by (auto simp: node_def add.commute)
qed

lemma leafInsert_node:
  assumes old: "node old t os" and i: "i \<le> length os"
    and room: "node_size (take i os @ (0, k, v) # drop i os) \<le> length b" "length b < 65536"
  shows "\<exists>b'. leafInsert b old (of_nat i) k v = Some b' \<and>
     node b' BNODE_LEAF (take i os @ (0, k, v) # drop i os) \<and> length b' = length b"
proof -
  have e: "(of_nat (i + 1 + (length os - i)) :: u16) = of_nat (length os) + 1"
    "(of_nat (length os - i) :: u16) = of_nat (length os) - of_nat i" using i by (simp_all add: of_nat_diff)
  have all: "take (length os - i) (drop i os) = drop i os" by simp
  show ?thesis
    using build_splice [OF old i, of i "length os - i" 0 k v b BNODE_LEAF] i room
    unfolding all e leafInsert_def pnode_nkeys [OF old [unfolded node_def]] by simp
qed

lemma leafUpdate_node:
  assumes old: "node old t os" and i: "i < length os"
    and room: "node_size (take i os @ (0, k, v) # drop (Suc i) os) \<le> length b" "length b < 65536"
  shows "\<exists>b'. leafUpdate b old (of_nat i) k v = Some b' \<and>
     node b' t (take i os @ (0, k, v) # drop (Suc i) os) \<and> length b' = length b"
proof -
  have e: "(of_nat (i + 1 + (length os - Suc i)) :: u16) = of_nat (length os)"
    "(of_nat (length os - Suc i) :: u16) = of_nat (length os) - (of_nat i + 1)"
    "(of_nat (Suc i) :: u16) = of_nat i + 1" using i by (simp_all add: of_nat_diff)
  have all: "take (length os - Suc i) (drop (Suc i) os) = drop (Suc i) os" by simp
  show ?thesis
    using build_splice [OF old, of i "Suc i" "length os - Suc i" 0 k v b t] i room
    unfolding all e leafUpdate_def pnode_nkeys [OF old [unfolded node_def]]
      pnode_btype [OF old [unfolded node_def]] by simp
qed

lemma nodeReplace2Kid_node:
  assumes old: "node old t os" and i: "Suc i < length os"
    and room: "node_size (take i os @ (p, k, []) # drop (Suc (Suc i)) os) \<le> length b" "length b < 65536"
  shows "\<exists>b'. nodeReplace2Kid b old (of_nat i) p k = Some b' \<and>
     node b' t (take i os @ (p, k, []) # drop (Suc (Suc i)) os) \<and> length b' = length b"
proof -
  have e: "(of_nat (i + 1 + (length os - Suc (Suc i))) :: u16) = of_nat (length os) - 1"
    "(of_nat (length os - Suc (Suc i)) :: u16) = of_nat (length os) - (of_nat i + 2)"
    "(of_nat (Suc (Suc i)) :: u16) = of_nat i + 2" using i by (simp_all add: of_nat_diff)
  have all: "take (length os - Suc (Suc i)) (drop (Suc (Suc i)) os) = drop (Suc (Suc i)) os" by simp
  show ?thesis
    using build_splice [OF old, of i "Suc (Suc i)" "length os - Suc (Suc i)" p k "[]" b t] i room
    unfolding all e nodeReplace2Kid_def pnode_nkeys [OF old [unfolded node_def]]
      pnode_btype [OF old [unfolded node_def]] by simp
qed


text \<open>Header and one range; header and two ranges; header, one entry and a whole node.\<close>

lemma build_one:
  assumes old: "node old t' os" and "s + m \<le> length os"
    and room: "node_size (take m (drop s os)) \<le> length b" "length b < 65536"
  shows "\<exists>b'. do { b \<leftarrow> setHeader b t (of_nat m); nodeAppendRange b old 0 (of_nat s) (of_nat m) } = Some b' \<and>
     node b' t (take m (drop s os)) \<and> length b' = length b"
proof -
  have len: "length (take m (drop s os)) = m" using assms(2) by simp
  then have sz: "4 + 10 * m + kvs_len (take m (drop s os)) \<le> length b"
    using room(1) by (simp add: node_size_def)
  obtain b1 where b1: "setHeader b t (of_nat m) = Some b1" "pnode b1 t m []" "length b1 = length b"
    using setHeader_pnode [of m b t] sz room(2) by auto
  obtain b2 where "nodeAppendRange b1 old 0 (of_nat s) (of_nat m) = Some b2"
    "pnode b2 t m (take m (drop s os))" "length b2 = length b"
    using nodeAppendRange_pnode [OF b1(2) old assms(2)] sz b1(3) by auto
  then show ?thesis using b1(1) len by (simp add: node_def)
qed

lemma build_two:
  assumes old: "node old1 t1 os1" "node old2 t2 os2" and le: "m1 \<le> length os1" "s + m2 \<le> length os2"
    and room: "node_size (take m1 os1 @ take m2 (drop s os2)) \<le> length b" "length b < 65536"
  shows "\<exists>b'. do {
       b \<leftarrow> setHeader b t (of_nat (m1 + m2));
       b \<leftarrow> nodeAppendRange b old1 0 0 (of_nat m1);
       nodeAppendRange b old2 (of_nat m1) (of_nat s) (of_nat m2) } = Some b' \<and>
     node b' t (take m1 os1 @ take m2 (drop s os2)) \<and> length b' = length b"
proof -
  let ?n = "m1 + m2"
  have len: "length (take m1 os1) = m1" "length (take m2 (drop s os2)) = m2" using le by simp_all
  have sz: "4 + 10 * ?n + kvs_len (take m1 os1) + kvs_len (take m2 (drop s os2)) \<le> length b"
    using room(1) len by (simp add: node_size_def algebra_simps)
  obtain b1 where b1: "setHeader b t (of_nat ?n) = Some b1" "pnode b1 t ?n []" "length b1 = length b"
    using setHeader_pnode [of ?n b t] sz room(2) by auto
  obtain b2 where b2: "nodeAppendRange b1 old1 0 0 (of_nat m1) = Some b2"
    "pnode b2 t ?n (take m1 os1)" "length b2 = length b"
    using nodeAppendRange_pnode [OF b1(2) old(1), of 0 m1] le sz b1(3) by auto
  obtain b3 where "nodeAppendRange b2 old2 (of_nat m1) (of_nat s) (of_nat m2) = Some b3"
    "pnode b3 t ?n (take m1 os1 @ take m2 (drop s os2))" "length b3 = length b"
    using nodeAppendRange_pnode [OF b2(2) old(2) le(2)] sz b2(3) len by auto
  then show ?thesis using b1(1) b2(1) len by (simp add: node_def)
qed

lemma prepend_node:
  assumes old: "node old t' os"
    and room: "node_size ((p, k, v) # os) \<le> length b" "length b < 65536"
  shows "\<exists>b'. do {
       b \<leftarrow> setHeader b t (of_nat (length os) + 1);
       b \<leftarrow> nodeAppendKV b 0 p k v;
       nodeAppendRange b old 1 0 (of_nat (length os)) } = Some b' \<and>
     node b' t ((p, k, v) # os) \<and> length b' = length b"
proof -
  let ?n = "length os + 1"
  have sz: "4 + 10 * ?n + kv_len (p, k, v) + kvs_len os \<le> length b"
    using room(1) by (simp add: node_size_def)
  obtain b1 where b1: "setHeader b t (of_nat ?n) = Some b1" "pnode b1 t ?n []" "length b1 = length b"
    using setHeader_pnode [of ?n b t] sz room(2) by auto
  obtain b2 where b2: "nodeAppendKV b1 0 p k v = Some b2"
    "pnode b2 t ?n [(p, k, v)]" "length b2 = length b"
    using nodeAppendKV_pnode [OF b1(2), of p k v] sz b1(3) by auto
  obtain b3 where "nodeAppendRange b2 old 1 0 (of_nat (length os)) = Some b3"
    "pnode b3 t ?n ((p, k, v) # os)" "length b3 = length b"
    using nodeAppendRange_pnode [OF b2(2) old, of 0 "length os"] sz b2(3) by auto
  then show ?thesis using b1(1) b2(1) by (simp add: node_def add.commute [of 1])
qed

lemma leafDelete_node:
  assumes old: "node old t os" and i: "i < length os"
    and room: "node_size (take i os @ drop (Suc i) os) \<le> length b" "length b < 65536"
  shows "\<exists>b'. leafDelete b old (of_nat i) = Some b' \<and>
     node b' BNODE_LEAF (take i os @ drop (Suc i) os) \<and> length b' = length b"
proof -
  have e: "(of_nat (i + (length os - Suc i)) :: u16) = of_nat (length os) - 1"
    "(of_nat (length os - Suc i) :: u16) = of_nat (length os) - of_nat i - 1"
    "(of_nat (Suc i) :: u16) = of_nat i + 1" using i by (simp_all add: of_nat_diff)
  have all: "take (length os - Suc i) (drop (Suc i) os) = drop (Suc i) os" by simp
  show ?thesis
    using build_two [OF old old, of i "Suc i" "length os - Suc i" b BNODE_LEAF] i room
    unfolding all e leafDelete_def pnode_nkeys [OF old [unfolded node_def]] by simp
qed

lemma nodeMerge_node:
  assumes l: "node left t ls" and r: "node right t' rs"
    and room: "node_size (ls @ rs) \<le> length b" "length b < 65536"
  shows "\<exists>b'. nodeMerge b left right = Some b' \<and> node b' t (ls @ rs) \<and> length b' = length b"
  using build_two [OF l r, of "length ls" 0 "length rs" b t] room
  by (simp add: nodeMerge_def pnode_nkeys [OF l [unfolded node_def]] pnode_btype [OF l [unfolded node_def]]
      pnode_nkeys [OF r [unfolded node_def]])

lemma node_take:
  assumes "node b t es" "node_size es \<le> n" "n \<le> length b"
  shows "node (take n b) t es"
proof -
  have s: "slice p l (take n b) = slice p l b" if "p + l \<le> node_size es" for p l
    using that assms(2) by (intro slice_take) simp
  have "slice (4 + 8 * i) 8 (take n b) = slice (4 + 8 * i) 8 b" if "i < length es" for i
    using that by (intro s) (simp add: node_size_def)
  moreover have "slice (4 + 8 * length es + 2 * i) 2 (take n b) = slice (4 + 8 * length es + 2 * i) 2 b"
    if "i < length es" for i
    using that by (intro s) (simp add: node_size_def)
  moreover have "slice (4 + 10 * length es) (kvs_len es) (take n b) = slice (4 + 10 * length es) (kvs_len es) b"
    "slice 0 2 (take n b) = slice 0 2 b" "slice 2 2 (take n b) = slice 2 2 b"
    by (intro s; simp add: node_size_def)+
  ultimately show ?thesis using assms by (simp add: node_def pnode_def node_size_def)
qed


section \<open>Splitting\<close>

lemma node_size_take_Suc:
  "i < length os \<Longrightarrow> node_size (take (Suc i) os) = node_size (take i os) + 10 + kv_len (os ! i)"
  by (simp add: node_size_def kvs_len_take_Suc)

lemma node_size_take_le: "node_size (take i os) \<le> node_size os"
  using kvs_len_take_le [of i os] by (simp add: node_size_def)

lemma node_size_take_drop: "node_size (take i os) + node_size (drop i os) = node_size os + 4"
  using kvs_len_take_drop [of i os] length_take [of i os] length_drop [of i os]
  by (simp add: node_size_def min_def algebra_simps)

lemma pnode_entry_width:
  assumes "node old t os" "i < length os"
  shows "\<exists>a b. kvPos old (of_nat (Suc i)) = Some a \<and> kvPos old (of_nat i) = Some b \<and>
     a - b = of_nat (kv_len (os ! i))"
  using pnode_kvPos [OF assms(1) [unfolded node_def], of "Suc i"]
    pnode_kvPos [OF assms(1) [unfolded node_def], of i] assms(2)
  by (simp add: kvs_len_take_Suc del: of_nat_Suc)

lemma split_half_node:
  assumes old: "node old t os" and "i \<le> length os"
  shows "\<exists>j. split_half old half (of_nat (length os)) (of_nat (node_size (take i os))) (of_nat i) = Some (of_nat j) \<and>
     i \<le> j \<and> j \<le> length os \<and> (\<forall>l. i \<le> l \<and> l < j \<longrightarrow> node_size (take l os) < unat half) \<and>
     (j < length os \<longrightarrow> unat half \<le> node_size (take j os))"
  using assms(2)
proof (induction "length os - i" arbitrary: i)
  case 0
  then have "i = length os" by simp
  then show ?case by (intro exI [of _ i]) (simp add: split_half.simps)
next
  case (Suc d)
  then have i: "i < length os" by simp
  have small: "length os < 65536" "node_size (take i os) < 65536"
    using node_length [OF old] node_size_take_le [of i os] by (auto simp: node_size_def)
  have lt: "(of_nat i :: u16) < of_nat (length os)" using i small by (simp add: u16_of_nat_less)
  have cond: "(of_nat (node_size (take i os)) :: u16) < half \<longleftrightarrow> node_size (take i os) < unat half"
    using small by (simp add: word_less_nat_alt u16_of_nat)
  show ?case
  proof (cases "node_size (take i os) < unat half")
    case False
    then show ?thesis using i cond by (intro exI [of _ i]) (simp add: split_half.simps)
  next
    case True
    have "d = length os - Suc i" using Suc.hyps(2) by simp
    from Suc.hyps(1) [OF this] Suc_leI [OF i] obtain j where
      j: "split_half old half (of_nat (length os)) (of_nat (node_size (take (Suc i) os))) (of_nat (Suc i)) = Some (of_nat j)"
      "Suc i \<le> j" "j \<le> length os" "\<forall>l. Suc i \<le> l \<and> l < j \<longrightarrow> node_size (take l os) < unat half"
      "j < length os \<longrightarrow> unat half \<le> node_size (take j os)" by blast
    from pnode_entry_width [OF old i] obtain a b where ab: "kvPos old (of_nat (Suc i)) = Some a"
      "kvPos old (of_nat i) = Some b" "a - b = of_nat (kv_len (os ! i))" by blast
    have sz: "of_nat (node_size (take i os)) + (a - b + POINTER + OFFSET) = (of_nat (node_size (take (Suc i) os)) :: u16)"
      using i ab(3) by (simp add: node_size_take_Suc)
    have "split_half old half (of_nat (length os)) (of_nat (node_size (take i os))) (of_nat i) = Some (of_nat j)"
      using j(1) ab(1,2) True cond lt sz
      by (subst split_half.simps) (simp add: add.commute [of "of_nat i" "1 :: u16"])
    moreover have "\<forall>l. i \<le> l \<and> l < j \<longrightarrow> node_size (take l os) < unat half"
      using j(4) True by (metis le_neq_implies_less not_less_eq_eq not_le)
    ultimately show ?thesis using j by (intro exI [of _ j]) auto
  qed
qed

text \<open>A node of at most two pages splits at the first entry that reaches half its size.\<close>

definition half_point :: "entry list \<Rightarrow> nat \<Rightarrow> bool" where
  "half_point os j \<longleftrightarrow> 0 < j \<and> j \<le> length os \<and>
     node_size (take (j - 1) os) < node_size os div 2 \<and> node_size os div 2 \<le> node_size (take j os)"

lemma split_half_point:
  assumes old: "node old t os" and sz: "4096 < node_size os" "node_size os \<le> 8192"
  obtains j where "half_point os j"
    "split_half old (of_nat (node_size os) div 2) (of_nat (length os)) HEADER 0 = Some (of_nat j)"
proof -
  let ?half = "of_nat (node_size os) div 2 :: u16"
  have half: "unat ?half = node_size os div 2" using sz by (simp add: unat_div u16_of_nat)
  have n0: "node_size [] = 4" by (simp add: node_size_def)
  from split_half_node [OF old, of 0 ?half] obtain j where
    j: "split_half old ?half (of_nat (length os)) HEADER 0 = Some (of_nat j)" "j \<le> length os"
    "\<forall>l < j. node_size (take l os) < node_size os div 2"
    "j < length os \<longrightarrow> node_size os div 2 \<le> node_size (take j os)"
    by (auto simp: half n0)
  have le: "node_size os div 2 \<le> node_size (take j os)"
    using j(2,4) by (cases "j < length os") auto
  with sz n0 have "0 < j" by (cases j) auto
  with j le have "half_point os j" by (simp add: half_point_def)
  with j(1) that show thesis by blast
qed

lemma nodeSplit2_guards:
  assumes "4096 < node_size os" "node_size os \<le> 8192"
  shows "\<not> (of_nat (node_size os) :: u16) \<le> PAGE_SIZE" "\<not> (of_nat (node_size os) :: u16) > 2 * PAGE_SIZE"
  using assms by (simp_all add: word_le_nat_alt word_less_nat_alt u16_of_nat)

lemma nodeSplit2_node:
  assumes old: "node old t os" and sz: "4096 < node_size os" "node_size os \<le> 8192"
    and j: "half_point os j"
      "split_half old (of_nat (node_size os) div 2) (of_nat (length os)) HEADER 0 = Some (of_nat j)"
    and room: "node_size (take j os) \<le> length left" "node_size (drop j os) \<le> length right"
      "length left < 65536" "length right < 65536"
  shows "\<exists>l r. nodeSplit2 left right old = Some (of_nat j, l, r) \<and> node l t (take j os) \<and>
       node r t (drop j os) \<and> length l = length left \<and> length r = length right"
proof -
  have le: "j \<le> length os" using j(1) by (simp add: half_point_def)
  obtain l1 l where l: "setHeader left t (of_nat j) = Some l1" "nodeAppendRange l1 old 0 0 (of_nat j) = Some l"
    "node l t (take j os)" "length l = length left"
    using build_one [OF old, of 0 j left t] le room by (auto simp: bind_eq_Some_conv)
  obtain r1 r where r: "setHeader right t (of_nat (length os) - of_nat j) = Some r1"
    "nodeAppendRange r1 old 0 (of_nat j) (of_nat (length os) - of_nat j) = Some r"
    "node r t (drop j os)" "length r = length right"
    using build_one [OF old, of j "length os - j" right t] le room by (auto simp: bind_eq_Some_conv)
  show ?thesis
    using l r nodeSplit2_guards [OF sz] j(2)
    by (simp add: nodeSplit2_def pnode_nbytes [OF old] pnode_nkeys [OF old [unfolded node_def]]
        pnode_btype [OF old [unfolded node_def]])
qed

lemma nodeSplit3_whole:
  assumes old: "node old t os" and "node_size os \<le> 4096" "4096 \<le> length old"
  shows "nodeSplit3 old = Some [take 4096 old]" and "node (take 4096 old) t os"
proof -
  have "(of_nat (node_size os) :: u16) \<le> PAGE_SIZE"
    using assms(2) by (simp add: word_le_nat_alt u16_of_nat)
  then show "nodeSplit3 old = Some [take 4096 old]"
    using assms(3) by (simp add: nodeSplit3_def pnode_nbytes [OF old] go_upto_def)
  show "node (take 4096 old) t os" using assms by (rule node_take)
qed

lemma nodeSplit3_two:
  assumes old: "node old t os" and big: "4096 < node_size os"
    and M: "\<forall>e \<in> set os. 10 + kv_len e \<le> M" "node_size os div 2 + M \<le> 4097"
  shows "\<exists>ls rs l r. nodeSplit3 old = Some [l, r] \<and> os = ls @ rs \<and> ls \<noteq> [] \<and> rs \<noteq> [] \<and>
     node l t ls \<and> node r t rs \<and> length l = 4096 \<and> length r = 4096 \<and> 2048 \<le> node_size ls"
proof -
  have "os \<noteq> []" using big by (auto simp: node_size_def)
  then have "14 \<le> M" using M(1) by (cases os) (auto simp: kv_len_def)
  then have sz: "node_size os \<le> 8167" using M(2) by linarith
  let ?L = "replicate 8192 0 :: bytes" and ?R = "replicate 4096 0 :: bytes"
  obtain j where j: "half_point os j"
    "split_half old (of_nat (node_size os) div 2) (of_nat (length os)) HEADER 0 = Some (of_nat j)"
    using split_half_point [OF old big] sz by auto
  then obtain i where i: "j = Suc i" "i < length os" "node_size (take i os) < node_size os div 2"
    by (cases j) (auto simp: half_point_def)
  have "10 + kv_len (os ! i) \<le> M" using M(1) i by simp
  with i have left: "node_size (take j os) \<le> 4096"
    using M(2) by (auto simp: node_size_take_Suc)
  have right: "node_size (drop j os) \<le> 4096"
    using node_size_take_drop [of j os] j(1) sz unfolding half_point_def by linarith
  obtain l r where lr: "nodeSplit2 ?L ?R old = Some (of_nat j, l, r)" "node l t (take j os)"
    "node r t (drop j os)" "length l = 8192" "length r = 4096"
    using nodeSplit2_node [OF old big _ j, of ?L ?R] sz left right by auto
  have g: "\<not> (of_nat (node_size os) :: u16) \<le> PAGE_SIZE" "(of_nat (node_size (take j os)) :: u16) \<le> PAGE_SIZE"
    using big sz left by (simp_all add: word_le_nat_alt u16_of_nat)
  have "nodeSplit3 old = Some [take 4096 l, r]"
    using lr g by (simp add: nodeSplit3_def pnode_nbytes [OF old] pnode_nbytes [OF lr(2)] go_upto_def)
  moreover have "node (take 4096 l) t (take j os)" using lr left by (intro node_take) auto
  moreover have "drop j os \<noteq> []" using left big by (auto simp: not_le [symmetric])
  moreover have "take j os \<noteq> []" using i(1) \<open>os \<noteq> []\<close> by auto
  moreover have "length (take 4096 l) = 4096" "os = take j os @ drop j os" using lr(4) by simp_all
  moreover have "2048 \<le> node_size (take j os)" using j(1) big unfolding half_point_def by linarith
  ultimately show ?thesis using lr(3,5) by blast
qed

text \<open>A range that does not fit is cut by \<open>copy\<close>, but the offsets still say how long it was.\<close>

lemma nodeAppendRange_cut:
  assumes new: "pnode b t (length os) []" and old: "node old t' os" and "os \<noteq> []"
  shows "\<exists>b'. nodeAppendRange b old 0 0 (of_nat (length os)) = Some b' \<and>
    nbytes b' = Some (of_nat (node_size os))"
proof -
  let ?n = "length os"
  obtain b2 where b2: "pnode b2 t ?n []" "length b2 = length b"
    "\<forall>j < ?n. slice (4 + 8 * ?n + 2 * j) 2 b2 = le16 (of_nat (kvs_len (take (Suc j) os)))"
    "nodeAppendRange b old 0 0 (of_nat ?n) = go_copy b2 (4 + 10 * ?n) (kvs_bytes os)"
    using nodeAppendRange_copy [OF new old, of 0 ?n] assms(3) by auto
  have room: "4 + 10 * ?n \<le> length b2" using pnode_bounds [OF b2(1)] by simp
  define b3 where "b3 = put (4 + 10 * ?n) (take (length b2 - (4 + 10 * ?n)) (kvs_bytes os)) b2"
  have "nodeAppendRange b old 0 0 (of_nat ?n) = Some b3"
    using b2(4) room by (simp add: go_copy_def b3_def)
  moreover have P: "pnode b3 t ?n []"
    unfolding b3_def using room by (intro pnode_put [OF b2(1)]) (simp_all add: free_region_def)
  moreover obtain i where i: "?n = Suc i" using assms(3) by (cases os) auto
  moreover obtain p where "offsetPos b3 (of_nat (Suc i)) = Some p" "unat p = 4 + 8 * ?n + 2 * i"
    using pnode_offsetPos [OF P, of i] i by auto
  moreover have "slice (4 + 8 * ?n + 2 * i) 2 b3 = le16 (of_nat (kvs_len os))"
  proof -
    have "slice (4 + 8 * ?n + 2 * i) 2 b3 = slice (4 + 8 * ?n + 2 * i) 2 b2"
      unfolding b3_def using i room by (intro slice_put_before) simp_all
    also have "\<dots> = le16 (of_nat (kvs_len (take (Suc i) os)))" using b2(3) i by (metis lessI)
    finally show ?thesis using i by simp
  qed
  moreover have "4 + 8 * ?n + 2 * i + 2 \<le> length b3" "Suc i < 65536"
    using pnode_bounds [OF P] i by simp_all
  moreover have "HEADER + 8 * of_nat (Suc i) + 2 * of_nat (Suc i) + of_nat (kvs_len os)
      = (of_nat (node_size os) :: u16)"
    using i by (simp add: node_size_def algebra_simps)
  ultimately show ?thesis
    using of_nat_Suc_u16_nonzero [of i]
    by (simp add: nbytes_def pnode_nkeys [OF P] kvPos_def getOffset_def Uint16_at_slice
        del: of_nat_Suc)
qed


lemma half_point_last:
  assumes "half_point os j" "node_size (butlast os) < node_size os div 2"
  shows "j = length os"
proof (rule ccontr)
  assume "j \<noteq> length os"
  then have "take j os = take j (butlast os)" using assms(1) by (simp add: half_point_def take_butlast)
  then have "node_size (take j os) \<le> node_size (butlast os)"
    using node_size_take_le [of j "butlast os"] by simp
  with assms show False by (simp add: half_point_def)
qed

lemma nodeSplit2_cut:
  assumes old: "node old t os" and sz: "4096 < node_size os" "node_size os \<le> 8192"
    and last: "node_size (butlast os) < node_size os div 2"
    and left: "4 + 10 * length os \<le> length left" "length left < 65536"
    and res: "nodeSplit2 left right old = Some (i, l, r)"
  shows "nbytes l = Some (of_nat (node_size os))"
proof -
  have ne: "os \<noteq> []" using sz(1) by (auto simp: node_size_def)
  obtain j where j: "half_point os j"
    "split_half old (of_nat (node_size os) div 2) (of_nat (length os)) HEADER 0 = Some (of_nat j)"
    using split_half_point [OF old sz] by blast
  have j': "j = length os" using j(1) last by (rule half_point_last)
  obtain l1 where l1: "setHeader left t (of_nat (length os)) = Some l1" "pnode l1 t (length os) []"
    using setHeader_pnode [OF left] by blast
  have "nodeAppendRange l1 old 0 0 (of_nat (length os)) = Some l"
    using res l1(1) nodeSplit2_guards [OF sz] j(2) j'
    by (auto simp: nodeSplit2_def pnode_nbytes [OF old] pnode_nkeys [OF old [unfolded node_def]]
          pnode_btype [OF old [unfolded node_def]] bind_eq_Some_conv)
  with nodeAppendRange_cut [OF l1(2) old ne] show ?thesis by simp
qed

lemma node_size_length: "4 + 14 * length os \<le> node_size os"
  by (induction os) (auto simp: node_size_def kv_len_def)

lemma nodeSplit3_abort:
  assumes old: "node old t os" and sz: "4096 < node_size os" "node_size os \<le> 8192"
    and last: "node_size (butlast os) < node_size os div 2"
  shows "nodeSplit3 old = None"
proof -
  let ?L = "replicate 8192 0 :: bytes" and ?R = "replicate 4096 0 :: bytes"
  have few: "4 + 10 * length os \<le> 4096"
    using node_size_length [of "butlast os"] last sz by simp
  obtain j where j: "half_point os j"
    "split_half old (of_nat (node_size os) div 2) (of_nat (length os)) HEADER 0 = Some (of_nat j)"
    using split_half_point [OF old sz] by blast
  have j': "j = length os" using j(1) last by (rule half_point_last)
  obtain l r where lr: "nodeSplit2 ?L ?R old = Some (of_nat j, l, r)" "node l t os" "length l = 8192"
    using nodeSplit2_node [OF old sz j, of ?L ?R] sz j' by (auto simp: node_size_def)
  have "nbytes ll = Some (of_nat (node_size os))" if "nodeSplit2 ?R ?R l = Some (i, ll, mid)" for i ll mid
    using nodeSplit2_cut [OF lr(2) sz last _ _ that] few by simp
  then show ?thesis
    using nodeSplit2_guards [OF sz] lr(1)
    by (auto simp: nodeSplit3_def pnode_nbytes [OF old] pnode_nbytes [OF lr(2)] split: bind_splits)
qed

end
