(* ===== verification/Tree_Shape.thy ===== *)
theory Tree_Shape
  imports Tree Node_Ops
begin

text \<open>
  The tree layer implements a sorted association list. A \<open>ptree\<close> is the shape of a tree in
  the page store, with the page of every node; \<open>tree_at g T\<close> says that the pages read by \<open>g\<close> hold it.
  The page store is an interface, the locale \<open>pager\<close>: its laws are all that the proofs about lookup and
  insertion use.
\<close>

section \<open>Sorted association lists\<close>

fun upd_kv :: "bytes \<Rightarrow> bytes \<Rightarrow> (bytes \<times> bytes) list \<Rightarrow> (bytes \<times> bytes) list" where
  "upd_kv k v [] = [(k, v)]"
| "upd_kv k v ((k', v') # xs) =
     (if k < k' then (k, v) # (k', v') # xs
      else if k = k' then (k, v) # xs
      else (k', v') # upd_kv k v xs)"

abbreviation sorted_kv :: "(bytes \<times> bytes) list \<Rightarrow> bool" where
  "sorted_kv xs \<equiv> sorted_wrt (<) (map fst xs)"

section \<open>Trees in pages\<close>

datatype ptree = PLeaf u64 "(bytes \<times> bytes) list" | PNode u64 "ptree list"

fun page :: "ptree \<Rightarrow> u64" where
  "page (PLeaf p kvs) = p"
| "page (PNode p cs) = p"

fun contents :: "ptree \<Rightarrow> (bytes \<times> bytes) list" where
  "contents (PLeaf p kvs) = kvs"
| "contents (PNode p cs) = concat (map contents cs)"

fun pages :: "ptree \<Rightarrow> u64 list" where
  "pages (PLeaf p kvs) = [p]"
| "pages (PNode p cs) = p # concat (map pages cs)"

fun kpages :: "ptree \<Rightarrow> u64 list" where
  "kpages (PLeaf p kvs) = []"
| "kpages (PNode p cs) = concat (map pages cs)"

definition fkey :: "ptree \<Rightarrow> bytes" where
  "fkey T = fst (hd (contents T))"

fun wf_tree :: "nat \<Rightarrow> ptree \<Rightarrow> bool" where
  "wf_tree 0 (PLeaf p kvs) = (kvs \<noteq> [])"
| "wf_tree (Suc h) (PNode p cs) = (cs \<noteq> [] \<and> (\<forall>c \<in> set cs. wf_tree h c))"
| "wf_tree _ _ = False"

definition leaf_entry :: "bytes \<times> bytes \<Rightarrow> entry" where
  "leaf_entry kv = (0, fst kv, snd kv)"

definition kid_entry :: "ptree \<Rightarrow> entry" where
  "kid_entry c = (page c, fkey c, [])"

fun top_type :: "ptree \<Rightarrow> u16" where
  "top_type (PLeaf p kvs) = BNODE_LEAF"
| "top_type (PNode p cs) = BNODE_NODE"

fun top_entries :: "ptree \<Rightarrow> entry list" where
  "top_entries (PLeaf p kvs) = map leaf_entry kvs"
| "top_entries (PNode p cs) = map kid_entry cs"

fun tree_at :: "(u64 \<Rightarrow> bytes option) \<Rightarrow> ptree \<Rightarrow> bool" where
  "tree_at g (PLeaf p kvs) = (\<exists>b. g p = Some b \<and> length b = 4096 \<and> node b BNODE_LEAF (map leaf_entry kvs))"
| "tree_at g (PNode p cs) =
     ((\<exists>b. g p = Some b \<and> length b = 4096 \<and> node b BNODE_NODE (map kid_entry cs)) \<and> (\<forall>c \<in> set cs. tree_at g c))"

text \<open>The kids of the top node are in place; its own bytes are \<open>b\<close>.\<close>

fun kids_at :: "(u64 \<Rightarrow> bytes option) \<Rightarrow> ptree \<Rightarrow> bool" where
  "kids_at g (PLeaf p kvs) = True"
| "kids_at g (PNode p cs) = (\<forall>c \<in> set cs. tree_at g c)"

definition top_at :: "(u64 \<Rightarrow> bytes option) \<Rightarrow> bytes \<Rightarrow> ptree \<Rightarrow> bool" where
  "top_at g b T \<longleftrightarrow> node b (top_type T) (top_entries T) \<and> kids_at g T"

lemma tree_at_top: "tree_at g T \<longleftrightarrow> (\<exists>b. g (page T) = Some b \<and> length b = 4096 \<and> top_at g b T)"
  by (cases T) (auto simp: top_at_def)

lemma pages_eq: "pages T = page T # kpages T"
  by (cases T) auto

lemma tree_at_cong:
  "tree_at g T \<Longrightarrow> (\<And>p. p \<in> set (pages T) \<Longrightarrow> g' p = g p) \<Longrightarrow> tree_at g' T"
proof (induction T)
  case (PLeaf p kvs)
  then show ?case by simp
next
  case (PNode p cs)
  then have "tree_at g' c" if "c \<in> set cs" for c
    using that by (intro PNode.IH) auto
  with PNode.prems show ?case by simp
qed

lemma wf_contents: "wf_tree h T \<Longrightarrow> contents T \<noteq> []"
proof (induction h T rule: wf_tree.induct)
  case (2 h p cs)
  then obtain c cs' where "cs = c # cs'" "wf_tree h c" by (cases cs) auto
  with 2 show ?case by auto
qed auto


section \<open>Searching\<close>

lemma upd_kv_append:
  "\<forall>x \<in> set A. fst x < k \<Longrightarrow> upd_kv k v (A @ B) = A @ upd_kv k v B"
  by (induction A) (auto dest: order.asym)

lemma upd_kv_before:
  "\<forall>x \<in> set C. k < fst x \<Longrightarrow> upd_kv k v (B @ C) = upd_kv k v B @ C"
proof (induction B)
  case Nil
  then show ?case by (cases C) auto
qed auto

lemma set_upd_kv: "set (upd_kv k v xs) \<subseteq> insert (k, v) (set xs)"
  by (induction k v xs rule: upd_kv.induct) auto

lemma upd_kv_not_Nil [simp]: "upd_kv k v xs \<noteq> []"
  by (induction k v xs rule: upd_kv.induct) auto

lemma fst_set_upd_kv: "fst ` set (upd_kv k v xs) = insert k (fst ` set xs)"
  by (induction k v xs rule: upd_kv.induct) auto

lemma sorted_upd_kv: "sorted_kv xs \<Longrightarrow> sorted_kv (upd_kv k v xs)"
proof (induction k v xs rule: upd_kv.induct)
  case (2 k v k' v' xs)
  have "\<forall>y \<in> fst ` set (upd_kv k v xs). k' < y" if "\<not> k < k'" "k \<noteq> k'"
    using that 2 by (auto simp: fst_set_upd_kv)
  with 2 show ?case by (auto intro: order.strict_trans)
qed simp

lemma map_of_upd_kv: "map_of (upd_kv k v xs) = (map_of xs)(k \<mapsto> v)"
  by (induction k v xs rule: upd_kv.induct) auto

lemma lookup_le_props:
  fixes key :: bytes
  assumes "sorted_wrt (<) ks" "ks \<noteq> []"
  defines "i \<equiv> lookup_le ks key"
  shows "i < length ks"
    and "0 < i \<Longrightarrow> ks ! i \<le> key"
    and "\<And>j. j < i \<Longrightarrow> ks ! j < key"
    and "\<And>j. i < j \<Longrightarrow> j < length ks \<Longrightarrow> key < ks ! j"
proof -
  let ?P = "\<lambda>k. k \<le> key"
  have len: "i \<le> length (tl ks)" unfolding i_def lookup_le_def by (rule length_takeWhile_le)
  then show i: "i < length ks" using assms(2) by (cases ks) auto
  have pos: "ks ! i \<le> key" if "0 < i"
  proof -
    have "?P (tl ks ! (i - 1))"
      using that nth_length_takeWhile set_takeWhileD
      by (metis Suc_pred' i_def lookup_le_def less_Suc_eq nth_mem takeWhile_nth)
    then show ?thesis using that len by (simp add: nth_tl)
  qed
  then show "0 < i \<Longrightarrow> ks ! i \<le> key" .
  show "ks ! j < key" if "j < i" for j
    using that pos assms(1) i by (metis (no_types) order.strict_trans2 gr_zeroI not_less_zero sorted_wrt_nth_less)
  show "key < ks ! j" if "i < j" "j < length ks" for j
  proof -
    have "i < length (tl ks)" using that by simp
    then have "\<not> ?P (tl ks ! i)"
      unfolding i_def lookup_le_def by (rule nth_length_takeWhile)
    then have "key < ks ! Suc i" using \<open>i < length (tl ks)\<close> by (simp add: nth_tl not_le)
    also have "ks ! Suc i \<le> ks ! j"
      using that assms(1) by (metis Suc_lessI less_imp_le order_refl sorted_wrt_nth_less)
    finally show ?thesis .
  qed
qed

lemma keys_of_leaf [simp]: "keys_of (map leaf_entry kvs) = map fst kvs"
  by (simp add: keys_of_def leaf_entry_def)

lemma keys_of_kids [simp]: "keys_of (map kid_entry cs) = map fkey cs"
  by (simp add: keys_of_def kid_entry_def)


text \<open>Where \<open>upd_kv\<close> puts an entry, in terms of the position the binary search returns.\<close>

lemma upd_kv_lookup_le:
  fixes k :: bytes
  assumes "sorted_kv kvs" "kvs \<noteq> []"
  defines "i \<equiv> lookup_le (map fst kvs) k"
  shows "fst (kvs ! i) = k \<Longrightarrow> upd_kv k v kvs = take i kvs @ (k, v) # drop (Suc i) kvs"
    and "k < fst (kvs ! 0) \<Longrightarrow> upd_kv k v kvs = (k, v) # kvs"
    and "fst (kvs ! i) \<noteq> k \<Longrightarrow> \<not> k < fst (kvs ! 0) \<or> i \<noteq> 0 \<Longrightarrow>
      upd_kv k v kvs = take (Suc i) kvs @ (k, v) # drop (Suc i) kvs"
proof -
  have ne: "map fst kvs \<noteq> []" using assms(2) by simp
  note props = lookup_le_props [OF assms(1) ne, where key = k, folded i_def]
  have i: "i < length kvs" using props(1) by simp
  have below: "\<forall>x \<in> set (take i kvs). fst x < k"
    using props(3) i by (fastforce simp: in_set_conv_nth)
  have above: "\<forall>x \<in> set (drop (Suc i) kvs). k < fst x"
  proof
    fix x assume "x \<in> set (drop (Suc i) kvs)"
    then obtain j where "j < length kvs - Suc i" "x = kvs ! (Suc i + j)"
      by (auto simp: in_set_conv_nth)
    then show "k < fst x" using props(4) [of "Suc i + j"] by simp
  qed
  have split: "kvs = take i kvs @ kvs ! i # drop (Suc i) kvs" using i by (rule id_take_nth_drop)
  show "upd_kv k v kvs = take i kvs @ (k, v) # drop (Suc i) kvs" if "fst (kvs ! i) = k"
    by (subst split, subst upd_kv_append [OF below]) (use that in \<open>cases "kvs ! i"; simp\<close>)
  show "upd_kv k v kvs = (k, v) # kvs" if "k < fst (kvs ! 0)"
    using that assms(2) by (cases kvs) auto
  assume ne: "fst (kvs ! i) \<noteq> k" and "\<not> k < fst (kvs ! 0) \<or> i \<noteq> 0"
  then have "fst (kvs ! i) \<le> k" using props(2) i by (cases "i = 0") (simp_all add: not_less)
  with ne have lt: "fst (kvs ! i) < k" by (rule order.not_eq_order_implies_strict)
  have A: "\<forall>x \<in> set (take (Suc i) kvs). fst x < k"
    using below lt i by (auto simp: take_Suc_conv_app_nth)
  have "upd_kv k v (take (Suc i) kvs @ drop (Suc i) kvs) = take (Suc i) kvs @ upd_kv k v ([] @ drop (Suc i) kvs)"
    using upd_kv_append [OF A, of v "drop (Suc i) kvs"] by (simp del: append_take_drop_id)
  also have "upd_kv k v ([] @ drop (Suc i) kvs) = (k, v) # drop (Suc i) kvs"
    by (subst upd_kv_before [OF above]) simp
  finally show "upd_kv k v kvs = take (Suc i) kvs @ (k, v) # drop (Suc i) kvs" by simp
qed

lemma leaf_entry_fields [simp]:
  "leaf_entry (k, v) = (0, k, v)" "ekey (leaf_entry kv) = fst kv" "eval (leaf_entry kv) = snd kv"
  "eptr (leaf_entry kv) = 0"
  by (simp_all add: leaf_entry_def)

lemma length_make_bytes [simp]: "length (make_bytes n) = n"
  by (simp add: make_bytes_def)

lemma leafPut_node:
  assumes b: "node b BNODE_LEAF (map leaf_entry kvs)" and kvs: "sorted_kv kvs" "kvs \<noteq> []"
    and room: "node_size (map leaf_entry (upd_kv k v kvs)) \<le> 8192"
  shows "\<exists>b'. leafPut b (of_nat (lookup_le (map fst kvs) k)) k v = Some b' \<and>
     node b' BNODE_LEAF (map leaf_entry (upd_kv k v kvs)) \<and> length b' = 8192"
proof -
  define i where "i = lookup_le (map fst kvs) k"
  have i: "i < length kvs" using lookup_le_props(1) [OF kvs(1)] kvs(2) by (simp add: i_def)
  note upd = upd_kv_lookup_le [OF kvs, of k v, folded i_def]
  have key: "getKey b (of_nat i) = Some (fst (kvs ! i))" "getKey b 0 = Some (fst (kvs ! 0))"
    using pnode_getKey [OF b [unfolded node_def], of i] pnode_getKey [OF b [unfolded node_def], of 0] i kvs(2)
    by (simp_all)
  have n: "nkeys b = Some (of_nat (length kvs))"
    using pnode_nkeys [OF b [unfolded node_def]] by simp
  have z: "(of_nat i :: u16) = 0 \<longleftrightarrow> i = 0"
    using u16_small(2) [of i] i pnode_bounds [OF b [unfolded node_def]] by simp
  let ?b = "make_bytes (2 * PAGE_SIZE)"
  consider (update) "fst (kvs ! i) = k"
    | (prepend) "fst (kvs ! i) \<noteq> k" "k < fst (kvs ! 0)" "i = 0"
    | (insert) "fst (kvs ! i) \<noteq> k" "\<not> k < fst (kvs ! 0) \<or> i \<noteq> 0" by blast
  then show ?thesis
  proof cases
    case update
    then show ?thesis
      using leafUpdate_node [OF b, of i k v ?b] i upd(1) room key
      by (auto simp: leafPut_def i_def [symmetric] take_map drop_map)
  next
    case prepend
    then show ?thesis
      using prepend_node [OF b, of 0 k v ?b BNODE_LEAF] upd(2) room key
      by (auto simp: leafPut_def i_def [symmetric] n)
  next
    case insert
    then show ?thesis
      using leafInsert_node [OF b, of "Suc i" k v ?b] i upd(3) room key
      by (auto simp: leafPut_def i_def [symmetric] z take_map drop_map add.commute)
  qed
qed

section \<open>Sizes\<close>

text \<open>
  The sizes for which a node splits into two pages: keys of at most 1000 bytes (\<open>MAXKEYLEN\<close>) and
  entries, with their pointer, offset and lengths, of at most 1365 bytes.
\<close>

definition kv_ok :: "bytes \<times> bytes \<Rightarrow> bool" where
  "kv_ok kv \<longleftrightarrow> length (fst kv) \<le> 1000 \<and> length (fst kv) + length (snd kv) \<le> 1351"

fun entry_max :: "ptree \<Rightarrow> nat" where
  "entry_max (PLeaf p kvs) = 1365"
| "entry_max (PNode p cs) = 1014"

definition splittable :: "ptree \<Rightarrow> bool" where
  "splittable T \<longleftrightarrow> (\<forall>e \<in> set (top_entries T). 10 + kv_len e \<le> entry_max T) \<and>
     node_size (top_entries T) div 2 + entry_max T \<le> 4097"

lemma node_size_upd_kv:
  "node_size (map leaf_entry (upd_kv k v kvs)) \<le> node_size (map leaf_entry kvs) + 14 + length k + length v"
  by (induction k v kvs rule: upd_kv.induct) (auto simp: node_size_def kv_len_def)

lemma splittable_leaf:
  assumes "\<forall>kv \<in> set kvs. kv_ok kv" "kv_ok (k, v)" "node_size (map leaf_entry kvs) \<le> 4096"
  shows "splittable (PLeaf p (upd_kv k v kvs))" "node_size (map leaf_entry (upd_kv k v kvs)) \<le> 8192"
proof -
  have "\<forall>kv \<in> set (upd_kv k v kvs). kv_ok kv"
    using assms(1,2) set_upd_kv [of k v kvs] by blast
  then have "\<forall>e \<in> set (map leaf_entry (upd_kv k v kvs)). 10 + kv_len e \<le> 1365"
    by (auto simp: kv_ok_def kv_len_def)
  moreover have sz: "node_size (map leaf_entry (upd_kv k v kvs)) \<le> 5461"
    using node_size_upd_kv [of k v kvs] assms(2,3) by (simp add: kv_ok_def)
  then have "node_size (map leaf_entry (upd_kv k v kvs)) div 2 \<le> 2730" by linarith
  ultimately show "splittable (PLeaf p (upd_kv k v kvs))" by (simp add: splittable_def)
  show "node_size (map leaf_entry (upd_kv k v kvs)) \<le> 8192" using sz by simp
qed

section \<open>Choosing a kid\<close>

lemma fkey_in: "contents T \<noteq> [] \<Longrightarrow> fkey T \<in> fst ` set (contents T)"
  by (simp add: fkey_def)

lemma sorted_kv_append:
  "sorted_kv (A @ B) \<longleftrightarrow> sorted_kv A \<and> sorted_kv B \<and> (\<forall>x \<in> fst ` set A. \<forall>y \<in> fst ` set B. x < y)"
  by (auto simp: sorted_wrt_append)

lemma kids_sorted:
  "\<forall>c \<in> set cs. contents c \<noteq> [] \<Longrightarrow> sorted_kv (concat (map contents cs)) \<Longrightarrow> sorted_wrt (<) (map fkey cs)"
proof (induction cs)
  case (Cons c cs)
  have "fkey c < fkey d" if "d \<in> set cs" for d
  proof -
    have "fkey d \<in> fst ` set (concat (map contents cs))"
      using that fkey_in [of d] Cons.prems(1) by (auto simp: image_iff)
    moreover have "fkey c \<in> fst ` set (contents c)" using fkey_in [of c] Cons.prems(1) by simp
    moreover have "sorted_kv (contents c @ concat (map contents cs))" using Cons.prems(2) by simp
    ultimately show ?thesis unfolding sorted_kv_append by blast
  qed
  with Cons show ?case by (simp add: sorted_wrt_append)
qed simp

text \<open>
  The kid the search descends into: the entries of the kids to its left are below the key and
  those of the kids to its right above it.
\<close>

lemma lookup_kid:
  fixes k :: bytes
  assumes ne: "\<forall>c \<in> set cs. contents c \<noteq> []" "cs \<noteq> []" and sorted: "sorted_kv (concat (map contents cs))"
  defines "i \<equiv> lookup_le (map fkey cs) k"
  shows "i < length cs"
    and "\<forall>x \<in> set (concat (map contents (take i cs))). fst x < k"
    and "\<forall>x \<in> set (concat (map contents (drop (Suc i) cs))). k < fst x"
proof -
  have ks: "sorted_wrt (<) (map fkey cs)" "map fkey cs \<noteq> []" using kids_sorted ne sorted by auto
  note props = lookup_le_props [OF ks, where key = k, folded i_def]
  show i: "i < length cs" using props(1) by simp
  let ?A = "concat (map contents (take i cs))" and ?C = "concat (map contents (drop (Suc i) cs))"
  have "concat (map contents cs) = concat (map contents (take i cs @ cs ! i # drop (Suc i) cs))"
    using id_take_nth_drop [OF i] by simp
  then have split: "concat (map contents cs) = ?A @ contents (cs ! i) @ ?C" by simp
  show "\<forall>x \<in> set ?A. fst x < k"
  proof (cases "i = 0")
    case False
    then have "fkey (cs ! i) \<le> k" using props(2) i by simp
    moreover have "fst x < fkey (cs ! i)" if "x \<in> set ?A" for x
    proof -
      have "fkey (cs ! i) \<in> fst ` set (contents (cs ! i) @ ?C)" using fkey_in [of "cs ! i"] ne i by auto
      then show ?thesis using sorted that unfolding split sorted_kv_append by blast
    qed
    ultimately show ?thesis by (blast intro: order.strict_trans2)
  qed simp
  show "\<forall>x \<in> set ?C. k < fst x"
  proof (cases "Suc i < length cs")
    case True
    let ?d = "cs ! Suc i"
    have lt: "k < fkey ?d" using props(4) [of "Suc i"] True by simp
    have "drop (Suc i) cs = ?d # drop (Suc (Suc i)) cs" using True by (simp add: Cons_nth_drop_Suc)
    then have C: "?C = contents ?d @ concat (map contents (drop (Suc (Suc i)) cs))" by simp
    have "sorted_kv ?C" using sorted unfolding split by (simp add: sorted_wrt_append)
    moreover have "?C \<noteq> []" "fkey ?d = fst (hd ?C)" using ne True by (simp_all add: C fkey_def)
    ultimately have "\<forall>x \<in> set ?C. fkey ?d \<le> fst x" by (cases ?C) (auto simp: less_imp_le)
    with lt show ?thesis by (blast intro: order.strict_trans2)
  qed simp
qed

lemma concat_kids: "i < length cs \<Longrightarrow> concat (map contents cs) =
    concat (map contents (take i cs)) @ contents (cs ! i) @ concat (map contents (drop (Suc i) cs))"
  by (metis append_Cons append_Nil concat.simps(2) concat_append id_take_nth_drop list.simps(9) map_append)

lemma lookup_kid_upd:
  assumes "\<forall>c \<in> set cs. contents c \<noteq> []" "cs \<noteq> []" "sorted_kv (concat (map contents cs))"
    and "i = lookup_le (map fkey cs) k"
  shows "upd_kv k v (concat (map contents cs)) = concat (map contents (take i cs)) @
      upd_kv k v (contents (cs ! i)) @ concat (map contents (drop (Suc i) cs))"
  using lookup_kid [OF assms(1-3), of k, folded assms(4)]
  by (simp add: concat_kids upd_kv_append upd_kv_before)

lemma map_of_none: "\<forall>x \<in> set A. fst x \<noteq> k \<Longrightarrow> map_of A k = None"
  by (auto simp: map_of_eq_None_iff)

lemma map_of_outside: "\<forall>x \<in> set A. fst x < k \<Longrightarrow> map_of A k = None" "\<forall>x \<in> set A. k < fst x \<Longrightarrow> map_of A k = None"
  for k :: bytes
  by (fastforce intro!: map_of_none)+

lemma lookup_kid_map_of:
  assumes "\<forall>c \<in> set cs. contents c \<noteq> []" "cs \<noteq> []" "sorted_kv (concat (map contents cs))"
    and "i = lookup_le (map fkey cs) k"
  shows "map_of (concat (map contents cs)) k = map_of (contents (cs ! i)) k"
proof -
  note kid = lookup_kid [OF assms(1-3), of k, folded assms(4)]
  have "map_of (concat (map contents (take i cs))) k = None" "map_of (concat (map contents (drop (Suc i) cs))) k = None"
    using map_of_outside(1) [OF kid(2)] map_of_outside(2) [OF kid(3)] by blast+
  then show ?thesis using kid(1) by (simp add: concat_kids map_add_def split: option.splits)
qed

lemma sorted_kid:
  assumes "i < length cs" "sorted_kv (concat (map contents cs))"
  shows "sorted_kv (contents (cs ! i))"
  using assms by (simp add: concat_kids sorted_wrt_append)

section \<open>Lookup\<close>

lemma top_lookup:
  assumes "node b ty (map f xs)" "i < length xs"
  shows "getKey b (of_nat i) = Some (ekey (f (xs ! i)))" "getVal b (of_nat i) = Some (eval (f (xs ! i)))"
    "getptr b (of_nat i) = Some (eptr (f (xs ! i)))"
  using assms pnode_getKey [OF assms(1) [unfolded node_def]] pnode_getVal [OF assms(1) [unfolded node_def]]
    pnode_getptr [OF assms(1) [unfolded node_def]] by simp_all

lemma map_of_nth_key: "sorted_kv kvs \<Longrightarrow> i < length kvs \<Longrightarrow> map_of kvs (fst (kvs ! i)) = Some (snd (kvs ! i))"
  by (rule map_of_is_SomeI) (auto simp: strict_sorted_iff)

lemma lookup_leaf:
  fixes k :: bytes
  assumes "sorted_kv kvs" "kvs \<noteq> []"
  defines "i \<equiv> lookup_le (map fst kvs) k"
  shows "i < length kvs" "fst (kvs ! i) \<noteq> k \<Longrightarrow> map_of kvs k = None"
proof -
  have "map fst kvs \<noteq> []" using assms(2) by simp
  note props = lookup_le_props [OF assms(1) this, where key = k, folded i_def]
  show i: "i < length kvs" using props(1) by simp
  assume ne: "fst (kvs ! i) \<noteq> k"
  have "fst (kvs ! j) \<noteq> k" if "j < length kvs" for j
    using props(3,4) [of j] ne that i by (cases j i rule: linorder_cases) auto
  then show "map_of kvs k = None" by (intro map_of_none) (metis in_set_conv_nth)
qed

definition lookup_result :: "bytes option \<Rightarrow> gostring + bytes" where
  "lookup_result r = (case r of Some v \<Rightarrow> Inr v | None \<Rightarrow> Inl (str ''key not present''))"

lemma tree_getVal_correct:
  assumes "wf_tree h T" "top_at (tget t s) b T" "sorted_kv (contents T)" "h < fuel"
  shows "tree_getVal fuel t s b k = Some (lookup_result (map_of (contents T) k))"
  using assms
proof (induction h arbitrary: T b fuel)
  case 0
  then obtain p kvs where T: "T = PLeaf p kvs" "kvs \<noteq> []" by (cases T) auto
  with 0 have b: "node b BNODE_LEAF (map leaf_entry kvs)" by (simp add: top_at_def)
  obtain f where f: "fuel = Suc f" using 0(4) by (cases fuel) auto
  have kvs: "sorted_kv kvs" using 0(3) T by simp
  define i where "i = lookup_le (map fst kvs) k"
  note leaf = lookup_leaf [OF kvs T(2), of k, folded i_def]
  note rd = top_lookup [OF b leaf(1)]
  have look: "nodeLookupLE b k = Some (of_nat i)" using nodeLookupLE_node [OF b] kvs by (simp add: i_def)
  show ?case
    using rd look leaf(2) map_of_nth_key [OF kvs leaf(1)] pnode_btype [OF b [unfolded node_def]]
    by (auto simp: f T lookup_result_def)
next
  case (Suc h)
  then obtain p cs where T: "T = PNode p cs" "cs \<noteq> []" "\<forall>c \<in> set cs. wf_tree h c" by (cases T) auto
  with Suc.prems have b: "node b BNODE_NODE (map kid_entry cs)" and kids: "\<forall>c \<in> set cs. tree_at (tget t s) c"
    by (simp_all add: top_at_def)
  obtain f where f: "fuel = Suc f" "h < f" using Suc.prems(4) by (cases fuel) auto
  have ne: "\<forall>c \<in> set cs. contents c \<noteq> []" using T(3) wf_contents by blast
  have sorted: "sorted_kv (concat (map contents cs))" using Suc.prems(3) T by simp
  define i where "i = lookup_le (map fkey cs) k"
  have i: "i < length cs" unfolding i_def by (rule lookup_kid(1) [OF ne T(2) sorted])
  have look: "nodeLookupLE b k = Some (of_nat i)"
    using nodeLookupLE_node [OF b] kids_sorted [OF ne sorted] by (simp add: i_def)
  have c: "cs ! i \<in> set cs" using i by simp
  from kids c obtain b' where b': "tget t s (page (cs ! i)) = Some b'" "top_at (tget t s) b' (cs ! i)"
    by (auto simp: tree_at_top)
  have "tree_getVal f t s b' k = Some (lookup_result (map_of (contents (cs ! i)) k))"
    using Suc.IH [OF _ b'(2) sorted_kid [OF i sorted] f(2)] T(3) c by blast
  then show ?case
    using look top_lookup(3) [OF b i] b'(1) pnode_btype [OF b [unfolded node_def]]
      lookup_kid_map_of [OF ne T(2) sorted i_def]
    by (simp add: f T kid_entry_def)
qed

end
