(* ===== verification/Node_Claims.thy ===== *)
theory Node_Claims
  imports Tree_Shape
begin

text \<open>
  What the node layer of \<^verbatim>\<open>storage/btree.go\<close> promises to the tree: search within a node, insertion into a leaf,
  and the split of a node that has outgrown its page, with the sizes for which it works and those for
  which it aborts.
\<close>

lemma node_exists:
  assumes "node_size es \<le> n" "n < 65536"
  shows "\<exists>b. node b t es \<and> length b = n"
proof -
  have "\<exists>b. pnode b t (length es) (take i es) \<and> length b = n" if "i \<le> length es" for i
    using that
  proof (induction i)
    case 0
    have "4 + 10 * length es \<le> length (make_bytes n)" "length (make_bytes n) < 65536"
      using assms by (simp_all add: make_bytes_def node_size_def)
    from setHeader_pnode [OF this, of t] show ?case by (auto simp: make_bytes_def)
  next
    case (Suc i)
    then obtain b where b: "pnode b t (length es) (take i es)" "length b = n" by auto
    have i: "i < length es" "length (take i es) = i" using Suc.prems by simp_all
    obtain p k v where e: "es ! i = (p, k, v)" by (metis prod_cases3)
    have "kvs_len (take i es) + kv_len (es ! i) \<le> kvs_len es"
      using kvs_len_take_le [of "Suc i" es] i(1) by (simp add: kvs_len_take_Suc)
    then have "4 + 10 * length es + kvs_len (take i es) + kv_len (p, k, v) \<le> length b" "length (take i es) < length es"
      using assms(1) b(2) i e by (simp_all add: node_size_def)
    from nodeAppendKV_pnode [OF b(1) this(2,1)] obtain b' where
      "pnode b' t (length es) (take i es @ [(p, k, v)])" "length b' = length b" by blast
    then show ?case using b(2) e i(1) by (auto simp: take_Suc_conv_app_nth)
  qed
  from this [of "length es"] show ?thesis by (simp add: node_def)
qed

section \<open>Properties\<close>

text \<open>C27: The binary search in a node returns the position of the last key that is not above the key that
  is looked for, or the first position when there is none, and reads only inside the node.\<close>

theorem nodeLookupLE_floor:
  assumes "node b t es" "sorted_wrt (<) (keys_of es)" "es \<noteq> []"
  shows "\<exists>i < length es. nodeLookupLE b key = Some (of_nat i) \<and> (0 < i \<longrightarrow> keys_of es ! i \<le> key) \<and>
     (\<forall>j. i < j \<and> j < length es \<longrightarrow> key < keys_of es ! j)"
proof -
  have ne: "keys_of es \<noteq> []" "length (keys_of es) = length es" using assms(3) by (simp_all add: keys_of_def)
  show ?thesis
    using nodeLookupLE_node [OF assms(1,2), of key] lookup_le_props [OF assms(2) ne(1), where key = key] ne(2)
    by (intro exI [of _ "lookup_le (keys_of es) key"]) simp
qed

text \<open>C26: A node that does not fit its page is split in two pages that hold its entries in order, neither of them
  empty, when no entry is too big: half of the node and its biggest entry must fit a page together.\<close>

theorem nodeSplit3_fits:
  assumes "node old t os" "4096 < node_size os" "\<forall>e \<in> set os. 10 + kv_len e \<le> M" "node_size os div 2 + M \<le> 4097"
  shows "\<exists>ls rs l r. nodeSplit3 old = Some [l, r] \<and> os = ls @ rs \<and> ls \<noteq> [] \<and> rs \<noteq> [] \<and> node l t ls \<and> node r t rs \<and>
     length l = 4096 \<and> length r = 4096"
  using nodeSplit3_two [OF assms] by blast

text \<open>C32: The split aborts when the last entry holds more than half of the bytes of the node: then every entry goes
  to the left, the second split leaves everything on the left again, and the assertion fails. The sizes
  allowed for keys and values do not exclude this.\<close>

theorem nodeSplit3_aborts:
  assumes "node old t os" "4096 < node_size os" "node_size os \<le> 8192" "node_size (butlast os) < node_size os div 2"
  shows "nodeSplit3 old = None"
  using nodeSplit3_abort [OF assms] .

section \<open>Witnesses\<close>

definition demo_entries :: "nat \<Rightarrow> nat \<Rightarrow> entry list" where
  "demo_entries n m = [(0, [1], replicate n 7), (0, [2], replicate n 7), (0, [3], replicate m 7)]"

lemma demo_size: "node_size (demo_entries n m) = 49 + 2 * n + m"
  by (simp add: demo_entries_def node_size_def kv_len_def)

theorem nodeLookupLE_floor_witness:
  "\<exists>b i. node b 2 (demo_entries 1 1) \<and> i < 3 \<and> nodeLookupLE b [2, 5] = Some (of_nat i)"
proof -
  obtain b where b: "node b 2 (demo_entries 1 1)" using node_exists [of "demo_entries 1 1" 4096 2] by (auto simp: demo_size)
  from nodeLookupLE_floor [OF b, of "[2, 5]"] b show ?thesis by (auto simp: demo_entries_def keys_of_def)
qed

theorem nodeSplit3_fits_witness:
  "\<exists>old l r. node old 2 (demo_entries 1300 1500) \<and> nodeSplit3 old = Some [l, r] \<and> length l = 4096 \<and> length r = 4096"
proof -
  obtain b where b: "node b 2 (demo_entries 1300 1500)" using node_exists [of "demo_entries 1300 1500" 8192 2] by (auto simp: demo_size)
  have "\<forall>e \<in> set (demo_entries 1300 1500). 10 + kv_len e \<le> 1515" by (simp add: demo_entries_def kv_len_def)
  from nodeSplit3_fits [OF b _ this] b show ?thesis by (auto simp: demo_size)
qed

theorem nodeSplit3_aborts_witness:
  "\<exists>old. node old 2 (demo_entries 600 2990) \<and> nodeSplit3 old = None"
proof -
  obtain b where b: "node b 2 (demo_entries 600 2990)" using node_exists [of "demo_entries 600 2990" 8192 2] by (auto simp: demo_size)
  have "node_size (butlast (demo_entries 600 2990)) < node_size (demo_entries 600 2990) div 2"
    by (simp add: demo_size) (simp add: demo_entries_def node_size_def kv_len_def)
  with nodeSplit3_aborts [OF b] b show ?thesis by (auto simp: demo_size)
qed

end
