(* ===== verification/Tree_Insert.thy ===== *)
theory Tree_Insert
  imports Tree_Shape
begin

text \<open>
  Insertion (\<^verbatim>\<open>storage/btree.go\<close>: \<open>treeInsert\<close>, \<open>nodeInsert\<close>, \<open>nodeReplaceKidN\<close>, \<open>Insert\<close>) implements the update
  of a sorted association list. The page store is used through the locale \<open>pager\<close> alone: allocation
  returns a page that no live tree uses, holding the bytes given, and neither allocation nor freeing
  changes another live page. \<open>room\<close> counts the allocations that are certain to succeed. The locale is
  interpreted on the pages of a transaction in \<^verbatim>\<open>Pending\<close>.
\<close>

section \<open>The page store as an interface\<close>

locale pager =
  fixes t :: "'s BTree" and inv :: "'s \<Rightarrow> bool" and live :: "'s \<Rightarrow> u64 set" and room :: "'s \<Rightarrow> nat"
  assumes new_ok: "inv s \<Longrightarrow> 0 < room s \<Longrightarrow> length b = 4096 \<Longrightarrow>
      \<exists>s' p. tnew t s b = Some (s', p) \<and> inv s' \<and> room s \<le> Suc (room s') \<and> p \<noteq> 0 \<and> p \<notin> live s \<and>
        insert p (live s) \<subseteq> live s' \<and> tget t s' p = Some b \<and> (\<forall>q \<in> live s. tget t s' q = tget t s q)"
    and del_ok: "inv s \<Longrightarrow> 0 < room s \<Longrightarrow> p \<in> live s \<Longrightarrow>
      \<exists>s'. tdel t s p = Some s' \<and> inv s' \<and> room s \<le> Suc (room s') \<and> live s - {p} \<subseteq> live s' \<and>
        (\<forall>q \<in> live s - {p}. tget t s' q = tget t s q)"
    and live_nonzero: "inv s \<Longrightarrow> 0 \<notin> live s"

section \<open>Placing nodes in pages\<close>

fun setpage :: "u64 \<Rightarrow> ptree \<Rightarrow> ptree" where
  "setpage p (PLeaf _ kvs) = PLeaf p kvs"
| "setpage p (PNode _ cs) = PNode p cs"

lemma setpage_simps [simp]:
  "contents (setpage p T) = contents T" "kpages (setpage p T) = kpages T" "page (setpage p T) = p"
  "wf_tree h (setpage p T) = wf_tree h T" "fkey (setpage p T) = fkey T" "top_at g b (setpage p T) = top_at g b T"
  by (cases T; cases h; simp add: fkey_def top_at_def)+

lemma kid_entry_setpage [simp]: "kid_entry (setpage p T) = (p, fkey T, [])"
  by (simp add: kid_entry_def)

lemma kv_len_kid [simp]: "kv_len (kid_entry c) = 4 + length (fkey c)"
  by (simp add: kid_entry_def kv_len_def)

lemma fkey_PNode: "cs \<noteq> [] \<Longrightarrow> contents (hd cs) \<noteq> [] \<Longrightarrow> fkey (PNode p cs) = fkey (hd cs)"
  by (cases cs) (simp_all add: fkey_def)

lemma top_key:
  assumes "wf_tree h T" "top_at g b T"
  shows "getKey b 0 = Some (fkey T)"
proof (cases T)
  case (PLeaf p kvs)
  with assms show ?thesis
    using top_lookup(1) [of b BNODE_LEAF leaf_entry kvs 0]
    by (cases h) (auto simp: top_at_def fkey_def hd_conv_nth)
next
  case (PNode p cs)
  with assms obtain h' where "cs \<noteq> []" "\<forall>c \<in> set cs. wf_tree h' c" by (cases h) auto
  moreover from this have "contents (hd cs) \<noteq> []" using wf_contents by (metis hd_in_set)
  ultimately show ?thesis
    using assms top_lookup(1) [of b BNODE_NODE kid_entry cs 0] fkey_PNode [of cs p] PNode
    by (auto simp: top_at_def kid_entry_def hd_conv_nth)
qed

text \<open>The parts of a split node, and the tree each of them is the top of.\<close>

definition parts_at :: "(u64 \<Rightarrow> bytes option) \<Rightarrow> nat \<Rightarrow> BNode list \<Rightarrow> ptree list \<Rightarrow> bool" where
  "parts_at g h bs Ts \<longleftrightarrow> list_all2 (\<lambda>b U. top_at g b U \<and> length b = 4096 \<and> wf_tree h U) bs Ts"

lemma parts_at_simps [simp]:
  "parts_at g h [] Ts \<longleftrightarrow> Ts = []"
  "parts_at g h (b # bs) Ts \<longleftrightarrow>
     (\<exists>U Us. Ts = U # Us \<and> top_at g b U \<and> length b = 4096 \<and> wf_tree h U \<and> parts_at g h bs Us)"
  by (auto simp: parts_at_def list_all2_Cons1)

lemma kids_at_cong:
  "kids_at g T \<Longrightarrow> (\<And>p. p \<in> set (kpages T) \<Longrightarrow> g' p = g p) \<Longrightarrow> kids_at g' T"
  by (cases T) (auto intro: tree_at_cong)

lemma top_at_cong:
  "top_at g b T \<Longrightarrow> (\<And>p. p \<in> set (kpages T) \<Longrightarrow> g' p = g p) \<Longrightarrow> top_at g' b T"
  by (auto simp: top_at_def intro: kids_at_cong)

lemma parts_at_cong:
  "parts_at g h bs Ts \<Longrightarrow> (\<And>p. p \<in> set (concat (map kpages Ts)) \<Longrightarrow> g' p = g p) \<Longrightarrow> parts_at g' h bs Ts"
  unfolding parts_at_def
proof (erule list.rel_mono_strong)
  fix b U
  assume "U \<in> set Ts" "top_at g b U \<and> length b = 4096 \<and> wf_tree h U"
    and "\<And>p. p \<in> set (concat (map kpages Ts)) \<Longrightarrow> g' p = g p"
  then show "top_at g' b U \<and> length b = 4096 \<and> wf_tree h U" using top_at_cong [of g b U g'] by auto
qed

lemma split_top:
  assumes "top_at g b T" "wf_tree h T" "top_entries T = ls @ rs" "ls \<noteq> []" "rs \<noteq> []"
    and "node l (top_type T) ls" "node r (top_type T) rs"
  shows "\<exists>L R. top_at g l L \<and> top_at g r R \<and> wf_tree h L \<and> wf_tree h R \<and> top_entries L = ls \<and> top_entries R = rs \<and>
     contents T = contents L @ contents R \<and> kpages T = kpages L @ kpages R"
proof (cases T)
  case (PLeaf p kvs)
  with assms(3) obtain ls' rs' where "kvs = ls' @ rs'" "ls = map leaf_entry ls'" "rs = map leaf_entry rs'"
    by (auto simp: map_eq_append_conv)
  then show ?thesis
    using assms PLeaf by (intro exI [of _ "PLeaf 0 ls'"] exI [of _ "PLeaf 0 rs'"]) (cases h; simp add: top_at_def)
next
  case (PNode p cs)
  with assms(3) obtain ls' rs' where "cs = ls' @ rs'" "ls = map kid_entry ls'" "rs = map kid_entry rs'"
    by (auto simp: map_eq_append_conv)
  then show ?thesis
    using assms PNode by (intro exI [of _ "PNode 0 ls'"] exI [of _ "PNode 0 rs'"]) (cases h; auto simp: top_at_def)
qed

lemma nodeSplit3_tree:
  assumes "top_at g b T" "wf_tree h T" "splittable T" "length b = 8192"
  shows "\<exists>bs Ts. nodeSplit3 b = Some bs \<and> parts_at g h bs Ts \<and> concat (map contents Ts) = contents T \<and>
     concat (map kpages Ts) = kpages T \<and> 0 < length bs \<and> length bs \<le> 2 \<and>
     (length bs = 2 \<longrightarrow> 2048 \<le> node_size (top_entries (hd Ts)))"
proof -
  have b: "node b (top_type T) (top_entries T)" using assms(1) by (simp add: top_at_def)
  show ?thesis
  proof (cases "node_size (top_entries T) \<le> 4096")
    case True
    then show ?thesis
      using nodeSplit3_whole [OF b True] assms
      by (intro exI [of _ "[take 4096 b]"] exI [of _ "[T]"]) (auto simp: top_at_def)
  next
    case False
    then obtain ls rs l r where lr: "nodeSplit3 b = Some [l, r]" "top_entries T = ls @ rs" "ls \<noteq> []" "rs \<noteq> []"
      "node l (top_type T) ls" "node r (top_type T) rs" "length l = 4096" "length r = 4096" "2048 \<le> node_size ls"
      using nodeSplit3_two [OF b, of "entry_max T"] assms(3) by (auto simp: splittable_def)
    from split_top [OF assms(1,2) lr(2-6)] obtain L R where
      LR: "top_at g l L" "top_at g r R" "wf_tree h L" "wf_tree h R" "top_entries L = ls"
      "contents T = contents L @ contents R" "kpages T = kpages L @ kpages R" by blast
    show ?thesis
      using lr LR by (intro exI [of _ "[l, r]"] exI [of _ "[L, R]"]) auto
  qed
qed

section \<open>Allocating the parts of a split node\<close>

context pager
begin

lemma replaceKids_loop_alloc:
  assumes "inv s" "parts_at g h bs Ts" "length bs \<le> room s" "pnode new ty n es" "length es + length bs \<le> n"
    and "4 + 10 * n + kvs_len (es @ map kid_entry Ts) \<le> length new"
  shows "\<exists>s' new' ps. replaceKids_loop t s new (of_nat (length es)) bs = Some (s', new') \<and>
     inv s' \<and> room s \<le> room s' + length bs \<and> length ps = length Ts \<and> distinct ps \<and> set ps \<inter> live s = {} \<and>
     set ps \<union> live s \<subseteq> live s' \<and> (\<forall>q \<in> live s. tget t s' q = tget t s q) \<and>
     list_all2 (\<lambda>p b. tget t s' p = Some b) ps bs \<and>
     pnode new' ty n (es @ map kid_entry (map2 setpage ps Ts)) \<and> length new' = length new"
  using assms
proof (induction bs arbitrary: s Ts new es)
  case Nil
  then show ?case by (intro exI [of _ s] exI [of _ new] exI [of _ "[]"]) simp
next
  case (Cons b bs)
  from Cons.prems(2) obtain U Us where Ts: "Ts = U # Us" "top_at g b U" "length b = 4096" "wf_tree h U" "parts_at g h bs Us"
    by auto
  have "0 < room s" using Cons.prems(3) by simp
  from new_ok [OF Cons.prems(1) this Ts(3)] obtain s1 p where
    s1: "tnew t s b = Some (s1, p)" "inv s1" "room s \<le> Suc (room s1)" "p \<notin> live s" "insert p (live s) \<subseteq> live s1"
    "tget t s1 p = Some b" "\<forall>q \<in> live s. tget t s1 q = tget t s q" by blast
  have len: "length (fkey U) + kvs_len es + 4 + 10 * n + 4 + kvs_len (map kid_entry Us) \<le> length new"
    using Cons.prems(6) by (simp add: Ts)
  have "length es < n" "4 + 10 * n + kvs_len es + kv_len (p, fkey U, []) \<le> length new"
    using Cons.prems(5) len by (simp_all add: kv_len_def)
  from nodeAppendKV_pnode [OF Cons.prems(4) this] obtain new1 where
    new1: "nodeAppendKV new (of_nat (length es)) p (fkey U) [] = Some new1"
      "pnode new1 ty n (es @ [(p, fkey U, [])])" "length new1 = length new" by blast
  have "length bs \<le> room s1" "length (es @ [(p, fkey U, [])]) + length bs \<le> n"
    "4 + 10 * n + kvs_len ((es @ [(p, fkey U, [])]) @ map kid_entry Us) \<le> length new1"
    using s1(3) Cons.prems(3,5) len new1(3) by (simp_all add: kv_len_def)
  from Cons.IH [OF s1(2) Ts(5) this(1) new1(2) this(2,3)] obtain s' new' ps where
    IH: "replaceKids_loop t s1 new1 (of_nat (length (es @ [(p, fkey U, [])]))) bs = Some (s', new')"
      "inv s'" "room s1 \<le> room s' + length bs" "length ps = length Us" "distinct ps" "set ps \<inter> live s1 = {}"
      "set ps \<union> live s1 \<subseteq> live s'" "\<forall>q \<in> live s1. tget t s' q = tget t s1 q"
      "list_all2 (\<lambda>p b. tget t s' p = Some b) ps bs"
      "pnode new' ty n ((es @ [(p, fkey U, [])]) @ map kid_entry (map2 setpage ps Us))" "length new' = length new1"
    by blast
  have run: "replaceKids_loop t s new (of_nat (length es)) (b # bs) = Some (s', new')"
    using s1(1) new1(1) IH(1) top_key [OF Ts(4,2)] by (simp add: add.commute)
  have "p \<in> live s1" using s1(5) by blast
  then have "p \<notin> set ps" "tget t s' p = Some b" using IH(6,8) s1(6) by auto
  moreover have "\<forall>q \<in> live s. tget t s' q = tget t s q" using s1(5,7) IH(8) by auto
  ultimately show ?case
    using run IH s1 new1(3) by (intro exI [of _ s'] exI [of _ new'] exI [of _ "p # ps"]) (auto simp: Ts)
qed

lemma nodeReplaceKidN_parts:
  assumes inv: "inv s" and parts: "parts_at g h bs Ts" "length bs \<le> room s" "0 < length bs"
    and old: "node old BNODE_NODE (map kid_entry cs)" and i: "i < length cs"
    and room: "node_size (map kid_entry (take i cs @ Ts @ drop (Suc i) cs)) \<le> length new" "length new < 65536"
  shows "\<exists>s' new' ps. nodeReplaceKidN t s new old (of_nat i) bs = Some (s', new') \<and>
     inv s' \<and> room s \<le> room s' + length bs \<and> length ps = length Ts \<and> distinct ps \<and> set ps \<inter> live s = {} \<and>
     set ps \<union> live s \<subseteq> live s' \<and> (\<forall>q \<in> live s. tget t s' q = tget t s q) \<and>
     list_all2 (\<lambda>p b. tget t s' p = Some b) ps bs \<and>
     node new' BNODE_NODE (map kid_entry (take i cs @ map2 setpage ps Ts @ drop (Suc i) cs)) \<and> length new' = length new"
proof -
  let ?os = "map kid_entry cs" and ?n = "length cs + length bs - 1"
  have lenT: "length Ts = length bs" using parts(1) by (simp add: parts_at_def list_all2_lengthD)
  have n: "(of_nat (length cs) + of_nat (length bs) - 1 :: u16) = of_nat ?n"
    using i by (simp add: of_nat_diff)
  have sz: "4 + 10 * ?n + kvs_len (take i ?os) + kvs_len (map kid_entry Ts) + kvs_len (drop (Suc i) ?os) \<le> length new"
    using room(1) i lenT by (simp add: node_size_def take_map drop_map)
  obtain new1 where new1: "setHeader new BNODE_NODE (of_nat ?n) = Some new1" "pnode new1 BNODE_NODE ?n []"
      "length new1 = length new"
    using setHeader_pnode [of ?n new BNODE_NODE] room(2) sz by auto
  have le: "i \<le> ?n" "i + length bs \<le> ?n" using i parts(3) by linarith+
  obtain new2 where new2: "nodeAppendRange new1 old 0 0 (of_nat i) = Some new2" "pnode new2 BNODE_NODE ?n (take i ?os)"
      "length new2 = length new"
    using nodeAppendRange_pnode [OF new1(2) old, of 0 i] i le(1) sz new1(3) by auto
  obtain s' new3 ps where s': "replaceKids_loop t s new2 (of_nat i) bs = Some (s', new3)"
     "inv s'" "room s \<le> room s' + length bs" "length ps = length Ts" "distinct ps" "set ps \<inter> live s = {}"
     "set ps \<union> live s \<subseteq> live s'" "\<forall>q \<in> live s. tget t s' q = tget t s q"
     "list_all2 (\<lambda>p b. tget t s' p = Some b) ps bs"
     "pnode new3 BNODE_NODE ?n (take i ?os @ map kid_entry (map2 setpage ps Ts))" "length new3 = length new"
    using replaceKids_loop_alloc [OF inv parts(1,2) new2(2)] i le(2) sz new2(3) by (auto simp: min_def)
  let ?es = "take i ?os @ map kid_entry (map2 setpage ps Ts)"
  have es: "length ?es = i + length bs" using i s'(4) lenT by simp
  have kl: "kvs_len (map kid_entry (map2 setpage ps Ts)) = kvs_len (map kid_entry Ts)"
    using s'(4) by (induction ps Ts rule: list_induct2) (simp_all add: kid_entry_def kv_len_def)
  obtain new' where new': "nodeAppendRange new3 old (of_nat (length ?es)) (of_nat (Suc i)) (of_nat (length cs - Suc i)) = Some new'"
      "pnode new' BNODE_NODE ?n (?es @ take (length cs - Suc i) (drop (Suc i) ?os))" "length new' = length new"
  proof -
    have "Suc i + (length cs - Suc i) \<le> length ?os" "length ?es + (length cs - Suc i) \<le> ?n"
      "4 + 10 * ?n + kvs_len ?es + kvs_len (take (length cs - Suc i) (drop (Suc i) ?os)) \<le> length new3"
      using i es kl sz s'(11) by simp_all
    from nodeAppendRange_pnode [OF s'(10) old this] s'(11) that show thesis by auto
  qed
  have cnt: "(of_nat (length cs) - (of_nat i + 1) :: u16) = of_nat (length cs - Suc i)"
    using i by (simp add: of_nat_diff)
  have "nodeReplaceKidN t s new old (of_nat i) bs = Some (s', new')"
    using new1(1) new2(1) s'(1) new'(1) [unfolded es] cnt n
    by (simp add: nodeReplaceKidN_def pnode_nkeys [OF old [unfolded node_def]] add.commute)
  moreover have "node new' BNODE_NODE (map kid_entry (take i cs @ map2 setpage ps Ts @ drop (Suc i) cs))"
    using new'(2) i s'(4) lenT by (simp add: node_def take_map drop_map add.commute)
  ultimately show ?thesis using s' new'(3) by blast
qed

end


section \<open>Insertion below the root\<close>

lemma fkey_kv_ok:
  "contents U \<noteq> [] \<Longrightarrow> \<forall>kv \<in> set (contents U). kv_ok kv \<Longrightarrow> length (fkey U) \<le> 1000"
  by (auto simp: fkey_def kv_ok_def)

lemma node_size_kids:
  "\<forall>c \<in> set cs. length (fkey c) \<le> 1000 \<Longrightarrow> node_size (map kid_entry cs) \<le> 4 + 1014 * length cs"
  by (induction cs) (auto simp: node_size_def)

text \<open>Replacing one kid of a node of one page by at most two keeps the node splittable.\<close>

lemma splittable_kids:
  assumes "node_size (map kid_entry cs) \<le> 4096" "i < length cs" "length Us \<le> 2"
    and "\<forall>c \<in> set (take i cs @ Us @ drop (Suc i) cs). length (fkey c) \<le> 1000"
  shows "node_size (map kid_entry (take i cs @ Us @ drop (Suc i) cs)) \<le> 6124"
    and "splittable (PNode p (take i cs @ Us @ drop (Suc i) cs))"
proof -
  have "node_size (map kid_entry (take i cs @ cs ! i # drop (Suc i) cs)) \<le> 4096"
    using assms(1,2) id_take_nth_drop [of i cs] by simp
  moreover have "node_size (map kid_entry Us) \<le> 4 + 1014 * length Us" using assms(4) by (intro node_size_kids) auto
  ultimately show sz: "node_size (map kid_entry (take i cs @ Us @ drop (Suc i) cs)) \<le> 6124"
    using assms(3) by (simp add: node_size_def)
  then have "node_size (map kid_entry (take i cs @ Us @ drop (Suc i) cs)) div 2 \<le> 3062" by linarith
  then show "splittable (PNode p (take i cs @ Us @ drop (Suc i) cs))"
    using assms(4) by (auto simp: splittable_def)
qed

lemma setpage_list:
  assumes "length ps = length Ts"
  shows "map contents (map2 setpage ps Ts) = map contents Ts" "map fkey (map2 setpage ps Ts) = map fkey Ts"
    "set (concat (map pages (map2 setpage ps Ts))) = set ps \<union> set (concat (map kpages Ts))"
    "\<forall>U \<in> set Ts. wf_tree h U \<Longrightarrow> \<forall>U \<in> set (map2 setpage ps Ts). wf_tree h U"
    "distinct ps \<Longrightarrow> distinct (concat (map kpages Ts)) \<Longrightarrow> set ps \<inter> set (concat (map kpages Ts)) = {} \<Longrightarrow>
      distinct (concat (map pages (map2 setpage ps Ts)))"
proof -
  show "set (concat (map pages (map2 setpage ps Ts))) = set ps \<union> set (concat (map kpages Ts))"
    using assms by (induction ps Ts rule: list_induct2) (auto simp: pages_eq)
  show "distinct (concat (map pages (map2 setpage ps Ts)))"
    if "distinct ps" "distinct (concat (map kpages Ts))" "set ps \<inter> set (concat (map kpages Ts)) = {}"
    using assms that
  proof (induction ps Ts rule: list_induct2)
    case (Cons p ps T Ts)
    moreover have "set (concat (map pages (map2 setpage ps Ts))) = set ps \<union> set (concat (map kpages Ts))"
      using Cons.hyps by (induction ps Ts rule: list_induct2) (auto simp: pages_eq)
    ultimately show ?case by (simp add: pages_eq) blast
  qed simp
qed (use assms in \<open>induction ps Ts rule: list_induct2; simp\<close>)+

lemma tree_at_parts:
  assumes "parts_at g h bs Ts" "list_all2 (\<lambda>p b. g p = Some b) ps bs"
  shows "\<forall>c \<in> set (map2 setpage ps Ts). tree_at g c"
  using assms(2,1) by (induction ps bs arbitrary: Ts rule: list_all2_induct) (fastforce simp: tree_at_top)+

lemma parts_wf: "parts_at g h bs Ts \<Longrightarrow> \<forall>U \<in> set Ts. wf_tree h U" "parts_at g h bs Ts \<Longrightarrow> length Ts = length bs"
  by (induction bs arbitrary: Ts) auto

lemma distinct_split3:
  "distinct (A @ B @ C) \<longleftrightarrow> distinct A \<and> distinct B \<and> distinct C \<and> set A \<inter> set B = {} \<and>
     set A \<inter> set C = {} \<and> set B \<inter> set C = {}"
  by auto

lemma concat_pages: "i < length cs \<Longrightarrow> concat (map pages cs) =
    concat (map pages (take i cs)) @ pages (cs ! i) @ concat (map pages (drop (Suc i) cs))"
  by (metis append_Cons append_Nil concat.simps(2) concat_append id_take_nth_drop list.simps(9) map_append)


context pager
begin

text \<open>What a call of \<open>treeInsert\<close> on a node of height \<open>h\<close> returns and what it leaves untouched.\<close>

definition inserted :: "nat \<Rightarrow> 's \<Rightarrow> ptree \<Rightarrow> u64 set \<Rightarrow> bytes \<Rightarrow> bytes \<Rightarrow> 's \<Rightarrow> bytes \<Rightarrow> ptree \<Rightarrow> bool" where
  "inserted h s T F k v s' b' T' \<longleftrightarrow>
     length b' = 8192 \<and> inv s' \<and> wf_tree h T' \<and> top_at (tget t s') b' T' \<and>
     contents T' = upd_kv k v (contents T) \<and> splittable T' \<and> distinct (kpages T') \<and>
     set (kpages T') \<subseteq> live s' \<and> F \<subseteq> live s' \<and> F \<inter> set (kpages T') = {} \<and>
     (\<forall>q \<in> F. tget t s' q = tget t s q) \<and> room s \<le> room s' + 3 * h"

lemma treeInsert_leaf:
  assumes "top_at (tget t s) b (PLeaf p kvs)" "kvs \<noteq> []" "sorted_kv kvs" "\<forall>kv \<in> set kvs. kv_ok kv" "kv_ok (k, v)"
    and "length b = 4096" "inv s" "F \<subseteq> live s" "0 < fuel"
  shows "\<exists>b'. treeInsert fuel t s b k v = Some (s, b') \<and> inserted 0 s (PLeaf p kvs) F k v s b' (PLeaf 0 (upd_kv k v kvs))"
proof -
  from assms(1) have b: "node b BNODE_LEAF (map leaf_entry kvs)" by (simp add: top_at_def)
  have "node_size (map leaf_entry kvs) \<le> 4096" using node_length(1) [OF b] assms(6) by simp
  note ok = splittable_leaf [OF assms(4,5) this]
  from leafPut_node [OF b assms(3,2) ok(2)] obtain b' where
    b': "leafPut b (of_nat (lookup_le (map fst kvs) k)) k v = Some b'"
      "node b' BNODE_LEAF (map leaf_entry (upd_kv k v kvs))" "length b' = 8192" by blast
  have "nodeLookupLE b k = Some (of_nat (lookup_le (map fst kvs) k))"
    using nodeLookupLE_node [OF b] assms(3) by simp
  with b'(1) pnode_btype [OF b [unfolded node_def]] have "treeInsert fuel t s b k v = Some (s, b')"
    using assms(9) by (cases fuel) simp_all
  with b'(2,3) ok(1) assms(7,8) show ?thesis by (auto simp: inserted_def top_at_def)
qed

text \<open>
  Replacing the kid that took the insertion: the page of the old kid is freed, the parts of the new
  one are allocated, and every other kid is where it was.
\<close>

lemma replaced_alloc:
  assumes s1: "inv s1" "p \<in> live s1" "3 \<le> room s1" and bs: "parts_at (tget t s1) h bs Ts" "0 < length bs" "length bs \<le> 2"
    and old: "node b BNODE_NODE (map kid_entry cs)" and i: "i < length cs"
    and sz: "node_size (map kid_entry (take i cs @ Ts @ drop (Suc i) cs)) \<le> 8192"
  shows "\<exists>s2 s' b' ps. tdel t s1 p = Some s2 \<and> nodeReplaceKidN t s2 (make_bytes 8192) b (of_nat i) bs = Some (s', b') \<and>
     inv s' \<and> room s1 \<le> room s' + 3 \<and> length ps = length Ts \<and> distinct ps \<and> set ps \<inter> (live s1 - {p}) = {} \<and>
     set ps \<union> (live s1 - {p}) \<subseteq> live s' \<and> (\<forall>q \<in> live s1 - {p}. tget t s' q = tget t s1 q) \<and>
     list_all2 (\<lambda>p b. tget t s' p = Some b) ps bs \<and>
     node b' BNODE_NODE (map kid_entry (take i cs @ map2 setpage ps Ts @ drop (Suc i) cs)) \<and> length b' = 8192"
proof -
  from del_ok [OF s1(1) _ s1(2)] s1(3) obtain s2 where s2: "tdel t s1 p = Some s2" "inv s2" "room s1 \<le> Suc (room s2)"
    "live s1 - {p} \<subseteq> live s2" "\<forall>q \<in> live s1 - {p}. tget t s2 q = tget t s1 q" by auto
  have le: "length bs \<le> room s2" "node_size (map kid_entry (take i cs @ Ts @ drop (Suc i) cs)) \<le> length (make_bytes 8192)"
    "length (make_bytes 8192) < 65536" using s2(3) s1(3) bs(3) sz by simp_all
  from nodeReplaceKidN_parts [OF s2(2) bs(1) le(1) bs(2) old i le(2,3)] obtain s' b' ps where
    s': "nodeReplaceKidN t s2 (make_bytes 8192) b (of_nat i) bs = Some (s', b')" "inv s'" "room s2 \<le> room s' + length bs"
    "length ps = length Ts" "distinct ps" "set ps \<inter> live s2 = {}" "set ps \<union> live s2 \<subseteq> live s'"
    "\<forall>q \<in> live s2. tget t s' q = tget t s2 q" "list_all2 (\<lambda>p b. tget t s' p = Some b) ps bs"
    "node b' BNODE_NODE (map kid_entry (take i cs @ map2 setpage ps Ts @ drop (Suc i) cs))"
    "length b' = length (make_bytes 8192)" by blast
  have "room s1 \<le> room s' + 3" using s2(3) s'(3) bs(3) by simp
  moreover have "set ps \<inter> (live s1 - {p}) = {}" "set ps \<union> (live s1 - {p}) \<subseteq> live s'" using s'(6,7) s2(4) by blast+
  moreover have "\<forall>q \<in> live s1 - {p}. tget t s' q = tget t s1 q" 
  proof
    fix q assume q: "q \<in> live s1 - {p}"
    then have "q \<in> live s2" using s2(4) by blast
    then show "tget t s' q = tget t s1 q" using s'(8) s2(5) q by simp
  qed
  moreover have "length b' = 8192" using s'(11) by simp
  ultimately show ?thesis using s2(1) s'(1,2,4,5,9,10)
    by (intro exI [of _ s2] exI [of _ s'] exI [of _ b'] exI [of _ ps] conjI)
qed

end

lemma kid_parts_keys:
  assumes "\<forall>c \<in> set cs. contents c \<noteq> []" "\<forall>kv \<in> set (concat (map contents cs)). kv_ok kv" "kv_ok (k, v)" "i < length cs"
    and "\<forall>U \<in> set Ts. wf_tree h U" "concat (map contents Ts) = upd_kv k v (contents (cs ! i))"
  shows "\<forall>U \<in> set (take i cs @ Ts @ drop (Suc i) cs). length (fkey U) \<le> 1000"
proof -
  have "\<forall>kv \<in> set (concat (map contents Ts)). kv_ok kv"
    using assms(2-4) set_upd_kv [of k v "contents (cs ! i)"] unfolding assms(6) by fastforce
  then have "length (fkey U) \<le> 1000" if "U \<in> set Ts" for U
    using that assms(5) wf_contents by (intro fkey_kv_ok) auto
  moreover have "length (fkey U) \<le> 1000" if "U \<in> set cs" for U
    using that assms(1,2) by (intro fkey_kv_ok) auto
  ultimately show ?thesis by (auto dest: in_set_takeD in_set_dropD)
qed

lemma kid_pages_distinct:
  assumes "i < length cs" "distinct (concat (map pages cs))" "F \<inter> set (concat (map pages cs)) = {}"
  defines "rest \<equiv> take i cs @ drop (Suc i) cs"
  shows "page (cs ! i) \<notin> F" "page (cs ! i) \<notin> set (concat (map pages rest))"
    "F \<inter> set (concat (map pages rest)) = {}" "distinct (concat (map pages rest))"
    "set (kpages (cs ! i)) \<inter> (F \<union> insert (page (cs ! i)) (set (concat (map pages rest)))) = {}"
    "distinct (kpages (cs ! i))" "set (concat (map pages cs)) = set (pages (cs ! i)) \<union> set (concat (map pages rest))"
  using assms(2,3) unfolding concat_pages [OF assms(1)] rest_def by (auto simp: pages_eq)

text \<open>Where the kids are after the replacement.\<close>

lemma replaced_shape:
  assumes rest: "\<forall>c \<in> set rest. tree_at g c" and F: "(F \<union> insert pc (set (concat (map pages rest)))) \<inter> set (concat (map kpages Ts)) = {}"
    "pc \<notin> F" "pc \<notin> set (concat (map pages rest))" "F \<inter> set (concat (map pages rest)) = {}"
    and old: "F \<union> insert pc (set (concat (map pages rest))) \<subseteq> L1" "set (concat (map kpages Ts)) \<subseteq> L1"
    and g1: "\<forall>q \<in> F \<union> insert pc (set (concat (map pages rest))). g1 q = g q"
    and g': "\<forall>q \<in> L1 - {pc}. g' q = g1 q"
    and ps: "length ps = length Ts" "set ps \<inter> (L1 - {pc}) = {}" "set ps \<union> (L1 - {pc}) \<subseteq> L'" "distinct ps"
      "list_all2 (\<lambda>p b. g' p = Some b) ps bs" "parts_at g1 h bs Ts" "distinct (concat (map kpages Ts))"
  shows "\<forall>c \<in> set rest \<union> set (map2 setpage ps Ts). tree_at g' c"
    and "F \<subseteq> L'" "\<forall>q \<in> F. g' q = g q" "set (concat (map pages rest)) \<subseteq> L'"
    and "set (concat (map pages (map2 setpage ps Ts))) \<subseteq> L'" "distinct (concat (map pages (map2 setpage ps Ts)))"
    and "(F \<union> set (concat (map pages rest))) \<inter> set (concat (map pages (map2 setpage ps Ts))) = {}"
proof -
  let ?R = "set (concat (map pages rest))" and ?K = "set (concat (map kpages Ts))"
  have sub: "?R \<subseteq> L1 - {pc}" "F \<subseteq> L1 - {pc}" "?K \<subseteq> L1 - {pc}" using old F by blast+
  note pages = setpage_list(3) [OF ps(1)]
  show "F \<subseteq> L'" "?R \<subseteq> L'" using sub ps(3) by blast+
  have same: "g' q = g q" if "q \<in> F \<union> ?R" for q
  proof -
    from that sub have "q \<in> L1 - {pc}" "q \<in> F \<union> insert pc ?R" by blast+
    with g1 g' show ?thesis by simp
  qed
  then show "\<forall>q \<in> F. g' q = g q" by blast
  show "set (concat (map pages (map2 setpage ps Ts))) \<subseteq> L'" unfolding pages using sub ps(3) by blast
  show "distinct (concat (map pages (map2 setpage ps Ts)))"
    using setpage_list(5) [OF ps(1) ps(4,7)] ps(2) sub by blast
  show "(F \<union> ?R) \<inter> set (concat (map pages (map2 setpage ps Ts))) = {}"
    unfolding pages using sub ps(2) F(1) by blast
  have "parts_at g' h bs Ts" using ps(6) by (rule parts_at_cong) (use sub g' in blast)
  then have "\<forall>c \<in> set (map2 setpage ps Ts). tree_at g' c" using ps(5) by (rule tree_at_parts)
  moreover have "tree_at g' c" if "c \<in> set rest" for c
  proof (rule tree_at_cong)
    show "tree_at g c" using rest that by blast
    have "set (pages c) \<subseteq> ?R" using that by auto
    then show "g' q = g q" if "q \<in> set (pages c)" for q using that same by blast
  qed
  ultimately show "\<forall>c \<in> set rest \<union> set (map2 setpage ps Ts). tree_at g' c" by blast
qed


context pager
begin

lemma replaced_kid:
  assumes kid: "inserted h s (cs ! i) F' k v s1 b1 T1" and i: "i < length cs" "i = lookup_le (map fkey cs) k"
    and F': "F' = F \<union> insert (page (cs ! i)) (set (concat (map pages (take i cs @ drop (Suc i) cs))))"
    and tree: "wf_tree (Suc h) (PNode p cs)" "kids_at (tget t s) (PNode p cs)" "sorted_kv (concat (map contents cs))"
      "distinct (concat (map pages cs))" "F \<inter> set (concat (map pages cs)) = {}"
    and ok: "\<forall>kv \<in> set (concat (map contents cs)). kv_ok kv" "kv_ok (k, v)"
    and old: "node b BNODE_NODE (map kid_entry cs)" "length b = 4096" and room: "3 * Suc h \<le> room s"
  shows "\<exists>bs s2 s' b' T'. nodeSplit3 b1 = Some bs \<and> tdel t s1 (page (cs ! i)) = Some s2 \<and>
     nodeReplaceKidN t s2 (make_bytes 8192) b (of_nat i) bs = Some (s', b') \<and>
     inserted (Suc h) s (PNode p cs) F k v s' b' T'"
proof -
  let ?c = "cs ! i" and ?rest = "take i cs @ drop (Suc i) cs"
  have ne: "\<forall>c \<in> set cs. contents c \<noteq> []" "cs \<noteq> []" using tree(1) wf_contents by auto
  from kid have T1: "length b1 = 8192" "inv s1" "wf_tree h T1" "top_at (tget t s1) b1 T1" "contents T1 = upd_kv k v (contents ?c)"
    "splittable T1" "distinct (kpages T1)" "set (kpages T1) \<subseteq> live s1" "F' \<subseteq> live s1" "F' \<inter> set (kpages T1) = {}"
    "\<forall>q \<in> F'. tget t s1 q = tget t s q" "room s \<le> room s1 + 3 * h" by (simp_all add: inserted_def)
  from nodeSplit3_tree [OF T1(4,3,6,1)] obtain bs Ts where bs: "nodeSplit3 b1 = Some bs" "parts_at (tget t s1) h bs Ts"
    "concat (map contents Ts) = contents T1" "concat (map kpages Ts) = kpages T1" "0 < length bs" "length bs \<le> 2" by blast
  note wf = parts_wf [OF bs(2)]
  have lenT: "length Ts \<le> 2" using wf(2) bs(6) by simp
  have sz0: "node_size (map kid_entry cs) \<le> 4096" using node_length(1) [OF old(1)] old(2) by simp
  note sp = splittable_kids [OF sz0 i(1) lenT kid_parts_keys [OF ne(1) ok i(1) wf(1) bs(3) [unfolded T1(5)]]]
  have s1: "page ?c \<in> live s1" "3 \<le> room s1" using T1(9,12) F' room by auto
  have sz: "node_size (map kid_entry (take i cs @ Ts @ drop (Suc i) cs)) \<le> 8192" using sp(1) by simp
  obtain s2 s' b' ps where
    s': "tdel t s1 (page ?c) = Some s2" "nodeReplaceKidN t s2 (make_bytes 8192) b (of_nat i) bs = Some (s', b')"
     "inv s'" "room s1 \<le> room s' + 3" "length ps = length Ts" "distinct ps" "set ps \<inter> (live s1 - {page ?c}) = {}"
     "set ps \<union> (live s1 - {page ?c}) \<subseteq> live s'" "\<forall>q \<in> live s1 - {page ?c}. tget t s' q = tget t s1 q"
     "list_all2 (\<lambda>p b. tget t s' p = Some b) ps bs"
     "node b' BNODE_NODE (map kid_entry (take i cs @ map2 setpage ps Ts @ drop (Suc i) cs))" "length b' = 8192"
    using replaced_alloc [OF T1(2) s1 bs(2,5,6) old(1) i(1) sz] by (elim exE conjE) (rule that)
  note dist = kid_pages_distinct [OF i(1) tree(4,5)]
  have K: "set (concat (map kpages Ts)) = set (kpages T1)" "distinct (concat (map kpages Ts))" using bs(4) T1(7) by simp_all
  have "\<forall>c \<in> set ?rest. tree_at (tget t s) c" using tree(2) by (auto dest: in_set_takeD in_set_dropD)
  note shape = replaced_shape [OF this, of F "page ?c" Ts "live s1" "tget t s1" "tget t s'" ps "live s'" bs h,
      unfolded K(1), folded F', OF T1(10) dist(1,2,3) T1(9,8,11) s'(9,5,7,8,6,10) bs(2) K(2)]
  let ?cs' = "take i cs @ map2 setpage ps Ts @ drop (Suc i) cs"
  have wf': "wf_tree (Suc h) (PNode 0 ?cs')"
    using tree(1) setpage_list(4) [OF s'(5) wf(1)] bs(5) wf(2) s'(5)
    by (auto dest: in_set_takeD in_set_dropD)
  have cont: "contents (PNode 0 ?cs') = upd_kv k v (contents (PNode p cs))"
    using lookup_kid_upd [OF ne tree(3) i(2), of v] setpage_list(1) [OF s'(5)] bs(3) T1(5)
    by (simp del: map_map)
  have top: "top_at (tget t s') b' (PNode 0 ?cs')" using s'(11) shape(1) by (auto simp: top_at_def)
  have kids': "concat (map contents (map2 setpage ps Ts)) = upd_kv k v (contents ?c)"
    using setpage_list(1) [OF s'(5)] bs(3) T1(5) by (simp del: map_map)
  have "length (map2 setpage ps Ts) \<le> 2" using lenT s'(5) by simp
  note sp' = splittable_kids(2) [OF sz0 i(1) this
      kid_parts_keys [OF ne(1) ok i(1) setpage_list(4) [OF s'(5) wf(1)] kids'], of 0]
  have kp: "set (kpages (PNode 0 ?cs')) = set (concat (map pages ?rest)) \<union> set (concat (map pages (map2 setpage ps Ts)))"
    by auto
  have dist': "distinct (kpages (PNode 0 ?cs'))"
    using dist(4) shape(6,7) by auto
  have room': "room s \<le> room s' + 3 * Suc h" using s'(4) T1(12) by simp
  have "inserted (Suc h) s (PNode p cs) F k v s' b' (PNode 0 ?cs')"
    unfolding inserted_def kp
    using s'(3,12) wf' cont top sp' dist' shape(2-5,7) room' dist(3) by blast
  then show ?thesis using bs(1) s'(1,2) by blast
qed

lemma treeInsert_correct:
  assumes "wf_tree h T" "top_at (tget t s) b T" "length b = 4096" "sorted_kv (contents T)"
    "\<forall>kv \<in> set (contents T). kv_ok kv" "kv_ok (k, v)" "inv s" "distinct (kpages T)" "set (kpages T) \<subseteq> live s"
    "F \<subseteq> live s" "F \<inter> set (kpages T) = {}" "3 * h \<le> room s" "h < fuel"
  shows "\<exists>s' b' T'. treeInsert fuel t s b k v = Some (s', b') \<and> inserted h s T F k v s' b' T'"
  using assms
proof (induction h arbitrary: T b fuel F)
  case 0
  then obtain p kvs where T: "T = PLeaf p kvs" "kvs \<noteq> []" by (cases T) auto
  then show ?case using treeInsert_leaf [of s b p kvs k v F fuel] 0 by auto
next
  case (Suc h)
  then obtain p cs where T: "T = PNode p cs" "cs \<noteq> []" "\<forall>c \<in> set cs. wf_tree h c" by (cases T) auto
  with Suc.prems have b: "node b BNODE_NODE (map kid_entry cs)" and kids: "\<forall>c \<in> set cs. tree_at (tget t s) c"
    and sorted: "sorted_kv (concat (map contents cs))" by (simp_all add: top_at_def)
  obtain f where f: "fuel = Suc f" "h < f" using Suc.prems(13) by (cases fuel) auto
  have ne: "\<forall>c \<in> set cs. contents c \<noteq> []" using T(3) wf_contents by blast
  define i where "i = lookup_le (map fkey cs) k"
  have i: "i < length cs" unfolding i_def by (rule lookup_kid(1) [OF ne T(2) sorted])
  let ?c = "cs ! i"
  have c: "?c \<in> set cs" using i by simp
  then obtain kid where kid: "tget t s (page ?c) = Some kid" "length kid = 4096" "top_at (tget t s) kid ?c"
    using kids by (auto simp: tree_at_top)
  define F' where "F' = F \<union> insert (page ?c) (set (concat (map pages (take i cs @ drop (Suc i) cs))))"
  have dist0: "distinct (concat (map pages cs))" "F \<inter> set (concat (map pages cs)) = {}" using Suc.prems T by simp_all
  note dist = kid_pages_distinct [OF i dist0, folded F'_def]
  have L: "set (kpages ?c) \<subseteq> live s" "F' \<subseteq> live s" "F' \<inter> set (kpages ?c) = {}"
    using Suc.prems(9,10) dist(5,7) by (auto simp: T F'_def pages_eq)
  have ok: "\<forall>kv \<in> set (contents ?c). kv_ok kv" using Suc.prems(5) c by (auto simp: T)
  have room: "3 * h \<le> room s" using Suc.prems(12) by simp
  from Suc.IH [OF _ kid(3,2) sorted_kid [OF i sorted] ok Suc.prems(6,7) dist(6) L room f(2)] T(3) c
  obtain s1 b1 T1 where IH: "treeInsert f t s kid k v = Some (s1, b1)" "inserted h s ?c F' k v s1 b1 T1" by blast
  have ok': "\<forall>kv \<in> set (concat (map contents cs)). kv_ok kv" using Suc.prems(5) T by simp
  from replaced_kid [OF IH(2) i i_def F'_def, of p b] obtain bs s2 s' b' T' where
    R: "nodeSplit3 b1 = Some bs" "tdel t s1 (page ?c) = Some s2"
     "nodeReplaceKidN t s2 (make_bytes 8192) b (of_nat i) bs = Some (s', b')" "inserted (Suc h) s (PNode p cs) F k v s' b' T'"
    using Suc.prems(1,12,3,6) T(1) kids sorted dist0 ok' b by auto
  have look: "nodeLookupLE b k = Some (of_nat i)"
    using nodeLookupLE_node [OF b] kids_sorted [OF ne sorted] by (simp add: i_def)
  have "treeInsert fuel t s b k v = Some (s', b')"
    using look pnode_btype [OF b [unfolded node_def]] top_lookup(3) [OF b i] kid(1) IH(1) R(1-3)
    by (simp add: f kid_entry_def)
  with R(4) show ?case unfolding T(1) by blast
qed

end


section \<open>Insertion at the root\<close>

definition tree_holds :: "'s BTree \<Rightarrow> ('s \<Rightarrow> u64 set) \<Rightarrow> 's \<Rightarrow> nat \<Rightarrow> ptree \<Rightarrow> bool" where
  "tree_holds t live s h T \<longleftrightarrow> Root t \<noteq> 0 \<and> page T = Root t \<and> wf_tree h T \<and> tree_at (tget t s) T \<and>
     sorted_kv (contents T) \<and> (\<forall>kv \<in> set (contents T). kv_ok kv) \<and> distinct (pages T) \<and> set (pages T) \<subseteq> live s"

lemma newRoot_loop_node: "newRoot_loop t s new False i bs = replaceKids_loop t s new i bs"
  by (induction bs arbitrary: s new i) (simp_all cong: Option.bind_cong)

text \<open>The first part of a split leaf root, without its first entry.\<close>

definition dropFirst :: "BNode \<Rightarrow> BNode option" where
  "dropFirst b = do {
     bt \<leftarrow> btype b;
     n \<leftarrow> nkeys b;
     b' \<leftarrow> setHeader (make_bytes PAGE_SIZE) bt (n - 1);
     nodeAppendRange b' b 0 1 (n - 1) }"

lemma newRoot_loop_leaf:
  "newRoot_loop t s new True 0 [l, r] = do { l' \<leftarrow> dropFirst l; replaceKids_loop t s new 0 [l', r] }"
  by (simp add: dropFirst_def cong: Option.bind_cong)

lemma dropFirst_node:
  assumes b: "node b ty es" and "es \<noteq> []" "length b = 4096"
  shows "\<exists>b'. dropFirst b = Some b' \<and> node b' ty (tl es) \<and> length b' = 4096"
proof -
  obtain e es' where es: "es = e # es'" using assms(2) by (cases es) auto
  have "node_size es' \<le> 4096" using node_length(1) [OF b] assms(3) by (simp add: es node_size_def)
  then show ?thesis
    using build_one [OF b, of 1 "length es'" "make_bytes PAGE_SIZE" ty]
    by (simp add: es dropFirst_def pnode_btype [OF b [unfolded node_def]] pnode_nkeys [OF b [unfolded node_def]])
qed

lemma dropFirst_leaf:
  assumes "top_at g b U" "wf_tree 0 U" "length b = 4096" "\<forall>kv \<in> set (contents U). kv_ok kv"
    and big: "2048 \<le> node_size (top_entries U)"
  shows "\<exists>b' U'. dropFirst b = Some b' \<and> top_at g b' U' \<and> wf_tree 0 U' \<and> length b' = 4096 \<and>
    contents U' = tl (contents U) \<and> kpages U' = []"
proof -
  obtain p kvs where U: "U = PLeaf p kvs" "kvs \<noteq> []" using assms(2) by (cases U) auto
  have "tl kvs \<noteq> []"
  proof
    assume "tl kvs = []"
    with U(2) obtain kv where "kvs = [kv]" by (cases kvs) auto
    with U assms(4) big show False by (auto simp: node_size_def kv_ok_def kv_len_def)
  qed
  moreover have "node b BNODE_LEAF (map leaf_entry kvs)" using assms(1) U by (simp add: top_at_def)
  ultimately show ?thesis
    using dropFirst_node [of b BNODE_LEAF "map leaf_entry kvs"] U assms(3)
    by (intro exI [of _ "the (dropFirst b)"] exI [of _ "PLeaf p (tl kvs)"]) (auto simp: top_at_def map_tl)
qed

context pager
begin

lemma root_one:
  assumes "inv s" "top_at (tget t s) b U" "length b = 4096" "wf_tree h U" "0 < room s" "set (kpages U) \<subseteq> live s" "distinct (kpages U)"
  shows "\<exists>s' p. tnew t s b = Some (s', p) \<and> inv s' \<and> p \<noteq> 0 \<and> room s \<le> Suc (room s') \<and> p \<notin> live s \<and> live s \<subseteq> live s' \<and>
     tree_at (tget t s') (setpage p U) \<and> distinct (pages (setpage p U)) \<and> set (pages (setpage p U)) \<subseteq> live s'"
proof -
  from new_ok [OF assms(1,5,3)] obtain s' p where s': "tnew t s b = Some (s', p)" "inv s'" "room s \<le> Suc (room s')" "p \<noteq> 0"
    "p \<notin> live s" "insert p (live s) \<subseteq> live s'" "tget t s' p = Some b" "\<forall>q \<in> live s. tget t s' q = tget t s q" by blast
  have "top_at (tget t s') b U" using assms(2) by (rule top_at_cong) (use s'(8) assms(6) in blast)
  then have "tree_at (tget t s') (setpage p U)" using s'(7) assms(3) by (simp add: tree_at_top)
  moreover have "set (pages (setpage p U)) \<subseteq> live s'" "distinct (pages (setpage p U))"
    using s'(5,6) assms(6,7) by (auto simp: pages_eq)
  ultimately show ?thesis using s' by blast
qed

lemma root_two:
  assumes "inv s" "parts_at (tget t s) h bs Ts" "length bs = 2" "3 \<le> room s" "\<forall>U \<in> set Ts. length (fkey U) \<le> 1000"
    and "set (concat (map kpages Ts)) \<subseteq> live s" "distinct (concat (map kpages Ts))"
  shows "\<exists>nr s1 nr1 s' p T'. setHeader (make_bytes 4096) BNODE_NODE 2 = Some nr \<and> replaceKids_loop t s nr 0 bs = Some (s1, nr1) \<and>
     tnew t s1 nr1 = Some (s', p) \<and> inv s' \<and> p \<noteq> 0 \<and> room s \<le> room s' + 3 \<and> page T' = p \<and> wf_tree (Suc h) T' \<and>
     contents T' = concat (map contents Ts) \<and> live s \<subseteq> live s' \<and>
     tree_at (tget t s') T' \<and> distinct (pages T') \<and> set (pages T') \<subseteq> live s'"
proof -
  obtain nr where nr: "setHeader (make_bytes 4096) BNODE_NODE 2 = Some nr" "pnode nr BNODE_NODE 2 []" "length nr = 4096"
    using setHeader_pnode [of 2 "make_bytes 4096" BNODE_NODE] by auto
  note wf = parts_wf [OF assms(2)]
  have "node_size (map kid_entry Ts) \<le> 4 + 1014 * length Ts" using assms(5) by (rule node_size_kids)
  then have sz: "4 + 10 * 2 + kvs_len ([] @ map kid_entry Ts) \<le> length nr"
    using wf(2) assms(3) nr(3) by (simp add: node_size_def)
  have le: "length bs \<le> room s" "length ([] :: entry list) + length bs \<le> 2" using assms(3,4) by simp_all
  obtain s1 nr1 ps where s1: "replaceKids_loop t s nr (of_nat (length ([] :: entry list))) bs = Some (s1, nr1)"
     "inv s1" "room s \<le> room s1 + length bs" "length ps = length Ts" "distinct ps" "set ps \<inter> live s = {}"
     "set ps \<union> live s \<subseteq> live s1" "\<forall>q \<in> live s. tget t s1 q = tget t s q"
     "list_all2 (\<lambda>p b. tget t s1 p = Some b) ps bs"
     "pnode nr1 BNODE_NODE 2 ([] @ map kid_entry (map2 setpage ps Ts))" "length nr1 = length nr"
    using replaceKids_loop_alloc [OF assms(1,2) le(1) nr(2) le(2) sz] by (elim exE conjE) (rule that)
  let ?U = "PNode 0 (map2 setpage ps Ts)"
  have "parts_at (tget t s1) h bs Ts" using assms(2) by (rule parts_at_cong) (use s1(8) assms(6) in blast)
  with s1(9) have kids: "\<forall>c \<in> set (map2 setpage ps Ts). tree_at (tget t s1) c" by (rule tree_at_parts [rotated])
  have top: "top_at (tget t s1) nr1 ?U"
    using s1(4,10) kids wf(2) assms(3) by (simp add: top_at_def node_def)
  have wf': "wf_tree (Suc h) ?U"
    using setpage_list(4) [OF s1(4) wf(1)] s1(4) wf(2) assms(3) by (auto simp del: set_zip)
  have kp: "set (kpages ?U) \<subseteq> live s1" "distinct (kpages ?U)"
    using setpage_list(3,5) [OF s1(4)] s1(5,6,7) assms(6,7) by (simp_all del: map_map) blast+
  have "0 < room s1" "length nr1 = 4096" using s1(3,11) assms(3,4) nr(3) by simp_all
  from root_one [OF s1(2) top this(2) wf' this(1) kp] obtain s' p where
    s': "tnew t s1 nr1 = Some (s', p)" "inv s'" "p \<noteq> 0" "room s1 \<le> Suc (room s')" "live s1 \<subseteq> live s'"
     "tree_at (tget t s') (setpage p ?U)" "distinct (pages (setpage p ?U))" "set (pages (setpage p ?U)) \<subseteq> live s'" by blast
  have "contents (setpage p ?U) = concat (map contents Ts)" using setpage_list(1) [OF s1(4)] by (simp del: map_map)
  moreover have "room s \<le> room s' + 3" using s1(3) s'(4) assms(3) by simp
  moreover have "live s \<subseteq> live s'" using s1(7) s'(5) by blast
  moreover have "replaceKids_loop t s nr 0 bs = Some (s1, nr1)" "page (setpage p ?U) = p" "wf_tree (Suc h) (setpage p ?U)"
    using s1(1) wf' by simp_all
  ultimately show ?thesis using nr(1) s'(1,2,3,6,7,8)
    by (intro exI [of _ nr] exI [of _ s1] exI [of _ nr1] exI [of _ s'] exI [of _ p] exI [of _ "setpage p ?U"] conjI)
qed

end


lemma tl_or_id:
  "set ((if c then tl else id) xs) \<subseteq> set xs" "sorted_kv xs \<Longrightarrow> sorted_kv ((if c then tl else id) xs)"
  by (cases xs; auto)+

lemma parts_two:
  assumes "parts_at g h bs Ts" "length bs = 2"
  obtains l r L R where "bs = [l, r]" "Ts = [L, R]" "top_at g l L" "top_at g r R" "length l = 4096" "length r = 4096"
    "wf_tree h L" "wf_tree h R"
  using assms by (auto simp: numeral_2_eq_2 length_Suc_conv)

lemma wf_top_type: "wf_tree h T \<Longrightarrow> top_type T = (if h = 0 then BNODE_LEAF else BNODE_NODE)"
  by (cases T; cases h) auto

context pager
begin

lemma root_freed:
  assumes "inv s" "p \<in> live s" "0 < room s"
  shows "\<exists>s'. (if c then tdel t s p else Some s) = Some s' \<and> inv s' \<and> room s \<le> Suc (room s') \<and>
     live s - {p} \<subseteq> live s' \<and> (\<forall>q \<in> live s - {p}. tget t s' q = tget t s q)"
  using del_ok [OF assms(1,3,2)] assms(1) by (cases c) auto

lemma newRoot_build:
  assumes "inv s" "parts_at (tget t s) h bs Ts" "length bs = 2" "3 \<le> room s"
    and ok: "\<forall>kv \<in> set (concat (map contents Ts)). kv_ok kv" and big: "2048 \<le> node_size (top_entries (hd Ts))"
    and kp: "set (concat (map kpages Ts)) \<subseteq> live s" "distinct (concat (map kpages Ts))"
  shows "\<exists>nr s1 nr1 s' p T'. setHeader (make_bytes 4096) BNODE_NODE 2 = Some nr \<and>
     newRoot_loop t s nr (h = 0) 0 bs = Some (s1, nr1) \<and>
     tnew t s1 nr1 = Some (s', p) \<and> inv s' \<and> p \<noteq> 0 \<and> room s \<le> room s' + 3 \<and> page T' = p \<and> wf_tree (Suc h) T' \<and>
     contents T' = (if h = 0 then tl else id) (concat (map contents Ts)) \<and> live s \<subseteq> live s' \<and>
     tree_at (tget t s') T' \<and> distinct (pages T') \<and> set (pages T') \<subseteq> live s'"
proof (cases "h = 0")
  case False
  have "\<forall>U \<in> set Ts. length (fkey U) \<le> 1000"
    using ok parts_wf(1) [OF assms(2)] wf_contents by (auto intro!: fkey_kv_ok)
  from root_two [OF assms(1-4) this kp] False show ?thesis by (simp add: newRoot_loop_node)
next
  case True
  obtain l r L R where lr: "bs = [l, r]" "Ts = [L, R]" "top_at (tget t s) l L" "top_at (tget t s) r R"
    "length l = 4096" "length r = 4096" "wf_tree 0 L" "wf_tree 0 R"
    using parts_two [OF assms(2,3)] True by metis
  have "\<forall>kv \<in> set (contents L). kv_ok kv" "2048 \<le> node_size (top_entries L)" using ok big lr by simp_all
  from dropFirst_leaf [OF lr(3,7,5) this] obtain l' L' where
    l': "dropFirst l = Some l'" "top_at (tget t s) l' L'" "wf_tree 0 L'" "length l' = 4096" "contents L' = tl (contents L)"
      "kpages L' = []" by blast
  have "kpages R = []" using lr(8) by (cases R) auto
  have k: "\<forall>U \<in> set [L', R]. length (fkey U) \<le> 1000"
  proof -
    have "set (contents L') \<subseteq> set (contents L)" using l'(5) by (cases "contents L") auto
    then have "\<forall>kv \<in> set (contents L'). kv_ok kv" "\<forall>kv \<in> set (contents R). kv_ok kv" using ok lr(2) by auto
    then show ?thesis using wf_contents [OF l'(3)] wf_contents [OF lr(8)] fkey_kv_ok by simp
  qed
  have "contents L \<noteq> []" using lr(7) wf_contents by blast
  then have tl: "tl (contents L) @ contents R = tl (contents L @ contents R)" by simp
  have "parts_at (tget t s) 0 [l', r] [L', R]" using l' lr by simp
  from root_two [OF assms(1) this _ assms(4) k] show ?thesis
    using True l' lr \<open>kpages R = []\<close> tl by (simp add: newRoot_loop_leaf del: newRoot_loop.simps replaceKids_loop.simps)
qed

text \<open>The second half of \<open>Insert\<close>: the old root page is given up and the parts become the new root.\<close>

definition newRoot :: "'s \<Rightarrow> bool \<Rightarrow> BNode list \<Rightarrow> ('s BTree \<times> 's) option" where
  "newRoot s wasLeaf split =
     (if length split > 1 then do {
        newRoot \<leftarrow> setHeader (make_bytes PAGE_SIZE) BNODE_NODE (of_nat (length split));
        (s, newRoot) \<leftarrow> newRoot_loop t s newRoot wasLeaf 0 split;
        (s, p) \<leftarrow> tnew t s newRoot;
        Some (t\<lparr>Root := p\<rparr>, s) }
      else do {
        (s, p) \<leftarrow> tnew t s (split ! 0);
        Some (t\<lparr>Root := p\<rparr>, s) })"

lemma newRoot_correct:
  assumes "inv s" "parts_at (tget t s) h bs Ts" "0 < length bs" "length bs \<le> 2" "3 \<le> room s"
    and ok: "\<forall>kv \<in> set (concat (map contents Ts)). kv_ok kv" "sorted_kv (concat (map contents Ts))"
    and big: "length bs = 2 \<longrightarrow> 2048 \<le> node_size (top_entries (hd Ts))"
    and kp: "set (concat (map kpages Ts)) \<subseteq> live s" "distinct (concat (map kpages Ts))"
  shows "\<exists>s' h' T'. newRoot s (h = 0) bs = Some (t\<lparr>Root := page T'\<rparr>, s') \<and> inv s' \<and> room s \<le> room s' + 3 \<and>
     tree_holds (t\<lparr>Root := page T'\<rparr>) live s' h' T' \<and>
     (h' = h \<and> contents T' = concat (map contents Ts) \<or>
      h' = Suc h \<and> contents T' = (if h = 0 then tl else id) (concat (map contents Ts)))"
proof (cases "length bs = 2")
  case True
  with big have "2048 \<le> node_size (top_entries (hd Ts))" by blast
  from newRoot_build [OF assms(1,2) True assms(5) ok(1) this kp] obtain nr s1 nr1 s' p T' where
    R: "setHeader (make_bytes 4096) BNODE_NODE 2 = Some nr" "newRoot_loop t s nr (h = 0) 0 bs = Some (s1, nr1)"
     "tnew t s1 nr1 = Some (s', p)" "inv s'" "p \<noteq> 0" "room s \<le> room s' + 3" "page T' = p" "wf_tree (Suc h) T'"
     "contents T' = (if h = 0 then tl else id) (concat (map contents Ts))"
     "tree_at (tget t s') T'" "distinct (pages T')" "set (pages T') \<subseteq> live s'" by blast
  have "set (contents T') \<subseteq> set (concat (map contents Ts))" "sorted_kv (contents T')"
    unfolding R(9) by (rule tl_or_id(1), rule tl_or_id(2) [OF ok(2)])
  then have "tree_holds (t\<lparr>Root := page T'\<rparr>) live s' (Suc h) T'"
    using R ok(1) by (auto simp: tree_holds_def)
  moreover have "newRoot s (h = 0) bs = Some (t\<lparr>Root := page T'\<rparr>, s')"
    using R(1,2,3,7) True by (simp add: newRoot_def)
  ultimately show ?thesis using R(4,6,9) by blast
next
  case False
  with assms(3,4) obtain b where "bs = [b]" by (cases bs; cases "tl bs") auto
  with assms(2) obtain U where U: "bs = [b]" "Ts = [U]" "top_at (tget t s) b U" "length b = 4096" "wf_tree h U" by auto
  have "0 < room s" "set (kpages U) \<subseteq> live s" "distinct (kpages U)" using assms(5) kp U(2) by simp_all
  from root_one [OF assms(1) U(3-5) this] obtain s' p where
    R: "tnew t s b = Some (s', p)" "inv s'" "p \<noteq> 0" "room s \<le> Suc (room s')"
     "tree_at (tget t s') (setpage p U)" "distinct (pages (setpage p U))" "set (pages (setpage p U)) \<subseteq> live s'" by blast
  have "tree_holds (t\<lparr>Root := page (setpage p U)\<rparr>) live s' h (setpage p U)"
    using R(3,5-7) U ok by (simp add: tree_holds_def)
  moreover have "newRoot s (h = 0) bs = Some (t\<lparr>Root := page (setpage p U)\<rparr>, s')" using R(1) U(1) by (simp add: newRoot_def)
  moreover have "contents (setpage p U) = concat (map contents Ts)" using U(2) by simp
  ultimately show ?thesis using R(2,4)
    by (intro exI [of _ s'] exI [of _ h] exI [of _ "setpage p U"]) simp
qed

theorem Insert_correct:
  assumes holds: "tree_holds t live s h T" and s: "inv s" "3 * h + 4 \<le> room s" and kv: "kv_ok (k, v)" and fuel: "h < fuel"
  shows "\<exists>s' h' T'. Insert fuel t s k v = Some (t\<lparr>Root := page T'\<rparr>, s') \<and> inv s' \<and> room s \<le> room s' + 3 * h + 4 \<and>
     tree_holds (t\<lparr>Root := page T'\<rparr>) live s' h' T' \<and>
     (h' = h \<and> contents T' = upd_kv k v (contents T) \<or>
      h' = Suc h \<and> contents T' = (if h = 0 then tl else id) (upd_kv k v (contents T)))"
proof -
  from holds have T: "Root t \<noteq> 0" "page T = Root t" "wf_tree h T" "sorted_kv (contents T)"
    "\<forall>kv \<in> set (contents T). kv_ok kv" "distinct (kpages T)" "Root t \<notin> set (kpages T)" "set (kpages T) \<subseteq> live s" "Root t \<in> live s"
    by (auto simp: tree_holds_def pages_eq)
  from holds obtain b where b: "tget t s (Root t) = Some b" "length b = 4096" "top_at (tget t s) b T"
    by (auto simp: tree_holds_def tree_at_top)
  from treeInsert_correct [OF T(3) b(3,2) T(4,5) kv s(1) T(6,8), of "{Root t}" fuel] T(7,9) s(2) fuel
  obtain s1 b1 T1 where run: "treeInsert fuel t s b k v = Some (s1, b1)" and "inserted h s T {Root t} k v s1 b1 T1" by auto
  then have T1: "length b1 = 8192" "inv s1" "wf_tree h T1" "top_at (tget t s1) b1 T1" "contents T1 = upd_kv k v (contents T)"
    "splittable T1" "distinct (kpages T1)" "set (kpages T1) \<subseteq> live s1" "Root t \<in> live s1" "Root t \<notin> set (kpages T1)"
    "tget t s1 (Root t) = Some b" "room s \<le> room s1 + 3 * h" using b(1) by (simp_all add: inserted_def)
  from nodeSplit3_tree [OF T1(4,3,6,1)] obtain bs Ts where bs: "nodeSplit3 b1 = Some bs" "parts_at (tget t s1) h bs Ts"
    "concat (map contents Ts) = contents T1" "concat (map kpages Ts) = kpages T1" "0 < length bs" "length bs \<le> 2"
    "length bs = 2 \<longrightarrow> 2048 \<le> node_size (top_entries (hd Ts))" by blast
  have "0 < room s1" using T1(12) s(2) by simp
  from root_freed [OF T1(2,9) this, of "h \<noteq> 0"] obtain s2 where
    s2: "(if h \<noteq> 0 then tdel t s1 (Root t) else Some s1) = Some s2" "inv s2" "room s1 \<le> Suc (room s2)"
      "live s1 - {Root t} \<subseteq> live s2" "\<forall>q \<in> live s1 - {Root t}. tget t s2 q = tget t s1 q" by blast
  have kp: "set (concat (map kpages Ts)) \<subseteq> live s1 - {Root t}" using bs(4) T1(8,10) by auto
  have parts: "parts_at (tget t s2) h bs Ts" using bs(2) by (rule parts_at_cong) (use kp s2(5) in blast)
  have c: "concat (map contents Ts) = upd_kv k v (contents T)" using bs(3) T1(5) by simp
  have ok: "\<forall>kv \<in> set (concat (map contents Ts)). kv_ok kv" "sorted_kv (concat (map contents Ts))"
    using T(4,5) kv set_upd_kv [of k v "contents T"] sorted_upd_kv unfolding c by blast+
  have "3 \<le> room s2" "set (concat (map kpages Ts)) \<subseteq> live s2" "distinct (concat (map kpages Ts))"
    using s2(3,4) T1(12,7) s(2) kp bs(4) by auto
  from newRoot_correct [OF s2(2) parts bs(5,6) this(1) ok bs(7) this(2,3)] obtain s' h' T' where
    R: "newRoot s2 (h = 0) bs = Some (t\<lparr>Root := page T'\<rparr>, s')" "inv s'" "room s2 \<le> room s' + 3"
     "tree_holds (t\<lparr>Root := page T'\<rparr>) live s' h' T'"
     "h' = h \<and> contents T' = upd_kv k v (contents T) \<or>
      h' = Suc h \<and> contents T' = (if h = 0 then tl else id) (upd_kv k v (contents T))" unfolding c by blast
  have bt: "btype b = Some (if h = 0 then BNODE_LEAF else BNODE_NODE)"
    using b(3) pnode_btype wf_top_type [OF T(3)] by (auto simp: top_at_def node_def)
  have "Insert fuel t s k v = Some (t\<lparr>Root := page T'\<rparr>, s')"
    using T(1) b(1) run bs(1) T1(11) s2(1) R(1) bt
    by (cases "h = 0"; cases "Suc 0 < length bs") (simp_all add: Insert_def newRoot_def)
  moreover have "room s \<le> room s' + 3 * h + 4" using T1(12) s2(3) R(3) by simp
  ultimately show ?thesis using R(2,4,5) by blast
qed

end

section \<open>The first insertion and lookup\<close>

lemma tree_holds_GetVal:
  assumes "tree_holds t live s h T" "h < fuel"
  shows "GetVal fuel t s k = Some (lookup_result (map_of (contents T) k))"
  using assms tree_getVal_correct [of h T t s _ fuel k]
  by (auto simp: tree_holds_def tree_at_top GetVal_def)

text \<open>A new tree is a leaf with the empty key in front, so that every key has one at or below it.\<close>

context pager
begin

lemma Insert_first:
  assumes "Root t = 0" "inv s" "0 < room s" "kv_ok (k, v)" "k \<noteq> []"
  shows "\<exists>s' T'. Insert fuel t s k v = Some (t\<lparr>Root := page T'\<rparr>, s') \<and> inv s' \<and> room s \<le> Suc (room s') \<and>
     tree_holds (t\<lparr>Root := page T'\<rparr>) live s' 0 T' \<and> contents T' = [([], []), (k, v)]"
proof -
  let ?kvs = "[([], []), (k, v)]" and ?b = "make_bytes PAGE_SIZE"
  have len: "length k + length v \<le> 1351" using assms(4) by (simp add: kv_ok_def)
  obtain b0 where b0: "setHeader ?b BNODE_LEAF 2 = Some b0" "pnode b0 BNODE_LEAF 2 []" "length b0 = 4096"
    using setHeader_pnode [of 2 ?b BNODE_LEAF] by auto
  obtain b1 where b1: "nodeAppendKV b0 0 0 [] [] = Some b1" "pnode b1 BNODE_LEAF 2 [(0, [], [])]" "length b1 = 4096"
    using nodeAppendKV_pnode [OF b0(2), of 0 "[]" "[]"] b0(3) by (auto simp: kv_len_def)
  obtain b2 where b2: "nodeAppendKV b1 1 0 k v = Some b2" "pnode b2 BNODE_LEAF 2 [(0, [], []), (0, k, v)]" "length b2 = 4096"
    using nodeAppendKV_pnode [OF b1(2), of 0 k v] b1(3) len by (auto simp: kv_len_def)
  let ?U = "PLeaf 0 ?kvs"
  have "top_at (tget t s) b2 ?U" using b2(2) by (simp add: top_at_def node_def numeral_2_eq_2)
  from root_one [OF assms(2) this b2(3), of 0] assms(3) obtain s' p where
    R: "tnew t s b2 = Some (s', p)" "inv s'" "p \<noteq> 0" "room s \<le> Suc (room s')"
     "tree_at (tget t s') (setpage p ?U)" "distinct (pages (setpage p ?U))" "set (pages (setpage p ?U)) \<subseteq> live s'" by auto
  have "[] < k" using assms(5) by (cases k) auto
  then have "tree_holds (t\<lparr>Root := page (setpage p ?U)\<rparr>) live s' 0 (setpage p ?U)"
    using R(3,5-7) assms(4) by (simp add: tree_holds_def kv_ok_def)
  moreover have "Insert fuel t s k v = Some (t\<lparr>Root := page (setpage p ?U)\<rparr>, s')"
    using assms(1) b0(1) b1(1) b2(1) R(1) by (simp add: Insert_def)
  ultimately show ?thesis using R(2,4) by (intro exI [of _ s'] exI [of _ "setpage p ?U"]) simp
qed

end

section \<open>The tree as a map\<close>

text \<open>
  \<open>store t live s h M\<close>: the tree of \<open>t\<close> holds the map \<open>M\<close> in at most \<open>h\<close> levels below the root. A leaf root
  starts with the empty key, which is not part of the map: it is what \<open>Insert\<close> drops when such a root splits,
  and no deeper tree has it.
\<close>

definition tree_map :: "ptree \<Rightarrow> bytes \<Rightarrow> bytes option" where
  "tree_map T = (map_of (contents T))([] := None)"

definition store :: "'s BTree \<Rightarrow> ('s \<Rightarrow> u64 set) \<Rightarrow> 's \<Rightarrow> nat \<Rightarrow> (bytes \<Rightarrow> bytes option) \<Rightarrow> bool" where
  "store t live s h M \<longleftrightarrow>
     (if Root t = 0 then M = Map.empty
      else \<exists>T h0. h0 \<le> h \<and> tree_holds t live s h0 T \<and> (h0 = 0 \<longleftrightarrow> fkey T = []) \<and> M = tree_map T)"

lemma tree_map_upd: "contents T' = upd_kv k v (contents T) \<Longrightarrow> k \<noteq> [] \<Longrightarrow> tree_map T' = (tree_map T)(k \<mapsto> v)"
  by (auto simp: tree_map_def map_of_upd_kv fun_eq_iff)

lemma tree_map_upd_tl:
  assumes "contents T' = tl (upd_kv k v (contents T))" "k \<noteq> []" "fkey T = []" "contents T \<noteq> []"
  shows "tree_map T' = (tree_map T)(k \<mapsto> v)"
proof -
  obtain x xs where c: "contents T = ([], x) # xs" using assms(3,4) by (cases "contents T") (auto simp: fkey_def)
  have "contents T' = upd_kv k v xs" using assms(1,2) by (simp add: c)
  then show ?thesis using assms(2) by (auto simp: tree_map_def c map_of_upd_kv fun_eq_iff)
qed

lemma fkey_upd:
  "contents T' = upd_kv k v (contents T) \<Longrightarrow> contents T \<noteq> [] \<Longrightarrow> k \<noteq> [] \<Longrightarrow> fkey T' = [] \<longleftrightarrow> fkey T = []"
  by (cases "contents T"; cases k) (auto simp: fkey_def split: if_splits)

lemma fkey_upd_tl:
  assumes "contents T' = tl (upd_kv k v (contents T))" "k \<noteq> []" "fkey T = []" "contents T \<noteq> []" "sorted_kv (contents T)"
    and "contents T' \<noteq> []"
  shows "fkey T' \<noteq> []"
proof -
  obtain x xs where c: "contents T = ([], x) # xs" using assms(3,4) by (cases "contents T") (auto simp: fkey_def)
  have "contents T' = upd_kv k v xs" using assms(1,2) by (simp add: c)
  moreover have "\<forall>y \<in> set (upd_kv k v xs). fst y \<noteq> []"
  proof
    fix y assume "y \<in> set (upd_kv k v xs)"
    then have "y = (k, v) \<or> y \<in> set xs" using set_upd_kv [of k v xs] by blast
    moreover have "\<forall>y \<in> set xs. [] < fst y" using assms(5) by (simp add: c)
    ultimately show "fst y \<noteq> []" using assms(2) by (metis fst_conv order.strict_iff_order)
  qed
  ultimately show ?thesis using assms(6) by (auto simp: fkey_def)
qed

lemma store_GetVal:
  assumes "store t live s h M" "h < fuel" "k \<noteq> []"
  shows "GetVal fuel t s k = Some (if Root t = 0 then Inl (str ''btree is empty'') else lookup_result (M k))"
proof (cases "Root t = 0")
  case False
  with assms(1) obtain T h0 where T: "h0 \<le> h" "tree_holds t live s h0 T" "M = tree_map T" by (auto simp: store_def)
  with tree_holds_GetVal [OF T(2), of fuel k] assms(2,3) False show ?thesis by (simp add: tree_map_def)
qed (simp add: GetVal_def)

context pager
begin

theorem Insert_store:
  assumes "store t live s h M" "inv s" "3 * h + 4 \<le> room s" "kv_ok (k, v)" "k \<noteq> []" "h < fuel"
  shows "\<exists>s' r. Insert fuel t s k v = Some (t\<lparr>Root := r\<rparr>, s') \<and> r \<noteq> 0 \<and> inv s' \<and> room s \<le> room s' + 3 * h + 4 \<and>
     store (t\<lparr>Root := r\<rparr>) live s' (Suc h) (M(k \<mapsto> v))"
proof (cases "Root t = 0")
  case True
  have "0 < room s" using assms(3) by simp
  from Insert_first [OF True assms(2) this assms(4,5), of fuel] obtain s' T' where
    R: "Insert fuel t s k v = Some (t\<lparr>Root := page T'\<rparr>, s')" "inv s'" "room s \<le> Suc (room s')"
     "tree_holds (t\<lparr>Root := page T'\<rparr>) live s' 0 T'" "contents T' = [([], []), (k, v)]" by blast
  have "M = Map.empty" using assms(1) True by (simp add: store_def)
  then have "store (t\<lparr>Root := page T'\<rparr>) live s' (Suc h) (M(k \<mapsto> v))"
  proof -
    have "tree_map T' = [k \<mapsto> v]" using R(5) assms(5) by (auto simp: tree_map_def)
    moreover have "fkey T' = []" "page T' \<noteq> 0" using R(4,5) by (auto simp: fkey_def tree_holds_def)
    ultimately show ?thesis
      unfolding store_def using R(4) \<open>M = Map.empty\<close> by (simp, intro exI [of _ T'] exI [of _ 0]) simp
  qed
  moreover have "page T' \<noteq> 0" using R(4) by (simp add: tree_holds_def)
  ultimately show ?thesis using R(1,2,3) by (intro exI [of _ s'] exI [of _ "page T'"]) simp
next
  case False
  with assms(1) obtain T h0 where T: "h0 \<le> h" "tree_holds t live s h0 T" "h0 = 0 \<longleftrightarrow> fkey T = []" "M = tree_map T"
    by (auto simp: store_def)
  have ne: "contents T \<noteq> []" using T(2) wf_contents by (auto simp: tree_holds_def)
  have "3 * h0 + 4 \<le> room s" "h0 < fuel" using T(1) assms(3,6) by simp_all
  from Insert_correct [OF T(2) assms(2) this(1) assms(4) this(2)] obtain s' h' T' where
    R: "Insert fuel t s k v = Some (t\<lparr>Root := page T'\<rparr>, s')" "inv s'" "room s \<le> room s' + 3 * h0 + 4"
     "tree_holds (t\<lparr>Root := page T'\<rparr>) live s' h' T'"
     "h' = h0 \<and> contents T' = upd_kv k v (contents T) \<or>
      h' = Suc h0 \<and> contents T' = (if h0 = 0 then tl else id) (upd_kv k v (contents T))" by blast
  have M: "tree_map T' = M(k \<mapsto> v)"
    using R(5) T(3,4) assms(5) ne tree_map_upd [of T' k v T] tree_map_upd_tl [of T' k v T] by (auto split: if_splits)
  have ne': "contents T' \<noteq> []" "sorted_kv (contents T)" using R(4) T(2) wf_contents by (auto simp: tree_holds_def)
  have "h' \<le> Suc h" using R(5) T(1) by auto
  moreover have "h' = 0 \<longleftrightarrow> fkey T' = []"
    using R(5) T(3) fkey_upd [of T' k v T] fkey_upd_tl [of T' k v T] ne ne' assms(5) by (auto split: if_splits)
  moreover have "page T' \<noteq> 0" using R(4) by (simp add: tree_holds_def)
  ultimately have "store (t\<lparr>Root := page T'\<rparr>) live s' (Suc h) (M(k \<mapsto> v))"
    unfolding store_def using R(4) M by (simp, intro exI [of _ T'] exI [of _ h']) simp
  moreover have "room s \<le> room s' + 3 * h + 4" using R(3) T(1) by linarith
  ultimately show ?thesis using R(1,2) \<open>page T' \<noteq> 0\<close> by blast
qed

end

end
