(* ===== verification/Tree_Delete.thy ===== *)
theory Tree_Delete
  imports Tree_Insert
begin

text \<open>
  Deletion (\<^verbatim>\<open>storage/btree.go\<close>: \<open>treeDelete\<close>, \<open>nodeDelete\<close>, \<open>shouldMerge\<close>, \<open>Delete\<close>) removes a key from the
  sorted association list. The new separator of a shortened or merged kid can be longer than the one
  it replaces, and the node is rebuilt in a buffer of one page; \<open>spare D\<close> states the room this needs when the
  lengths of the keys differ by at most \<open>D\<close>. With keys of one length (\<open>D = 0\<close>) every tree has it.
\<close>

section \<open>The specification\<close>

definition del_kv :: "bytes \<Rightarrow> (bytes \<times> bytes) list \<Rightarrow> (bytes \<times> bytes) list" where
  "del_kv k xs = filter (\<lambda>x. fst x \<noteq> k) xs"

lemma del_kv_simps [simp]:
  "del_kv k [] = []" "del_kv k (x # xs) = (if fst x = k then del_kv k xs else x # del_kv k xs)"
  "del_kv k (xs @ ys) = del_kv k xs @ del_kv k ys"
  by (simp_all add: del_kv_def)

lemma del_kv_absent: "k \<notin> fst ` set xs \<Longrightarrow> del_kv k xs = xs"
  unfolding del_kv_def by (rule filter_True) auto

lemma set_del_kv: "set (del_kv k xs) \<subseteq> set xs"
  by (auto simp: del_kv_def)

lemma sorted_del_kv: "sorted_kv xs \<Longrightarrow> sorted_kv (del_kv k xs)"
  by (induction xs) (auto simp: del_kv_def)

lemma map_of_del_kv: "map_of (del_kv k xs) = (map_of xs)(k := None)"
  by (induction xs) (auto simp: del_kv_def fun_eq_iff)

lemma del_kv_nth:
  assumes "sorted_kv kvs" "i < length kvs" "fst (kvs ! i) = k"
  shows "del_kv k kvs = take i kvs @ drop (Suc i) kvs"
proof -
  have split: "kvs = take i kvs @ kvs ! i # drop (Suc i) kvs" using assms(2) by (rule id_take_nth_drop)
  have "sorted_kv (take i kvs @ kvs ! i # drop (Suc i) kvs)" using assms(1) split by simp
  then have "k \<notin> fst ` set (take i kvs)" "k \<notin> fst ` set (drop (Suc i) kvs)"
    using assms(3) by (fastforce simp: sorted_wrt_append)+
  then show ?thesis
    by (subst split) (simp add: del_kv_absent assms(3))
qed

fun spare :: "nat \<Rightarrow> ptree \<Rightarrow> bool" where
  "spare D (PLeaf p kvs) = True"
| "spare D (PNode p cs) = (node_size (map kid_entry cs) + D \<le> 4096 \<and> (\<forall>c \<in> set cs. spare D c))"

definition keys_within :: "nat \<Rightarrow> (bytes \<times> bytes) list \<Rightarrow> bool" where
  "keys_within D xs \<longleftrightarrow> (\<forall>x \<in> set xs. \<forall>y \<in> set xs. length (fst x) \<le> length (fst y) + D)"

section \<open>Nodes that lost all their entries\<close>

definition empty_top :: "nat \<Rightarrow> ptree" where
  "empty_top h = (if h = 0 then PLeaf 0 [] else PNode 0 [])"

lemma empty_top_simps [simp]:
  "contents (empty_top h) = []" "kpages (empty_top h) = []" "top_entries (empty_top h) = []" "kids_at g (empty_top h)"
  by (simp_all add: empty_top_def)

definition wf0 :: "nat \<Rightarrow> ptree \<Rightarrow> bool" where
  "wf0 h T \<longleftrightarrow> wf_tree h T \<or> T = empty_top h"

lemma wf0_top_type: "wf0 h T \<Longrightarrow> top_type T = (if h = 0 then BNODE_LEAF else BNODE_NODE)"
  by (auto simp: wf0_def wf_top_type empty_top_def)

lemma wf0_entries: "wf0 h T \<Longrightarrow> top_entries T \<noteq> [] \<Longrightarrow> wf_tree h T" "wf0 h T \<Longrightarrow> top_entries T = [] \<Longrightarrow> T = empty_top h"
  by (auto simp: wf0_def empty_top_def) (cases T; cases h; auto)+

fun merge_top :: "ptree \<Rightarrow> ptree \<Rightarrow> ptree" where
  "merge_top (PLeaf p xs) (PLeaf q ys) = PLeaf 0 (xs @ ys)"
| "merge_top (PNode p cs) (PNode q ds) = PNode 0 (cs @ ds)"
| "merge_top T U = T"

lemma merge_top_props:
  assumes "wf0 h L" "wf0 h R" "wf_tree h L \<or> wf_tree h R"
  shows "wf_tree h (merge_top L R)" "contents (merge_top L R) = contents L @ contents R"
    "kpages (merge_top L R) = kpages L @ kpages R" "top_entries (merge_top L R) = top_entries L @ top_entries R"
    "top_type (merge_top L R) = top_type L" "kids_at g L \<Longrightarrow> kids_at g R \<Longrightarrow> kids_at g (merge_top L R)"
  using assms by (cases L; cases R; cases h; auto simp: wf0_def empty_top_def)+

lemma fkey_append: "contents L \<noteq> [] \<Longrightarrow> fst (hd (contents L @ xs)) = fkey L"
  by (cases "contents L") (auto simp: fkey_def)

section \<open>Choosing a sibling to merge with\<close>

lemma u16_merged:
  assumes "4 \<le> l" "l \<le> 4096" "4 \<le> u" "u \<le> 4096"
  shows "(of_nat l + of_nat u - HEADER :: u16) \<le> PAGE_SIZE \<longleftrightarrow> l + u \<le> 4100"
proof -
  have "(of_nat l + of_nat u - HEADER :: u16) = of_nat (l + u - 4)"
    using assms by (simp add: of_nat_diff)
  moreover have "(of_nat (l + u - 4) :: u16) \<le> PAGE_SIZE \<longleftrightarrow> l + u - 4 \<le> 4096"
    using u16_of_nat_le [of "l + u - 4" 4096] assms by simp
  ultimately show ?thesis by auto
qed

lemma shouldMerge_node:
  assumes b: "node b BNODE_NODE (map kid_entry cs)" and i: "i < length cs" and u: "node ub ty us" "length ub = 4096"
    and kids: "\<forall>j < length cs. j \<noteq> i \<longrightarrow>
      (\<exists>sb. tget t s (page (cs ! j)) = Some sb \<and> top_at g sb (cs ! j) \<and> length sb = 4096)"
  obtains (left) sb where "shouldMerge t s b (of_nat i) ub = Some (- 1, sb)" "0 < i" "tget t s (page (cs ! (i - 1))) = Some sb"
      "top_at g sb (cs ! (i - 1))" "node_size (top_entries (cs ! (i - 1))) + node_size us \<le> 4100"
    | (right) sb where "shouldMerge t s b (of_nat i) ub = Some (1, sb)" "Suc i < length cs" "tget t s (page (cs ! Suc i)) = Some sb"
      "top_at g sb (cs ! Suc i)" "node_size (top_entries (cs ! Suc i)) + node_size us \<le> 4100"
    | (none) "shouldMerge t s b (of_nat i) ub = Some (0, [])" "us = [] \<Longrightarrow> length cs = 1"
proof -
  have su: "4 \<le> node_size us" "node_size us \<le> 4096" using node_length(1) [OF u(1)] u(2) by (simp_all add: node_size_def)
  note nu = pnode_nbytes [OF u(1)]
  note nk = pnode_nkeys [OF b [unfolded node_def]] and ptr = top_lookup(3) [OF b]
  have len: "length cs < 65536" using pnode_bounds [OF b [unfolded node_def]] by simp
  have z: "(of_nat i :: u16) > 0 \<longleftrightarrow> 0 < i" using u16_of_nat_less [of 0 i] i len by simp
  have pred: "0 < i \<Longrightarrow> (of_nat i - 1 :: u16) = of_nat (i - 1)" by (simp add: of_nat_diff)
  have suc: "(of_nat i + 1 :: u16) < of_nat (length cs) \<longleftrightarrow> Suc i < length cs"
    using u16_of_nat_less [of "Suc i" "length cs"] i len by (simp add: add.commute)
  have small: "1024 < (of_nat (node_size us) :: u16) \<longleftrightarrow> 1024 < node_size us"
    using u16_of_nat_less [of 1024 "node_size us"] su by simp
  have sib: "\<exists>sb. tget t s (page (cs ! j)) = Some sb \<and> top_at g sb (cs ! j) \<and>
      nbytes sb = Some (of_nat (node_size (top_entries (cs ! j)))) \<and>
      ((of_nat (node_size (top_entries (cs ! j))) + of_nat (node_size us) - HEADER :: u16) \<le> PAGE_SIZE \<longleftrightarrow>
       node_size (top_entries (cs ! j)) + node_size us \<le> 4100)" if "j < length cs" "j \<noteq> i" for j
  proof -
    from kids [rule_format, OF that] obtain sb where sb: "tget t s (page (cs ! j)) = Some sb" "top_at g sb (cs ! j)" "length sb = 4096" by blast
    then have nd: "node sb (top_type (cs ! j)) (top_entries (cs ! j))" by (simp add: top_at_def)
    have "4 \<le> node_size (top_entries (cs ! j))" "node_size (top_entries (cs ! j)) \<le> 4096"
      using node_length(1) [OF nd] sb(3) by (simp_all add: node_size_def)
    from u16_merged [OF this su] sb pnode_nbytes [OF nd] show ?thesis by blast
  qed
  have run: "shouldMerge t s b (of_nat i) ub = Some (0, [])" if "1024 < node_size us"
    using that by (simp add: shouldMerge_def nu small)
  let ?l = "node_size (top_entries (cs ! (i - 1))) + node_size us" and ?r = "node_size (top_entries (cs ! Suc i)) + node_size us"
  have lnone: "(if (of_nat i :: u16) > 0 then do {
      p \<leftarrow> getptr b (of_nat i - 1);
      leftSib \<leftarrow> tget t s p;
      l \<leftarrow> nbytes leftSib;
      Some (if l + of_nat (node_size us) - HEADER \<le> PAGE_SIZE then Some leftSib else None) } else Some None) = Some None"
    if "\<not> (0 < i \<and> ?l \<le> 4100)"
  proof (cases "0 < i")
    case True
    have "i - 1 < length cs" "i - 1 \<noteq> i" using True i by simp_all
    from sib [OF this] that True obtain sb where sb: "tget t s (page (cs ! (i - 1))) = Some sb"
      "nbytes sb = Some (of_nat (node_size (top_entries (cs ! (i - 1)))))"
      "\<not> (of_nat (node_size (top_entries (cs ! (i - 1)))) + of_nat (node_size us) - HEADER :: u16) \<le> PAGE_SIZE" by blast
    have "getptr b (of_nat i - 1) = Some (page (cs ! (i - 1)))"
      using ptr [OF \<open>i - 1 < length cs\<close>] pred [OF True] by (simp add: kid_entry_def)
    with sb show ?thesis by simp
  qed (simp add: z)
  consider (big) "1024 < node_size us" | (l) "\<not> 1024 < node_size us" "0 < i" "?l \<le> 4100"
    | (r) "\<not> 1024 < node_size us" "\<not> (0 < i \<and> ?l \<le> 4100)" "Suc i < length cs" "?r \<le> 4100"
    | (n) "\<not> 1024 < node_size us" "\<not> (0 < i \<and> ?l \<le> 4100)" "\<not> (Suc i < length cs \<and> ?r \<le> 4100)" by blast
  then show thesis
  proof cases
    case big
    then have "us \<noteq> []" by (auto simp: node_size_def)
    with none run [OF big] show thesis by blast
  next
    case l
    then have "i - 1 < length cs" "i - 1 \<noteq> i" using i by simp_all
    from sib [OF this] l obtain sb where sb: "tget t s (page (cs ! (i - 1))) = Some sb" "top_at g sb (cs ! (i - 1))"
      "nbytes sb = Some (of_nat (node_size (top_entries (cs ! (i - 1)))))"
      "(of_nat (node_size (top_entries (cs ! (i - 1)))) + of_nat (node_size us) - HEADER :: u16) \<le> PAGE_SIZE"
      by blast
    have "shouldMerge t s b (of_nat i) ub = Some (- 1, sb)"
    proof -
      have "getptr b (of_nat i - 1) = Some (page (cs ! (i - 1)))"
        using ptr [OF \<open>i - 1 < length cs\<close>] pred [OF l(2)] by (simp add: kid_entry_def)
      with l(1,2) sb(1,3,4) show ?thesis by (simp add: shouldMerge_def nu small z)
    qed
    then show thesis by (rule left [OF _ l(2) sb(1,2) l(3)])
  next
    case r
    then have "Suc i \<noteq> i" by simp
    from sib [OF r(3) this] r obtain sb where sb: "tget t s (page (cs ! Suc i)) = Some sb" "top_at g sb (cs ! Suc i)"
      "nbytes sb = Some (of_nat (node_size (top_entries (cs ! Suc i))))"
      "(of_nat (node_size (top_entries (cs ! Suc i))) + of_nat (node_size us) - HEADER :: u16) \<le> PAGE_SIZE"
      by blast
    have "shouldMerge t s b (of_nat i) ub = Some (1, sb)"
      using r sb ptr [of "Suc i"] suc lnone [OF r(2)]
      by (simp add: shouldMerge_def nu small nk kid_entry_def add.commute [of 1])
    then show thesis by (rule right [OF _ r(3) sb(1,2) r(4)])
  next
    case n
    have "shouldMerge t s b (of_nat i) ub = Some (0, [])"
    proof (cases "Suc i < length cs")
      case True
      have "Suc i \<noteq> i" by simp
      from sib [OF True this] n(3) True obtain sb where sb: "tget t s (page (cs ! Suc i)) = Some sb"
        "nbytes sb = Some (of_nat (node_size (top_entries (cs ! Suc i))))"
        "\<not> (of_nat (node_size (top_entries (cs ! Suc i))) + of_nat (node_size us) - HEADER :: u16) \<le> PAGE_SIZE" by blast
      then show ?thesis
        using n True ptr [of "Suc i"] suc lnone [OF n(2)]
        by (simp add: shouldMerge_def nu small nk kid_entry_def add.commute [of 1])
    next
      case False
      then show ?thesis using n suc lnone [OF n(2)] by (simp add: shouldMerge_def nu small nk)
    qed
    moreover have "length cs = 1" if "us = []"
    proof -
      have "node_size us = 4" using that by (simp add: node_size_def)
      moreover have "node_size (top_entries (cs ! j)) \<le> 4096" if "j < length cs" "j \<noteq> i" for j
        using kids [rule_format, OF that] node_length(1) by (fastforce simp: top_at_def)
      ultimately have "\<not> 0 < i" "\<not> Suc i < length cs" using n(2,3) i by fastforce+
      then show ?thesis using i by linarith
    qed
    ultimately show thesis using none by blast
  qed
qed

section \<open>Rebuilding the parent\<close>

context pager
begin

text \<open>The page \<open>pd\<close> of the sibling is freed, the merged node allocated, and the two kids \<open>j\<close>, \<open>j + 1\<close> replaced.\<close>

lemma replace2_alloc:
  assumes s: "inv s" "pd \<in> live s" "2 \<le> room s" and V: "top_at (tget t s) mb V" "length mb = 4096" "wf_tree h V"
    and b: "node b BNODE_NODE (map kid_entry cs)" and j: "Suc j < length cs"
    and size: "node_size (map kid_entry (take j cs @ [V] @ drop (Suc (Suc j)) cs)) \<le> 4096"
  shows "\<exists>s1 s' p b'. tdel t s pd = Some s1 \<and> tnew t s1 mb = Some (s', p) \<and> getKey mb 0 = Some (fkey V) \<and>
     nodeReplace2Kid (make_bytes 4096) b (of_nat j) p (fkey V) = Some b' \<and> inv s' \<and> room s \<le> room s' + 2 \<and>
     set [p] \<inter> (live s - {pd}) = {} \<and> set [p] \<union> (live s - {pd}) \<subseteq> live s' \<and> tget t s' p = Some mb \<and>
     (\<forall>q \<in> live s - {pd}. tget t s' q = tget t s q) \<and>
     node b' BNODE_NODE (map kid_entry (take j cs @ [setpage p V] @ drop (Suc (Suc j)) cs)) \<and> length b' = 4096"
proof -
  have "0 < room s" using s(3) by simp
  from del_ok [OF s(1) this s(2)] obtain s1 where s1: "tdel t s pd = Some s1" "inv s1" "room s \<le> Suc (room s1)"
    "live s - {pd} \<subseteq> live s1" "\<forall>q \<in> live s - {pd}. tget t s1 q = tget t s q" by blast
  have "0 < room s1" using s1(3) s(3) by simp
  from new_ok [OF s1(2) this V(2)] obtain s' p where s': "tnew t s1 mb = Some (s', p)" "inv s'" "room s1 \<le> Suc (room s')"
    "p \<notin> live s1" "insert p (live s1) \<subseteq> live s'" "tget t s' p = Some mb" "\<forall>q \<in> live s1. tget t s' q = tget t s1 q" by blast
  have "node_size (take j (map kid_entry cs) @ (p, fkey V, []) # drop (Suc (Suc j)) (map kid_entry cs)) \<le> length (make_bytes 4096)"
  proof -
    have "kv_len (p, fkey V, []) = 4 + length (fkey V)" by (simp add: kv_len_def)
    then show ?thesis using size by (simp add: node_size_def take_map drop_map)
  qed
  with nodeReplace2Kid_node [OF b, of j p "fkey V" "make_bytes 4096"] j obtain b' where
    b': "nodeReplace2Kid (make_bytes 4096) b (of_nat j) p (fkey V) = Some b'"
      "node b' BNODE_NODE (take j (map kid_entry cs) @ (p, fkey V, []) # drop (Suc (Suc j)) (map kid_entry cs))" "length b' = 4096"
    by auto
  have "\<forall>q \<in> live s - {pd}. tget t s' q = tget t s q"
  proof
    fix q assume q: "q \<in> live s - {pd}"
    then have "q \<in> live s1" using s1(4) by blast
    then show "tget t s' q = tget t s q" using s'(7) s1(5) q by simp
  qed
  moreover have "set [p] \<inter> (live s - {pd}) = {}" "set [p] \<union> (live s - {pd}) \<subseteq> live s'" using s'(4,5) s1(4) by auto
  moreover have "room s \<le> room s' + 2" using s1(3) s'(3) by simp
  moreover have "node b' BNODE_NODE (map kid_entry (take j cs @ [setpage p V] @ drop (Suc (Suc j)) cs))"
    using b'(2) by (simp add: take_map drop_map)
  ultimately show ?thesis using s1(1) s'(1,2,6) b'(1,3) top_key [OF V(3,1)]
    by (intro exI [of _ s1] exI [of _ s'] exI [of _ p] exI [of _ b'] conjI)
qed

definition deleted :: "nat \<Rightarrow> 's \<Rightarrow> ptree \<Rightarrow> u64 set \<Rightarrow> bytes \<Rightarrow> 's \<Rightarrow> bytes \<Rightarrow> ptree \<Rightarrow> bool" where
  "deleted h s T F k s' b' T' \<longleftrightarrow>
     length b' = 4096 \<and> inv s' \<and> wf0 h T' \<and> top_at (tget t s') b' T' \<and>
     contents T' = del_kv k (contents T) \<and> distinct (kpages T') \<and>
     set (kpages T') \<subseteq> live s' \<and> F \<subseteq> live s' \<and> F \<inter> set (kpages T') = {} \<and>
     (\<forall>q \<in> F. tget t s' q = tget t s q) \<and> room s \<le> room s' + 2 * h"

lemma treeDelete_leaf:
  assumes "top_at (tget t s) b (PLeaf p kvs)" "kvs \<noteq> []" "sorted_kv kvs" "length b = 4096" "inv s" "F \<subseteq> live s" "0 < fuel"
  shows "if k \<in> fst ` set kvs
     then \<exists>b'. treeDelete fuel t s b k = Some (s, b') \<and> deleted 0 s (PLeaf p kvs) F k s b' (PLeaf 0 (del_kv k kvs))
     else treeDelete fuel t s b k = Some (s, [])"
proof -
  from assms(1) have b: "node b BNODE_LEAF (map leaf_entry kvs)" by (simp add: top_at_def)
  define i where "i = lookup_le (map fst kvs) k"
  note leaf = lookup_leaf [OF assms(3,2), of k, folded i_def]
  have look: "nodeLookupLE b k = Some (of_nat i)" using nodeLookupLE_node [OF b] assms(3) by (simp add: i_def)
  have key: "getKey b (of_nat i) = Some (fst (kvs ! i))" using top_lookup(1) [OF b leaf(1)] by simp
  obtain f where f: "fuel = Suc f" using assms(7) by (cases fuel) auto
  note bt = pnode_btype [OF b [unfolded node_def]]
  show ?thesis
  proof (cases "k \<in> fst ` set kvs")
    case False
    then have "fst (kvs ! i) \<noteq> k" using leaf(1) by auto
    with False show ?thesis using look key bt by (simp add: f)
  next
    case True
    then have k: "fst (kvs ! i) = k" using leaf(2) by (auto simp: map_of_eq_None_iff)
    note del = del_kv_nth [OF assms(3) leaf(1) k]
    have "node_size (map leaf_entry kvs) \<le> 4096" using node_length(1) [OF b] assms(4) by simp
    moreover have "kvs_len (map leaf_entry kvs) = kvs_len (map leaf_entry (take i kvs @ kvs ! i # drop (Suc i) kvs))"
      using id_take_nth_drop [OF leaf(1)] by simp
    ultimately have "node_size (take i (map leaf_entry kvs) @ drop (Suc i) (map leaf_entry kvs)) \<le> length (make_bytes PAGE_SIZE)"
      using leaf(1) by (simp add: node_size_def take_map drop_map)
    with leafDelete_node [OF b, of i "make_bytes PAGE_SIZE"] leaf(1) obtain b' where
      b': "leafDelete (make_bytes PAGE_SIZE) b (of_nat i) = Some b'" "length b' = 4096"
        "node b' BNODE_LEAF (take i (map leaf_entry kvs) @ drop (Suc i) (map leaf_entry kvs))" by auto
    have "top_at (tget t s) b' (PLeaf 0 (del_kv k kvs))" using b'(3) by (simp add: top_at_def del take_map drop_map)
    moreover have "wf0 0 (PLeaf 0 (del_kv k kvs))" by (simp add: wf0_def empty_top_def)
    ultimately have "deleted 0 s (PLeaf p kvs) F k s b' (PLeaf 0 (del_kv k kvs))"
      using b'(2) assms(5,6) by (simp add: deleted_def)
    moreover have "treeDelete fuel t s b k = Some (s, b')" using look key bt b'(1) k by (simp add: f)
    ultimately show ?thesis using True by auto
  qed
qed

end


lemma keys_outside:
  "\<forall>x \<in> set A. fst x < k \<Longrightarrow> k \<notin> fst ` set A" "\<forall>x \<in> set A. k < fst x \<Longrightarrow> k \<notin> fst ` set A" for k :: bytes
  by fastforce+

lemma lookup_kid_del:
  assumes "\<forall>c \<in> set cs. contents c \<noteq> []" "cs \<noteq> []" "sorted_kv (concat (map contents cs))"
    and "i = lookup_le (map fkey cs) k"
  shows "del_kv k (concat (map contents cs)) = concat (map contents (take i cs)) @
      del_kv k (contents (cs ! i)) @ concat (map contents (drop (Suc i) cs))"
    and "k \<in> fst ` set (concat (map contents cs)) \<longleftrightarrow> k \<in> fst ` set (contents (cs ! i))"
proof -
  note kid = lookup_kid [OF assms(1-3), of k, folded assms(4)]
  have out: "k \<notin> fst ` set (concat (map contents (take i cs)))" "k \<notin> fst ` set (concat (map contents (drop (Suc i) cs)))"
    using keys_outside(1) [OF kid(2)] keys_outside(2) [OF kid(3)] by blast+
  show "del_kv k (concat (map contents cs)) = concat (map contents (take i cs)) @
      del_kv k (contents (cs ! i)) @ concat (map contents (drop (Suc i) cs))"
    using del_kv_absent [OF out(1)] del_kv_absent [OF out(2)] by (simp only: concat_kids [OF kid(1)] del_kv_simps(3))
  show "k \<in> fst ` set (concat (map contents cs)) \<longleftrightarrow> k \<in> fst ` set (contents (cs ! i))"
    using out by (simp only: concat_kids [OF kid(1)] set_append image_Un Un_iff) blast
qed

text \<open>Two neighbouring kids, and the rest.\<close>

lemma two_kids:
  assumes "Suc j < length cs"
  shows "cs = take j cs @ [cs ! j, cs ! Suc j] @ drop (Suc (Suc j)) cs"
  using assms by (metis Cons_nth_drop_Suc Suc_lessD append_Cons append_Nil append_take_drop_id)

lemma two_kids_pages:
  assumes "Suc j < length cs" "distinct (concat (map pages cs))" "F \<inter> set (concat (map pages cs)) = {}"
  defines "rest \<equiv> take j cs @ drop (Suc (Suc j)) cs"
  shows "distinct (pages (cs ! j))" "distinct (pages (cs ! Suc j))" "set (pages (cs ! j)) \<inter> set (pages (cs ! Suc j)) = {}"
    "(set (pages (cs ! j)) \<union> set (pages (cs ! Suc j))) \<inter> (F \<union> set (concat (map pages rest))) = {}"
    "F \<inter> set (concat (map pages rest)) = {}" "distinct (concat (map pages rest))"
proof -
  have "concat (map pages cs) = concat (map pages (take j cs)) @ pages (cs ! j) @ pages (cs ! Suc j) @
      concat (map pages (drop (Suc (Suc j)) cs))"
    by (subst two_kids [OF assms(1)]) simp
  then show "distinct (pages (cs ! j))" "distinct (pages (cs ! Suc j))" "set (pages (cs ! j)) \<inter> set (pages (cs ! Suc j)) = {}"
    "(set (pages (cs ! j)) \<union> set (pages (cs ! Suc j))) \<inter> (F \<union> set (concat (map pages rest))) = {}"
    "F \<inter> set (concat (map pages rest)) = {}" "distinct (concat (map pages rest))"
    using assms(2,3) unfolding rest_def by auto
qed

text \<open>The rebuilt node is no larger than the old one, up to the difference of the separators.\<close>

lemma node_size_one:
  assumes "i < length cs" "length (fkey U) \<le> length (fkey (cs ! i)) + D" "node_size (map kid_entry cs) + D \<le> 4096"
  shows "node_size (map kid_entry (take i cs @ [U] @ drop (Suc i) cs)) \<le> 4096"
proof -
  have "node_size (map kid_entry cs) = node_size (map kid_entry (take i cs @ cs ! i # drop (Suc i) cs))"
    using id_take_nth_drop [OF assms(1)] by simp
  then show ?thesis using assms(2,3) by (simp add: node_size_def)
qed

lemma node_size_two:
  assumes "Suc j < length cs" "length (fkey V) \<le> length (fkey (cs ! j)) + D" "node_size (map kid_entry cs) + D \<le> 4096"
  shows "node_size (map kid_entry (take j cs @ [V] @ drop (Suc (Suc j)) cs)) \<le> 4096"
proof -
  have "node_size (map kid_entry cs) = node_size (map kid_entry (take j cs @ [cs ! j, cs ! Suc j] @ drop (Suc (Suc j)) cs))"
    using two_kids [OF assms(1)] by simp
  then show ?thesis using assms(2,3) by (simp add: node_size_def)
qed

lemma keys_within_fkey:
  assumes "keys_within D (concat (map contents cs))" "c \<in> set cs" "contents c \<noteq> []" "contents U \<noteq> []"
    and "set (contents U) \<subseteq> set (concat (map contents cs))"
  shows "length (fkey U) \<le> length (fkey c) + D"
proof -
  have "hd (contents U) \<in> set (concat (map contents cs))" using assms(4,5) by (meson hd_in_set subsetD)
  moreover have "hd (contents c) \<in> set (concat (map contents cs))" using assms(2) hd_in_set [OF assms(3)] by auto
  ultimately show ?thesis using assms(1) unfolding keys_within_def fkey_def by blast
qed


lemma other_in_rest:
  assumes "i < length cs" "m < length cs" "m \<noteq> i"
  shows "cs ! m \<in> set (take i cs @ drop (Suc i) cs)"
proof (cases "m < i")
  case True
  then have "cs ! m = take i cs ! m" "m < length (take i cs)" using assms by simp_all
  then show ?thesis by (metis UnI1 nth_mem set_append)
next
  case False
  then have "cs ! m = drop (Suc i) cs ! (m - Suc i)" "m - Suc i < length (drop (Suc i) cs)" using assms by simp_all
  then show ?thesis by (metis UnI2 nth_mem set_append)
qed

lemma other_kids:
  assumes "i < length cs" "m < length cs" "i = j \<and> m = Suc j \<or> i = Suc j \<and> m = j"
  shows "cs ! m \<in> set (take i cs @ drop (Suc i) cs)"
    and "set (take j cs @ drop (Suc (Suc j)) cs) \<subseteq> set (take i cs @ drop (Suc i) cs)"
proof -
  have "m \<noteq> i" using assms(3) by auto
  then show "cs ! m \<in> set (take i cs @ drop (Suc i) cs)" by (rule other_in_rest [OF assms(1,2)])
  show "set (take j cs @ drop (Suc (Suc j)) cs) \<subseteq> set (take i cs @ drop (Suc i) cs)"
    using assms(3) set_take_subset_set_take [of j "Suc j" cs] set_drop_subset_set_drop [of "Suc j" "Suc (Suc j)" cs] by auto
qed

text \<open>Where the kids are after two neighbours became \<open>V\<close>.\<close>

context pager
begin

lemma merged_kids:
  assumes kid: "deleted h s (cs ! i) F' k s1 ub U"
    and im: "i < length cs" "m < length cs" "i = j \<and> m = Suc j \<or> i = Suc j \<and> m = j" and j: "Suc j < length cs"
    and F': "F' = F \<union> insert (page (cs ! i)) (set (concat (map pages (take i cs @ drop (Suc i) cs))))"
    and tree: "wf_tree (Suc h) (PNode p cs)" "kids_at (tget t s) (PNode p cs)"
      "distinct (concat (map pages cs))" "F \<inter> set (concat (map pages cs)) = {}"
    and V: "wf_tree h V" "set (kpages V) = set (kpages (cs ! m)) \<union> set (kpages U)"
      "distinct (kpages (cs ! m)) \<Longrightarrow> distinct (kpages U) \<Longrightarrow> set (kpages (cs ! m)) \<inter> set (kpages U) = {} \<Longrightarrow> distinct (kpages V)"
      "top_at (tget t s1) mb V" "length mb = 4096"
      "concat (map contents (take j cs)) @ contents V @ concat (map contents (drop (Suc (Suc j)) cs)) = del_kv k (concat (map contents cs))"
    and old: "node b BNODE_NODE (map kid_entry cs)" and room: "2 * Suc h \<le> room s"
    and size: "node_size (map kid_entry (take j cs @ [V] @ drop (Suc (Suc j)) cs)) \<le> 4096"
  shows "\<exists>s2 s' q b' T'. tdel t s1 (page (cs ! m)) = Some s2 \<and> tnew t s2 mb = Some (s', q) \<and> getKey mb 0 = Some (fkey V) \<and>
     nodeReplace2Kid (make_bytes 4096) b (of_nat j) q (fkey V) = Some b' \<and> deleted (Suc h) s (PNode p cs) F k s' b' T'"
proof -
  let ?rest = "take j cs @ drop (Suc (Suc j)) cs" and ?c = "cs ! i" and ?d = "cs ! m"
  from kid have U: "inv s1" "distinct (kpages U)" "set (kpages U) \<subseteq> live s1" "F' \<subseteq> live s1" "F' \<inter> set (kpages U) = {}"
    "\<forall>q \<in> F'. tget t s1 q = tget t s q" "room s \<le> room s1 + 2 * h" by (simp_all add: deleted_def)
  note two = two_kids_pages [OF j tree(3,4)]
  note dist = kid_pages_distinct [OF im(1) tree(3,4), folded F']
  note oth = other_kids [OF im]
  have d: "set (pages ?d) \<subseteq> F'" "set (concat (map pages ?rest)) \<subseteq> F'" "F \<subseteq> F'"
    using oth unfolding F' by auto
  have L: "page ?d \<in> live s1" "set (kpages V) \<subseteq> live s1" "F \<union> insert (page ?d) (set (concat (map pages ?rest))) \<subseteq> live s1"
    using d U(3,4) unfolding V(2) by (auto simp: pages_eq)
  have dd: "distinct (pages ?d)" "set (pages ?d) \<inter> (F \<union> set (concat (map pages ?rest))) = {}"
    using im(3) two(1,2,4) by auto
  have K: "(F \<union> insert (page ?d) (set (concat (map pages ?rest)))) \<inter> set (kpages V) = {}" "distinct (kpages V)"
  proof -
    show "distinct (kpages V)" using dd(1) U(2,5) d(1) by (intro V(3)) (auto simp: pages_eq)
    have "page ?d \<notin> set (kpages ?d)" using dd(1) by (simp add: pages_eq)
    moreover have "set (kpages ?d) \<subseteq> set (pages ?d)" "page ?d \<in> F'" using d(1) by (auto simp: pages_eq)
    ultimately show "(F \<union> insert (page ?d) (set (concat (map pages ?rest)))) \<inter> set (kpages V) = {}"
      unfolding V(2) using dd(2) U(5) d by blast
  qed
  have "2 \<le> room s1" using U(7) room by simp
  from replace2_alloc [OF U(1) L(1) this V(4,5,1) old j size] obtain s2 s' q b' where
    R: "tdel t s1 (page ?d) = Some s2" "tnew t s2 mb = Some (s', q)" "getKey mb 0 = Some (fkey V)"
     "nodeReplace2Kid (make_bytes 4096) b (of_nat j) q (fkey V) = Some b'" "inv s'" "room s1 \<le> room s' + 2"
     "set [q] \<inter> (live s1 - {page ?d}) = {}" "set [q] \<union> (live s1 - {page ?d}) \<subseteq> live s'" "tget t s' q = Some mb"
     "\<forall>q \<in> live s1 - {page ?d}. tget t s' q = tget t s1 q"
     "node b' BNODE_NODE (map kid_entry (take j cs @ [setpage q V] @ drop (Suc (Suc j)) cs))" "length b' = 4096" by blast
  have kV: "set (concat (map kpages [V])) = set (kpages V)" "distinct (concat (map kpages [V])) = distinct (kpages V)" by simp_all
  have rest: "\<forall>c \<in> set ?rest. tree_at (tget t s) c" using tree(2) by (auto dest: in_set_takeD in_set_dropD)
  have pd: "page ?d \<notin> F" "page ?d \<notin> set (concat (map pages ?rest))" using dd(2) by (auto simp: pages_eq)
  have same: "\<forall>q \<in> F \<union> insert (page ?d) (set (concat (map pages ?rest))). tget t s1 q = tget t s q"
    using U(6) d by (auto simp: pages_eq)
  note shape = replaced_shape [OF rest, of F "page ?d" "[V]" "live s1" "tget t s1" "tget t s'" "[q]" "live s'" "[mb]" h,
      unfolded kV, OF K(1) pd two(5) L(3,2) same R(10) _ R(7,8) _ _ _ K(2)]
  have q: "length [q] = length [V]" "distinct [q]" "list_all2 (\<lambda>p b. tget t s' p = Some b) [q] [mb]"
    "parts_at (tget t s1) h [mb] [V]" using R(9) V(1,4,5) by simp_all
  have "map2 setpage [q] [V] = [setpage q V]" by simp
  note shape = shape [OF q(1,2,3,4), unfolded this]
  let ?cs' = "take j cs @ [setpage q V] @ drop (Suc (Suc j)) cs"
  have wf': "wf0 (Suc h) (PNode 0 ?cs')"
    using tree(1) V(1) by (auto simp: wf0_def dest: in_set_takeD in_set_dropD)
  have cont: "contents (PNode 0 ?cs') = del_kv k (contents (PNode p cs))" using V(6) by simp
  have top: "top_at (tget t s') b' (PNode 0 ?cs')" using R(11) shape(1) by (auto simp: top_at_def)
  have kp: "set (kpages (PNode 0 ?cs')) = set (concat (map pages ?rest)) \<union> set (concat (map pages [setpage q V]))"
    by auto
  have dist': "distinct (kpages (PNode 0 ?cs'))" using two(6) shape(6,7) by auto
  have room': "room s \<le> room s' + 2 * Suc h" using R(6) U(7) by simp
  have "deleted (Suc h) s (PNode p cs) F k s' b' (PNode 0 ?cs')"
    unfolding deleted_def kp
    using R(5,12) wf' cont top dist' shape(2-5,7) room' two(5) by blast
  then show ?thesis using R(1-4) by blast
qed

end

context pager
begin

lemma kept_kid:
  assumes kid: "deleted h s (cs ! i) F' k s1 ub U" and i: "i < length cs"
    and F': "F' = F \<union> insert (page (cs ! i)) (set (concat (map pages (take i cs @ drop (Suc i) cs))))"
    and tree: "wf_tree (Suc h) (PNode p cs)" "kids_at (tget t s) (PNode p cs)"
      "distinct (concat (map pages cs))" "F \<inter> set (concat (map pages cs)) = {}"
    and U: "wf_tree h U"
      "concat (map contents (take i cs)) @ contents U @ concat (map contents (drop (Suc i) cs)) = del_kv k (concat (map contents cs))"
    and old: "node b BNODE_NODE (map kid_entry cs)" and room: "2 * Suc h \<le> room s"
    and size: "node_size (map kid_entry (take i cs @ [U] @ drop (Suc i) cs)) \<le> 4096"
  shows "\<exists>s' b' T'. nodeReplaceKidN t s1 (make_bytes 4096) b (of_nat i) [ub] = Some (s', b') \<and>
     deleted (Suc h) s (PNode p cs) F k s' b' T'"
proof -
  let ?rest = "take i cs @ drop (Suc i) cs" and ?c = "cs ! i"
  from kid have D: "length ub = 4096" "inv s1" "top_at (tget t s1) ub U" "distinct (kpages U)" "set (kpages U) \<subseteq> live s1"
    "F' \<subseteq> live s1" "F' \<inter> set (kpages U) = {}" "\<forall>q \<in> F'. tget t s1 q = tget t s q" "room s \<le> room s1 + 2 * h"
    by (simp_all add: deleted_def)
  note dist = kid_pages_distinct [OF i tree(3,4), folded F']
  have parts: "parts_at (tget t s1) h [ub] [U]" "length [ub] \<le> room s1" "0 < length [ub]" "length (make_bytes 4096) < 65536"
    "node_size (map kid_entry (take i cs @ [U] @ drop (Suc i) cs)) \<le> length (make_bytes 4096)"
    using D(1,3,9) U(1) room size by simp_all
  obtain s' b' ps where
    R: "nodeReplaceKidN t s1 (make_bytes 4096) b (of_nat i) [ub] = Some (s', b')" "inv s'" "room s1 \<le> room s' + length [ub]"
     "length ps = length [U]" "distinct ps" "set ps \<inter> live s1 = {}" "set ps \<union> live s1 \<subseteq> live s'"
     "\<forall>q \<in> live s1. tget t s' q = tget t s1 q" "list_all2 (\<lambda>p b. tget t s' p = Some b) ps [ub]"
     "node b' BNODE_NODE (map kid_entry (take i cs @ map2 setpage ps [U] @ drop (Suc i) cs))" "length b' = length (make_bytes 4096)"
    using nodeReplaceKidN_parts [OF D(2) parts(1-3) old i parts(5,4)] by (elim exE conjE) (rule that)
  have kU: "set (concat (map kpages [U])) = set (kpages U)" "distinct (concat (map kpages [U])) = distinct (kpages U)" by simp_all
  have rest: "\<forall>c \<in> set ?rest. tree_at (tget t s) c" using tree(2) by (auto dest: in_set_takeD in_set_dropD)
  have out: "set ps \<inter> (live s1 - {page ?c}) = {}" "set ps \<union> (live s1 - {page ?c}) \<subseteq> live s'"
    "\<forall>q \<in> live s1 - {page ?c}. tget t s' q = tget t s1 q" using R(6-8) by blast+
  note shape = replaced_shape [OF rest, of F "page ?c" "[U]" "live s1" "tget t s1" "tget t s'" ps "live s'" "[ub]" h,
      unfolded kU, folded F', OF D(7) dist(1,2,3) D(6,5,8) out(3) R(4) out(1,2) R(5,9) parts(1) D(4)]
  let ?cs' = "take i cs @ map2 setpage ps [U] @ drop (Suc i) cs"
  have wf': "wf0 (Suc h) (PNode 0 ?cs')"
    using tree(1) setpage_list(4) [OF R(4), of h] U(1) R(4) by (auto simp: wf0_def dest: in_set_takeD in_set_dropD)
  have cont: "contents (PNode 0 ?cs') = del_kv k (contents (PNode p cs))"
    using U(2) setpage_list(1) [OF R(4)] by (simp del: map_map)
  have top: "top_at (tget t s') b' (PNode 0 ?cs')" using R(10) shape(1) by (auto simp: top_at_def)
  have kp: "set (kpages (PNode 0 ?cs')) = set (concat (map pages ?rest)) \<union> set (concat (map pages (map2 setpage ps [U])))"
    by auto
  have dist': "distinct (kpages (PNode 0 ?cs'))" using dist(4) shape(6,7) by auto
  have room': "room s \<le> room s' + 2 * Suc h" "length b' = 4096" using R(3,11) D(9) by simp_all
  have "deleted (Suc h) s (PNode p cs) F k s' b' (PNode 0 ?cs')"
    unfolding deleted_def kp
    using R(2) wf' cont top dist' shape(2-5,7) room' dist(3) by blast
  then show ?thesis using R(1) by blast
qed

text \<open>One level of \<open>nodeDelete\<close>, after the kid has been updated.\<close>

definition rebuild :: "'s \<Rightarrow> BNode \<Rightarrow> u16 \<Rightarrow> BNode \<Rightarrow> ('s \<times> BNode) option" where
  "rebuild s nd idx updated = do {
       (mergeDir, sibling) \<leftarrow> shouldMerge t s nd idx updated;
       un \<leftarrow> nkeys updated;
       if mergeDir < 0 then do {
         merged \<leftarrow> nodeMerge (make_bytes PAGE_SIZE) sibling updated;
         p \<leftarrow> getptr nd (idx - 1);
         s \<leftarrow> tdel t s p;
         (s, mp) \<leftarrow> tnew t s merged;
         mk \<leftarrow> getKey merged 0;
         new \<leftarrow> nodeReplace2Kid (make_bytes PAGE_SIZE) nd (idx - 1) mp mk;
         Some (s, new) }
       else if mergeDir > 0 then do {
         merged \<leftarrow> nodeMerge (make_bytes PAGE_SIZE) updated sibling;
         p \<leftarrow> getptr nd (idx + 1);
         s \<leftarrow> tdel t s p;
         (s, mp) \<leftarrow> tnew t s merged;
         mk \<leftarrow> getKey merged 0;
         new \<leftarrow> nodeReplace2Kid (make_bytes PAGE_SIZE) nd idx mp mk;
         Some (s, new) }
       else if un = 0 then do {
         n \<leftarrow> nkeys nd;
         if n = 1 \<and> idx = 0 then do {
           new \<leftarrow> setHeader (make_bytes PAGE_SIZE) BNODE_NODE 0;
           Some (s, new) }
         else Some (s, make_bytes PAGE_SIZE) }
       else nodeReplaceKidN t s (make_bytes PAGE_SIZE) nd idx [updated] }"

lemma merge_step:
  assumes kid: "deleted h s (cs ! i) F' k s1 ub U" and i: "i < length cs" "i = lookup_le (map fkey cs) k"
    and im: "m < length cs" "i = j \<and> m = Suc j \<or> i = Suc j \<and> m = j" "Suc j < length cs"
    and F': "F' = F \<union> insert (page (cs ! i)) (set (concat (map pages (take i cs @ drop (Suc i) cs))))"
    and tree: "wf_tree (Suc h) (PNode p cs)" "kids_at (tget t s) (PNode p cs)" "sorted_kv (concat (map contents cs))"
      "distinct (concat (map pages cs))" "F \<inter> set (concat (map pages cs)) = {}"
    and D: "keys_within D (concat (map contents cs))" "node_size (map kid_entry cs) + D \<le> 4096"
    and old: "node b BNODE_NODE (map kid_entry cs)" and room: "2 * Suc h \<le> room s"
    and sib: "top_at (tget t s1) sb (cs ! m)" "node_size (top_entries (cs ! m)) + node_size (top_entries U) \<le> 4100"
    and LR: "L = (if m = j then cs ! m else U)" "R = (if m = j then U else cs ! m)"
      "lb = (if m = j then sb else ub)" "rb = (if m = j then ub else sb)"
  shows "\<exists>mb key s2 s' q b' T'. nodeMerge (make_bytes 4096) lb rb = Some mb \<and> tdel t s1 (page (cs ! m)) = Some s2 \<and>
     tnew t s2 mb = Some (s', q) \<and> getKey mb 0 = Some key \<and> nodeReplace2Kid (make_bytes 4096) b (of_nat j) q key = Some b' \<and>
     deleted (Suc h) s (PNode p cs) F k s' b' T'"
proof -
  let ?V = "merge_top L R"
  have ne: "\<forall>c \<in> set cs. contents c \<noteq> []" "cs \<noteq> []" using tree(1) wf_contents by auto
  have m: "cs ! m \<in> set cs" "cs ! j \<in> set cs" using im by auto
  have U: "wf0 h U" "top_at (tget t s1) ub U" "contents U = del_kv k (contents (cs ! i))" using kid by (simp_all add: deleted_def)
  have wfm: "wf_tree h (cs ! m)" using tree(1) m by simp
  have tops: "top_at (tget t s1) lb L" "top_at (tget t s1) rb R" "wf0 h L" "wf0 h R" "wf_tree h L \<or> wf_tree h R"
    using U(1,2) sib(1) wfm unfolding LR wf0_def by (cases "m = j"; simp)+
  note V = merge_top_props [OF tops(3-5)]
  have nodes: "node lb (top_type L) (top_entries L)" "node rb (top_type R) (top_entries R)"
    using tops(1,2) by (simp_all add: top_at_def)
  have sz: "node_size (top_entries L @ top_entries R) \<le> length (make_bytes 4096)"
    using sib(2) unfolding LR by (cases "m = j") (simp_all add: node_size_def)
  from nodeMerge_node [OF nodes sz] obtain mb where
    mb: "nodeMerge (make_bytes 4096) lb rb = Some mb" "node mb (top_type L) (top_entries L @ top_entries R)" "length mb = 4096"
    by auto
  have topV: "top_at (tget t s1) mb ?V" using mb(2) tops(1,2) V(4-6) by (simp add: top_at_def)
  have kpV: "set (kpages ?V) = set (kpages (cs ! m)) \<union> set (kpages U)" unfolding V(3) by (auto simp: LR)
  have dV: "distinct (kpages ?V)"
    if "distinct (kpages (cs ! m))" "distinct (kpages U)" "set (kpages (cs ! m)) \<inter> set (kpages U) = {}"
    using that unfolding V(3) by (auto simp: LR)
  have "take (Suc j) cs = take j cs @ [cs ! j]" "drop (Suc j) cs = cs ! Suc j # drop (Suc (Suc j)) cs"
    using im(3) by (simp_all add: take_Suc_conv_app_nth Cons_nth_drop_Suc)
  then have cV: "concat (map contents (take j cs)) @ contents ?V @ concat (map contents (drop (Suc (Suc j)) cs)) =
      del_kv k (concat (map contents cs))"
    using im(2) unfolding lookup_kid_del(1) [OF ne tree(3) i(2)] V(2) by (auto simp: U(3) LR)
  have "contents ?V \<noteq> []" using V(1) by (rule wf_contents)
  moreover have "set (contents ?V) \<subseteq> set (del_kv k (concat (map contents cs)))" unfolding cV [symmetric] by auto
  then have "set (contents ?V) \<subseteq> set (concat (map contents cs))" using set_del_kv by blast
  ultimately have "length (fkey ?V) \<le> length (fkey (cs ! j)) + D"
    using keys_within_fkey [OF D(1) m(2)] ne(1) m(2) by blast
  then have size: "node_size (map kid_entry (take j cs @ [?V] @ drop (Suc (Suc j)) cs)) \<le> 4096"
    using node_size_two [OF im(3)] D(2) by blast
  from merged_kids [OF kid i(1) im F' tree(1,2,4,5) V(1) kpV dV topV mb(3) cV old room size]
  obtain s2 s' q b' T' where "tdel t s1 (page (cs ! m)) = Some s2" "tnew t s2 mb = Some (s', q)" "getKey mb 0 = Some (fkey ?V)"
     "nodeReplace2Kid (make_bytes 4096) b (of_nat j) q (fkey ?V) = Some b'" "deleted (Suc h) s (PNode p cs) F k s' b' T'" by blast
  with mb(1) show ?thesis by blast
qed

lemma rebuilt:
  assumes kid: "deleted h s (cs ! i) F' k s1 ub U" and i: "i < length cs" "i = lookup_le (map fkey cs) k"
    and F': "F' = F \<union> insert (page (cs ! i)) (set (concat (map pages (take i cs @ drop (Suc i) cs))))"
    and tree: "wf_tree (Suc h) (PNode p cs)" "kids_at (tget t s) (PNode p cs)" "sorted_kv (concat (map contents cs))"
      "distinct (concat (map pages cs))" "F \<inter> set (concat (map pages cs)) = {}"
    and D: "keys_within D (concat (map contents cs))" "node_size (map kid_entry cs) + D \<le> 4096"
    and old: "node b BNODE_NODE (map kid_entry cs)" and room: "2 * Suc h \<le> room s"
  shows "\<exists>s' b' T'. rebuild s1 b (of_nat i) ub = Some (s', b') \<and> deleted (Suc h) s (PNode p cs) F k s' b' T'"
proof -
  let ?c = "cs ! i"
  have ne: "\<forall>c \<in> set cs. contents c \<noteq> []" "cs \<noteq> []" using tree(1) wf_contents by auto
  from kid have K: "length ub = 4096" "inv s1" "wf0 h U" "top_at (tget t s1) ub U" "contents U = del_kv k (contents ?c)"
    "F' \<subseteq> live s1" "\<forall>q \<in> F'. tget t s1 q = tget t s q" "room s \<le> room s1 + 2 * h" by (simp_all add: deleted_def)
  have u: "node ub (top_type U) (top_entries U)" using K(4) by (simp add: top_at_def)
  have sib: "\<exists>sb. tget t s1 (page (cs ! j)) = Some sb \<and> top_at (tget t s1) sb (cs ! j) \<and> length sb = 4096"
    if "j < length cs" "j \<noteq> i" for j
  proof -
    have "tree_at (tget t s1) (cs ! j)"
    proof (rule tree_at_cong)
      show "tree_at (tget t s) (cs ! j)" using tree(2) that by simp
      have "cs ! j \<in> set (take i cs @ drop (Suc i) cs)" using other_in_rest [OF i(1) that] .
      then have "set (pages (cs ! j)) \<subseteq> F'" unfolding F' by auto
      then show "tget t s1 q = tget t s q" if "q \<in> set (pages (cs ! j))" for q using that K(7) by blast
    qed
    then show ?thesis unfolding tree_at_top by blast
  qed
  then have sibs: "\<forall>j < length cs. j \<noteq> i \<longrightarrow>
    (\<exists>sb. tget t s1 (page (cs ! j)) = Some sb \<and> top_at (tget t s1) sb (cs ! j) \<and> length sb = 4096)" by blast
  note ptr = top_lookup(3) [OF old]
  note un = pnode_nkeys [OF u [unfolded node_def]]
  show ?thesis
  proof (cases rule: shouldMerge_node [OF old i(1) u K(1) sibs, case_names left right none])
    case (left sb)
    have m: "i - 1 < length cs" "i = i - 1 \<and> i - 1 = Suc (i - 1) \<or> i = Suc (i - 1) \<and> i - 1 = i - 1" "Suc (i - 1) < length cs"
      using left(2) i(1) by simp_all
    from merge_step [OF kid i m F' tree D old room left(4,5) refl refl refl refl] obtain mb key s2 s' q b' T' where
      M: "nodeMerge (make_bytes 4096) sb ub = Some mb" "tdel t s1 (page (cs ! (i - 1))) = Some s2" "tnew t s2 mb = Some (s', q)"
       "getKey mb 0 = Some key" "nodeReplace2Kid (make_bytes 4096) b (of_nat (i - 1)) q key = Some b'"
       "deleted (Suc h) s (PNode p cs) F k s' b' T'" by auto
    have "getptr b (of_nat i - 1) = Some (page (cs ! (i - 1)))" "(of_nat i - 1 :: u16) = of_nat (i - 1)"
      using ptr [OF m(1)] left(2) by (simp_all add: kid_entry_def of_nat_diff)
    then have "rebuild s1 b (of_nat i) ub = Some (s', b')"
      using left(1) M(1-5) un by (simp add: rebuild_def)
    with M(6) show ?thesis by blast
  next
    case (right sb)
    have m: "i = i \<and> Suc i = Suc i \<or> i = Suc i \<and> Suc i = i" by simp
    from merge_step [OF kid i right(2) m right(2) F' tree D old room right(4,5) refl refl refl refl] obtain mb key s2 s' q b' T' where
      M: "nodeMerge (make_bytes 4096) ub sb = Some mb" "tdel t s1 (page (cs ! Suc i)) = Some s2" "tnew t s2 mb = Some (s', q)"
       "getKey mb 0 = Some key" "nodeReplace2Kid (make_bytes 4096) b (of_nat i) q key = Some b'"
       "deleted (Suc h) s (PNode p cs) F k s' b' T'" by auto
    have "getptr b (of_nat i + 1) = Some (page (cs ! Suc i))"
      using ptr [OF right(2)] by (simp add: kid_entry_def add.commute)
    then have "rebuild s1 b (of_nat i) ub = Some (s', b')"
      using right(1) M(1-5) un by (simp add: rebuild_def)
    with M(6) show ?thesis by blast
  next
    case none
    show ?thesis
    proof (cases "top_entries U = []")
      case True
      then have one: "length cs = 1" "i = 0" using none(2) i(1) by auto
      then obtain c where c: "cs = [c]" by (cases cs) auto
      obtain b' where b': "setHeader (make_bytes 4096) BNODE_NODE 0 = Some b'" "pnode b' BNODE_NODE 0 []" "length b' = 4096"
        using setHeader_pnode [of 0 "make_bytes 4096" BNODE_NODE] by auto
      have "U = empty_top h" using wf0_entries(2) [OF K(3) True] .
      then have "del_kv k (contents c) = []" using K(5) c one by simp
      moreover have "F \<subseteq> F'" by (auto simp: F')
      ultimately have "deleted (Suc h) s (PNode p cs) F k s1 b' (empty_top (Suc h))"
        using b'(2,3) K(2,6,7,8) c by (auto simp: deleted_def wf0_def top_at_def node_def empty_top_def)
      moreover have "rebuild s1 b (of_nat i) ub = Some (s1, b')"
        using none(1) un True pnode_nkeys [OF old [unfolded node_def]] one b'(1) by (simp add: rebuild_def)
      ultimately show ?thesis by blast
    next
      case False
      have wfU: "wf_tree h U" using wf0_entries(1) [OF K(3) False] .
      have c: "concat (map contents (take i cs)) @ contents U @ concat (map contents (drop (Suc i) cs)) =
          del_kv k (concat (map contents cs))" using lookup_kid_del(1) [OF ne tree(3) i(2)] K(5) by simp
      have "set (contents U) \<subseteq> set (concat (map contents cs))" using K(5) set_del_kv [of k "contents ?c"] i(1) by fastforce
      then have "length (fkey U) \<le> length (fkey ?c) + D"
        using keys_within_fkey [OF D(1) nth_mem [OF i(1)]] ne(1) i(1) wf_contents [OF wfU] by simp
      from kept_kid [OF kid i(1) F' tree(1,2,4,5) wfU c old room node_size_one [OF i(1) this D(2)]] obtain s' b' T' where
        R: "nodeReplaceKidN t s1 (make_bytes 4096) b (of_nat i) [ub] = Some (s', b')" "deleted (Suc h) s (PNode p cs) F k s' b' T'"
        by blast
      have "(of_nat (length (top_entries U)) :: u16) \<noteq> 0"
        using False pnode_bounds [OF u [unfolded node_def]] by (simp add: u16_small)
      then have "rebuild s1 b (of_nat i) ub = Some (s', b')" using none(1) un R(1) by (simp add: rebuild_def)
      with R(2) show ?thesis by blast
    qed
  qed
qed

end


section \<open>Deletion below the root\<close>

lemma keys_within_mono: "keys_within D xs \<Longrightarrow> set ys \<subseteq> set xs \<Longrightarrow> keys_within D ys"
  unfolding keys_within_def by blast

lemma tree_at_spare: "tree_at g T \<Longrightarrow> spare 0 T"
proof (induction T)
  case (PNode p cs)
  then have "node_size (map kid_entry cs) \<le> 4096" using node_length(1) by fastforce
  with PNode show ?case by simp
qed simp

context pager
begin

lemma nodeDelete_rebuild:
  assumes "getptr b idx = Some p" "tget t s p = Some kid" "treeDelete f t s kid k = Some (s1, ub)"
  shows "nodeDelete f t s b idx k = (if ub = [] then Some (s1, []) else rebuild s1 b idx ub)"
  using assms by (simp add: rebuild_def)

lemma treeDelete_correct:
  assumes "wf_tree h T" "top_at (tget t s) b T" "length b = 4096" "sorted_kv (contents T)"
    "spare D T" "keys_within D (contents T)" "inv s" "distinct (kpages T)" "set (kpages T) \<subseteq> live s"
    "F \<subseteq> live s" "F \<inter> set (kpages T) = {}" "2 * h \<le> room s" "h < fuel"
  shows "if k \<in> fst ` set (contents T)
    then \<exists>s' b' T'. treeDelete fuel t s b k = Some (s', b') \<and> deleted h s T F k s' b' T'
    else treeDelete fuel t s b k = Some (s, [])"
  using assms
proof (induction h arbitrary: T b fuel F)
  case 0
  then obtain p kvs where T: "T = PLeaf p kvs" "kvs \<noteq> []" by (cases T) auto
  show ?case using treeDelete_leaf [of s b p kvs F fuel k] 0 T by (auto split: if_splits)
next
  case (Suc h)
  then obtain p cs where T: "T = PNode p cs" "cs \<noteq> []" "\<forall>c \<in> set cs. wf_tree h c" by (cases T) auto
  with Suc.prems have b: "node b BNODE_NODE (map kid_entry cs)" and kids: "\<forall>c \<in> set cs. tree_at (tget t s) c"
    and sorted: "sorted_kv (concat (map contents cs))" by (simp_all add: top_at_def)
  obtain f where f: "fuel = Suc f" "h < f" using Suc.prems(13) by (cases fuel) auto
  have ne: "\<forall>c \<in> set cs. contents c \<noteq> []" using T(3) wf_contents by blast
  define i where "i = lookup_le (map fkey cs) k"
  have i: "i < length cs" unfolding i_def by (rule lookup_kid(1) [OF ne T(2) sorted])
  let ?c = "cs ! i"
  have c: "?c \<in> set cs" using i by simp
  then obtain kid where kid: "tget t s (page ?c) = Some kid" "length kid = 4096" "top_at (tget t s) kid ?c"
    using kids by (auto simp: tree_at_top)
  define F' where "F' = F \<union> insert (page ?c) (set (concat (map pages (take i cs @ drop (Suc i) cs))))"
  have dist0: "distinct (concat (map pages cs))" "F \<inter> set (concat (map pages cs)) = {}" using Suc.prems T by simp_all
  note dist = kid_pages_distinct [OF i dist0, folded F'_def]
  have L: "set (kpages ?c) \<subseteq> live s" "F' \<subseteq> live s" "F' \<inter> set (kpages ?c) = {}"
    using Suc.prems(9,10) dist(5,7) by (auto simp: T F'_def pages_eq)
  have D: "spare D ?c" "keys_within D (concat (map contents cs))" "node_size (map kid_entry cs) + D \<le> 4096"
    using Suc.prems(5,6) c by (simp_all add: T)
  have "set (contents ?c) \<subseteq> set (concat (map contents cs))" using c by auto
  note D' = keys_within_mono [OF D(2) this]
  have room: "2 * h \<le> room s" using Suc.prems(12) by simp
  have wf: "wf_tree h ?c" using T(3) c by blast
  note IH = Suc.IH [OF wf kid(3,2) sorted_kid [OF i sorted] D(1) D' Suc.prems(7) dist(6) L room f(2)]
  note key = lookup_kid_del(2) [OF ne T(2) sorted i_def]
  have "treeDelete fuel t s b k = nodeDelete f t s b (of_nat i) k"
    using nodeLookupLE_node [OF b] kids_sorted [OF ne sorted] pnode_btype [OF b [unfolded node_def]]
    by (simp add: f i_def del: nodeDelete.simps)
  moreover have "getptr b (of_nat i) = Some (page ?c)" using top_lookup(3) [OF b i] by (simp add: kid_entry_def)
  ultimately have run: "treeDelete fuel t s b k = (if ub = [] then Some (s1, []) else rebuild s1 b (of_nat i) ub)"
    if "treeDelete f t s kid k = Some (s1, ub)" for s1 ub
    using nodeDelete_rebuild [OF _ kid(1) that] by simp
  show ?case
  proof (cases "k \<in> fst ` set (contents T)")
    case False
    then have "k \<notin> fst ` set (contents ?c)" using key by (simp add: T)
    then show ?thesis using IH run False by simp
  next
    case True
    then have "k \<in> fst ` set (contents ?c)" using key by (simp add: T)
    then obtain s1 ub U where U: "treeDelete f t s kid k = Some (s1, ub)" "deleted h s ?c F' k s1 ub U" using IH by auto
    have wfT: "wf_tree (Suc h) (PNode p cs)" "kids_at (tget t s) (PNode p cs)" using Suc.prems(1) kids T by simp_all
    from rebuilt [OF U(2) i i_def F'_def wfT sorted dist0 D(2,3) b Suc.prems(12)] obtain s' b' T' where
      R: "rebuild s1 b (of_nat i) ub = Some (s', b')" "deleted (Suc h) s (PNode p cs) F k s' b' T'" by blast
    have "ub \<noteq> []" using U(2) by (auto simp: deleted_def)
    then show ?thesis using run [OF U(1)] R True by (auto simp: T)
  qed
qed

end

section \<open>Deletion at the root\<close>

lemma del_kv_ne:
  assumes "x \<in> fst ` set xs" "x \<noteq> k"
  shows "del_kv k xs \<noteq> []"
proof -
  from assms(1) obtain y where "y \<in> set xs" "fst y = x" by blast
  with assms(2) have "y \<in> set (del_kv k xs)" by (simp add: del_kv_def)
  then show ?thesis by auto
qed

context pager
begin

lemma Delete_absent:
  assumes "tree_holds t live s h T" "inv s" "2 * h \<le> room s" "spare D T" "keys_within D (contents T)" "h < fuel"
    and "k \<notin> fst ` set (contents T)"
  shows "Delete fuel t s k = Some (t, s, False)"
proof -
  from assms(1) have T: "Root t \<noteq> 0" "page T = Root t" "wf_tree h T" "sorted_kv (contents T)"
    "distinct (kpages T)" "set (kpages T) \<subseteq> live s" by (auto simp: tree_holds_def pages_eq)
  from assms(1) obtain b where b: "tget t s (Root t) = Some b" "length b = 4096" "top_at (tget t s) b T"
    by (auto simp: tree_holds_def tree_at_top)
  from treeDelete_correct [OF T(3) b(3,2) T(4) assms(4,5,2) T(5,6), of "{}" fuel k] assms(3,6,7)
  have "treeDelete fuel t s b k = Some (s, [])" by simp
  then show ?thesis using T(1) b(1) by (simp add: Delete_def)
qed

lemma Delete_present:
  assumes holds: "tree_holds t live s h T" and s: "inv s" "2 * h + 2 \<le> room s" and D: "spare D T" "keys_within D (contents T)"
    and fuel: "h < fuel" and k: "k \<in> fst ` set (contents T)" "k2 \<in> fst ` set (contents T)" "k2 \<noteq> k"
  shows "\<exists>s' h' T'. Delete fuel t s k = Some (t\<lparr>Root := page T'\<rparr>, s', True) \<and> inv s' \<and> room s \<le> room s' + 2 * h + 2 \<and>
     tree_holds (t\<lparr>Root := page T'\<rparr>) live s' h' T' \<and> contents T' = del_kv k (contents T) \<and> h' \<le> h \<and> h \<le> Suc h'"
proof -
  from holds have T: "Root t \<noteq> 0" "page T = Root t" "wf_tree h T" "sorted_kv (contents T)"
    "\<forall>kv \<in> set (contents T). kv_ok kv" "distinct (kpages T)" "Root t \<notin> set (kpages T)" "set (kpages T) \<subseteq> live s" "Root t \<in> live s"
    by (auto simp: tree_holds_def pages_eq)
  from holds obtain b where b: "tget t s (Root t) = Some b" "length b = 4096" "top_at (tget t s) b T"
    by (auto simp: tree_holds_def tree_at_top)
  from treeDelete_correct [OF T(3) b(3,2) T(4) D s(1) T(6,8), of "{Root t}" fuel k] T(7,9) s(2) fuel k(1)
  obtain s1 ub U where run: "treeDelete fuel t s b k = Some (s1, ub)" and "deleted h s T {Root t} k s1 ub U" by auto
  then have U: "length ub = 4096" "inv s1" "wf0 h U" "top_at (tget t s1) ub U" "contents U = del_kv k (contents T)"
    "distinct (kpages U)" "set (kpages U) \<subseteq> live s1" "Root t \<in> live s1" "Root t \<notin> set (kpages U)" "room s \<le> room s1 + 2 * h"
    by (simp_all add: deleted_def)
  have ne: "contents U \<noteq> []" unfolding U(5) using k(2,3) by (rule del_kv_ne)
  then have wfU: "wf_tree h U" using U(3) by (auto simp: wf0_def)
  have "0 < room s1" using U(10) s(2) by simp
  from del_ok [OF U(2) this U(8)] obtain s2 where s2: "tdel t s1 (Root t) = Some s2" "inv s2" "room s1 \<le> Suc (room s2)"
    "live s1 - {Root t} \<subseteq> live s2" "\<forall>q \<in> live s1 - {Root t}. tget t s2 q = tget t s1 q" by blast
  have kp: "set (kpages U) \<subseteq> live s1 - {Root t}" using U(7,9) by blast
  have top: "top_at (tget t s2) ub U" using U(4) by (rule top_at_cong) (use kp s2(5) in blast)
  have ok: "sorted_kv (contents U)" "\<forall>kv \<in> set (contents U). kv_ok kv"
    unfolding U(5) using T(4,5) sorted_del_kv set_del_kv by blast+
  have nd: "node ub (top_type U) (top_entries U)" using top by (simp add: top_at_def)
  note rd = pnode_btype [OF nd [unfolded node_def]] pnode_nkeys [OF nd [unfolded node_def]]
  have ub: "ub \<noteq> []" using U(1) by auto
  have room: "room s \<le> room s2 + 2 * h + 1" using U(10) s2(3) by simp
  have "(of_nat (length (top_entries U)) :: u16) = 1 \<longleftrightarrow> length (top_entries U) = 1"
  proof -
    have "length (top_entries U) < 65536" using pnode_bounds [OF nd [unfolded node_def]] by simp
    then have "unat (of_nat (length (top_entries U)) :: u16) = length (top_entries U)" by (simp add: u16_of_nat)
    then show ?thesis by (metis of_nat_1 unat_1)
  qed
  then have n1: "(of_nat (length (top_entries U)) :: u16) = 1 \<longleftrightarrow> length (top_entries U) = 1" .
  show ?thesis
  proof (cases "top_type U = BNODE_NODE \<and> length (top_entries U) = 1")
    case True
    then obtain p c where c: "U = PNode p [c]" by (cases U) (auto simp: length_Suc_conv)
    with wfU obtain h' where h': "h = Suc h'" "wf_tree h' c" by (cases h) auto
    have gp: "getptr ub 0 = Some (page c)" using top_lookup(3) [of ub BNODE_NODE kid_entry "[c]" 0] nd c by (simp add: kid_entry_def)
    have "page c \<in> live s2" using kp s2(4) c by (auto simp: pages_eq)
    then have "page c \<noteq> 0" using live_nonzero [OF s2(2)] by auto
    then have "tree_holds (t\<lparr>Root := page c\<rparr>) live s2 h' c"
      using h'(2) top ok U(6) kp s2(4) c by (auto simp: tree_holds_def top_at_def)
    moreover have "Delete fuel t s k = Some (t\<lparr>Root := page c\<rparr>, s2, True)"
      using T(1) b(1) run ub s2(1) rd n1 True gp by (simp add: Delete_def)
    moreover have "contents c = del_kv k (contents T)" using U(5) c by simp
    ultimately show ?thesis using s2(2) room h'(1) by (intro exI [of _ s2] exI [of _ h'] exI [of _ c]) simp
  next
    case False
    have "0 < room s2" "set (kpages U) \<subseteq> live s2" using s2(3,4) U(10) s(2) kp by auto
    from root_one [OF s2(2) top U(1) wfU this U(6)] obtain s' p where
      R: "tnew t s2 ub = Some (s', p)" "inv s'" "p \<noteq> 0" "room s2 \<le> Suc (room s')"
       "tree_at (tget t s') (setpage p U)" "distinct (pages (setpage p U))" "set (pages (setpage p U)) \<subseteq> live s'" by blast
    have "tree_holds (t\<lparr>Root := page (setpage p U)\<rparr>) live s' h (setpage p U)"
      using R(3,5-7) wfU ok by (simp add: tree_holds_def)
    moreover have "Delete fuel t s k = Some (t\<lparr>Root := page (setpage p U)\<rparr>, s', True)"
      using T(1) b(1) run ub s2(1) rd n1 False R(1) by (auto simp: Delete_def)
    moreover have "room s \<le> room s' + 2 * h + 2" using room R(4) by simp
    ultimately show ?thesis using R(2) U(5) by (intro exI [of _ s'] exI [of _ h] exI [of _ "setpage p U"]) simp
  qed
qed

end

section \<open>The size conditions of deletion\<close>

text \<open>A tree that holds only keys of length \<open>L\<close>, up to the empty key of a leaf root, meets the size conditions of deletion.\<close>

lemma store_delete_room:
  assumes holds: "tree_holds t live s h T" and root: "h = 0 \<longleftrightarrow> fkey T = []" and L: "\<forall>k \<in> dom (tree_map T). length k = L"
  shows "\<exists>D. spare D T \<and> keys_within D (contents T)"
proof (cases "h = 0")
  case True
  then have "spare 1000 T" using holds by (cases T) (auto simp: tree_holds_def)
  moreover have "keys_within 1000 (contents T)" using holds by (auto simp: tree_holds_def keys_within_def kv_ok_def)
  ultimately show ?thesis by blast
next
  case False
  have T: "sorted_kv (contents T)" "contents T \<noteq> []" "tree_at (tget t s) T"
    using holds wf_contents by (auto simp: tree_holds_def)
  have "length (fst kv) = L" if kv: "kv \<in> set (contents T)" for kv
  proof -
    obtain x xs where c: "contents T = x # xs" using T(2) by (cases "contents T") auto
    have "fst x \<noteq> []" using root False by (simp add: fkey_def c)
    moreover have "\<forall>y \<in> set xs. fst x < fst y" using T(1) by (simp add: c)
    ultimately have "fst kv \<noteq> []" using kv c by (cases "fst kv") auto
    moreover have "fst kv \<in> dom (map_of (contents T))" using kv by (metis domIff fst_conv map_of_eq_None_iff image_eqI)
    ultimately have "fst kv \<in> dom (tree_map T)" by (auto simp: tree_map_def)
    then show ?thesis using L by blast
  qed
  then have "keys_within 0 (contents T)" by (simp add: keys_within_def)
  then show ?thesis using tree_at_spare [OF T(3)] by blast
qed

end
