(* ===== verification/Pending.thy ===== *)
theory Pending
  imports Tree_Delete
begin

text \<open>
  The pages of a transaction (\<^verbatim>\<open>storage/disk.go\<close>, \<open>Begin\<close>): the callbacks of \<open>tx.pending\<close> close over a
  map and a counter, which are the state here. Reading a page that is not in the map gives the nil
  slice; freeing does nothing. The theory interprets the \<open>pager\<close> interface on them and draws the
  consequences for lookup and insertion.
\<close>

record pending_pages =
  pages_map :: "u64 \<Rightarrow> bytes option"
  nPages :: u64

definition pending_new :: "pending_pages \<Rightarrow> bytes \<Rightarrow> (pending_pages \<times> u64) option" where
  "pending_new s b =
     (let n = nPages s + 1 in Some (\<lparr>pages_map = (pages_map s)(n \<mapsto> b), nPages = n\<rparr>, n))"

definition pending_get :: "pending_pages \<Rightarrow> u64 \<Rightarrow> bytes option" where
  "pending_get s ptr = Some (case pages_map s ptr of Some b \<Rightarrow> b | None \<Rightarrow> [])"

definition pending_del :: "pending_pages \<Rightarrow> u64 \<Rightarrow> pending_pages option" where
  "pending_del s u = Some s"

definition pending_tree :: "u64 \<Rightarrow> pending_pages BTree" where
  "pending_tree root = \<lparr>Root = root, tget = pending_get, tnew = pending_new, tdel = pending_del\<rparr>"

definition pending_init :: pending_pages where
  "pending_init = \<lparr>pages_map = Map.empty, nPages = 0\<rparr>"

definition pending_live :: "pending_pages \<Rightarrow> u64 set" where
  "pending_live s = {p. p \<noteq> 0 \<and> p \<le> nPages s}"

definition pending_room :: "pending_pages \<Rightarrow> nat" where
  "pending_room s = 2 ^ 64 - 1 - unat (nPages s)"

lemma pending_tree_simps [simp]:
  "Root (pending_tree r) = r" "tget (pending_tree r) = pending_get" "tnew (pending_tree r) = pending_new"
  "tdel (pending_tree r) = pending_del" "(pending_tree r)\<lparr>Root := r'\<rparr> = pending_tree r'"
  by (simp_all add: pending_tree_def)

lemma nPages_Suc:
  assumes "0 < pending_room s"
  shows "unat (nPages s + 1) = Suc (unat (nPages s))"
proof -
  have "unat (nPages s) + unat (1 :: u64) < 2 ^ LENGTH(64)" using assms by (simp add: pending_room_def)
  then show ?thesis by (simp add: unat_add_lem [THEN iffD1])
qed

interpretation pending: pager "pending_tree r" "\<lambda>s. True" pending_live pending_room for r
proof
  fix s :: pending_pages and b :: bytes
  assume room: "0 < pending_room s"
  note n = nPages_Suc [OF room]
  let ?p = "nPages s + 1" and ?s = "\<lparr>pages_map = (pages_map s)(nPages s + 1 \<mapsto> b), nPages = nPages s + 1\<rparr>"
  have "pending_room s \<le> Suc (pending_room ?s)" using n by (simp add: pending_room_def)
  moreover have nz: "?p \<noteq> 0" using n by (metis nat.distinct(1) unat_0)
  moreover have gt: "nPages s < ?p" using n by (simp add: word_less_nat_alt)
  moreover have "?p \<notin> pending_live s" using gt by (simp add: pending_live_def not_le)
  moreover have "insert ?p (pending_live s) \<subseteq> pending_live ?s"
    using nz gt by (auto simp: pending_live_def)
  moreover have "pending_get ?s ?p = Some b" "\<forall>q \<in> pending_live s. pending_get ?s q = pending_get s q"
    using gt by (auto simp: pending_get_def pending_live_def)
  ultimately show "\<exists>s' p. tnew (pending_tree r) s b = Some (s', p) \<and> True \<and> pending_room s \<le> Suc (pending_room s') \<and>
      p \<noteq> 0 \<and> p \<notin> pending_live s \<and> insert p (pending_live s) \<subseteq> pending_live s' \<and> tget (pending_tree r) s' p = Some b \<and>
      (\<forall>q \<in> pending_live s. tget (pending_tree r) s' q = tget (pending_tree r) s q)"
    by (intro exI [of _ ?s] exI [of _ ?p]) (simp add: pending_new_def Let_def)
qed (auto simp: pending_del_def pending_live_def)

section \<open>Sequences of insertions\<close>

text \<open>A sequence of insertions into a transaction's pages.\<close>

fun Insert_all :: "nat \<Rightarrow> 's BTree \<Rightarrow> 's \<Rightarrow> (bytes \<times> bytes) list \<Rightarrow> ('s BTree \<times> 's) option" where
  "Insert_all fuel t s [] = Some (t, s)"
| "Insert_all fuel t s ((k, v) # kvs) = do { (t, s) \<leftarrow> Insert fuel t s k v; Insert_all fuel t s kvs }"

lemma Insert_all_pending:
  assumes "store (pending_tree r) pending_live s h M"
    and "\<forall>kv \<in> set kvs. kv_ok kv \<and> fst kv \<noteq> []" "(3 * (h + length kvs) + 4) * length kvs \<le> pending_room s" "h + length kvs \<le> fuel"
  shows "\<exists>r' s'. Insert_all fuel (pending_tree r) s kvs = Some (pending_tree r', s') \<and>
     store (pending_tree r') pending_live s' (h + length kvs) (M ++ map_of (rev kvs)) \<and> (kvs \<noteq> [] \<longrightarrow> r' \<noteq> 0) \<and>
     pending_room s \<le> pending_room s' + (3 * (h + length kvs) + 4) * length kvs"
  using assms
proof (induction kvs arbitrary: r s h M)
  case (Cons kv kvs)
  obtain k v where kv: "kv = (k, v)" by (cases kv)
  let ?C = "3 * (h + length (kv # kvs)) + 4"
  have C: "?C + ?C * length kvs \<le> pending_room s" using Cons.prems(3) by simp
  have "3 * h + 4 \<le> ?C" by simp
  then have "3 * h + 4 \<le> pending_room s" using C by linarith
  moreover have kvk: "kv_ok (k, v)" "k \<noteq> []" "h < fuel" using Cons.prems(2,4) kv by auto
  ultimately obtain s1 r1 where R: "Insert fuel (pending_tree r) s k v = Some (pending_tree r1, s1)" "r1 \<noteq> 0"
     "pending_room s \<le> pending_room s1 + 3 * h + 4" "store (pending_tree r1) pending_live s1 (Suc h) (M(k \<mapsto> v))"
    using pending.Insert_store [OF Cons.prems(1) TrueI _ kvk] by auto
  have "(3 * (Suc h + length kvs) + 4) * length kvs \<le> pending_room s1" using C R(3) by simp
  moreover have "\<forall>kv \<in> set kvs. kv_ok kv \<and> fst kv \<noteq> []" "Suc h + length kvs \<le> fuel" using Cons.prems(2,4) by auto
  ultimately obtain r' s' where IH: "Insert_all fuel (pending_tree r1) s1 kvs = Some (pending_tree r', s')"
     "store (pending_tree r') pending_live s' (Suc h + length kvs) (M(k \<mapsto> v) ++ map_of (rev kvs))" "kvs \<noteq> [] \<longrightarrow> r' \<noteq> 0"
     "pending_room s1 \<le> pending_room s' + (3 * (Suc h + length kvs) + 4) * length kvs"
    using Cons.IH [OF R(4)] by blast
  have "M(k \<mapsto> v) ++ map_of (rev kvs) = M ++ map_of (rev (kv # kvs))"
    by (auto simp: kv map_add_def fun_eq_iff split: option.splits)
  moreover have "r' \<noteq> 0" using IH(1,3) R(2) by (cases "kvs = []") (auto dest: arg_cong [of _ _ Root])
  moreover have "pending_room s \<le> pending_room s' + ?C * length (kv # kvs)" using IH(4) R(3) by simp
  ultimately show ?case using R(1) IH(1,2) kv by (intro exI [of _ r'] exI [of _ s']) simp
qed auto

lemma Insert_all_init:
  assumes "\<forall>kv \<in> set kvs. kv_ok kv \<and> fst kv \<noteq> []" "kvs \<noteq> []" "(3 * length kvs + 4) * length kvs < 2 ^ 64"
    and "length kvs < fuel"
  shows "\<exists>r s. Insert_all fuel (pending_tree 0) pending_init kvs = Some (pending_tree r, s) \<and> r \<noteq> 0 \<and>
     store (pending_tree r) pending_live s (length kvs) (map_of (rev kvs)) \<and>
     2 ^ 64 - 1 \<le> pending_room s + (3 * length kvs + 4) * length kvs"
proof -
  have "store (pending_tree 0) pending_live pending_init 0 Map.empty" by (simp add: store_def)
  moreover have "(3 * (0 + length kvs) + 4) * length kvs \<le> pending_room pending_init" "pending_room pending_init = 2 ^ 64 - 1"
    using assms(3) by (simp_all add: pending_room_def pending_init_def)
  ultimately show ?thesis
    using Insert_all_pending [of 0 pending_init 0 Map.empty kvs fuel] assms(1,2,4) by auto
qed





end
