(* ===== verification/Disk.thy ===== *)
theory Disk
  imports Tree_Delete
begin

text \<open>
  The page store of \<^verbatim>\<open>storage/disk.go\<close>. The state \<open>KV\<close> is the struct of the source together with what it
  refers to outside the process: the contents of the database file. A chunk of the memory map is its
  length; the map is shared and read-only, so its bytes are those of the file at the time of the read:
  a page that starts beyond the end of the file faults, and the rest of a page that the file fills in
  part is zero. The outcomes of the system calls are the argument \<open>Sys\<close> (an error message, or none), and
  the order in which Go ranges over the map of updated pages is the argument \<open>order\<close>.
\<close>

record KV =
  kv_file :: bytes
  kv_Root :: u64
  mm_total :: int
  mm_chunks :: "nat list"
  flushed :: u64
  nappend :: u64
  updates :: "u64 \<Rightarrow> bytes option"
  headPage :: u64
  headSeq :: u64
  tailPage :: u64
  tailSeq :: u64
  maxSeq :: u64

section \<open>The meta page\<close>

definition DB_SIG :: gostring where
  "DB_SIG = str ''BuildYourOwnDB06''"

definition loadMeta :: "KV \<Rightarrow> bytes \<Rightarrow> KV option" where
  "loadMeta db data =
     (if length data < 96 then None
      else if take 16 data \<noteq> DB_SIG then None
      else do {
        root \<leftarrow> Uint64_at data 16;
        fl \<leftarrow> Uint64_at data 24;
        hp \<leftarrow> Uint64_at data 32;
        hs \<leftarrow> Uint64_at data 40;
        tp \<leftarrow> Uint64_at data 48;
        ts \<leftarrow> Uint64_at data 56;
        ms \<leftarrow> Uint64_at data 64;
        Some (db\<lparr>kv_Root := root, flushed := fl, headPage := hp, headSeq := hs, tailPage := tp, tailSeq := ts, maxSeq := ms\<rparr>) })"

definition saveMeta :: "KV \<Rightarrow> bytes" where
  "saveMeta db =
     put 64 (le64 (maxSeq db)) (put 56 (le64 (tailSeq db)) (put 48 (le64 (tailPage db)) (put 40 (le64 (headSeq db))
       (put 32 (le64 (headPage db)) (put 24 (le64 (flushed db)) (put 16 (le64 (kv_Root db))
         (put 0 DB_SIG (replicate 96 0))))))))"

section \<open>Reading pages\<close>

fun mm_read :: "bytes \<Rightarrow> nat \<Rightarrow> nat list \<Rightarrow> u64 \<Rightarrow> u64 \<Rightarrow> bytes option" where
  "mm_read file base [] start ptr = None"
| "mm_read file base (chunk # chunks) start ptr =
     (let end' = start + of_nat chunk div PAGE_SIZE in
      if ptr < end' then
        let offset = unat (PAGE_SIZE * (ptr - start)) in
        (if offset + 4096 \<le> chunk \<and> base + offset < length file
         then Some (take 4096 (drop (base + offset) file @ replicate 4096 0)) else None)
      else mm_read file (base + chunk) chunks end' ptr)"

definition pageRead :: "KV \<Rightarrow> u64 \<Rightarrow> bytes option" where
  "pageRead db ptr =
     (case updates db ptr of
        Some b \<Rightarrow> Some b
      | None \<Rightarrow> mm_read (kv_file db) 0 (mm_chunks db) 0 ptr)"

section \<open>Allocation and the free list\<close>

definition pageAppend :: "KV \<Rightarrow> bytes \<Rightarrow> KV \<times> u64" where
  "pageAppend db b =
     (let ptr = flushed db + nappend db in
      (db\<lparr>nappend := nappend db + 1, updates := (updates db)(ptr \<mapsto> b)\<rparr>, ptr))"

definition pageWrite :: "KV \<Rightarrow> u64 \<Rightarrow> (KV \<times> bytes) option" where
  "pageWrite db ptr =
     (case updates db ptr of
        Some b \<Rightarrow> Some (db, b)
      | None \<Rightarrow> do {
          b \<leftarrow> pageRead db ptr;
          newNode \<leftarrow> go_copy (make_bytes PAGE_SIZE) 0 b;
          Some (db\<lparr>updates := (updates db)(ptr \<mapsto> newNode)\<rparr>, newNode) })"

text \<open>\<open>binary.LittleEndian.PutUint64(node[p:], v)\<close> on the slice that \<open>pageWrite\<close> returned for page \<open>ptr\<close>.\<close>

definition pagePut :: "KV \<Rightarrow> u64 \<Rightarrow> bytes \<Rightarrow> nat \<Rightarrow> u64 \<Rightarrow> KV option" where
  "pagePut db ptr b p v = do {
     b' \<leftarrow> PutUint64_at b p v;
     Some (db\<lparr>updates := (updates db)(ptr \<mapsto> b')\<rparr>) }"

abbreviation LIST_CAP :: u64 where "LIST_CAP \<equiv> (4096 - 8) div 8"

definition freePopHead :: "KV \<Rightarrow> (KV \<times> u64 \<times> u64) option" where
  "freePopHead db =
     (if headSeq db > maxSeq db then Some (db, 0, 0)
      else if headSeq db = tailSeq db then
        Some (db\<lparr>headPage := 0, tailPage := 0, tailSeq := 0, headSeq := 0\<rparr>, headPage db, 0)
      else do {
        b \<leftarrow> pageRead db (headPage db);
        let idx = headSeq db mod LIST_CAP;
        ptr \<leftarrow> Uint64_at b (unat (8 + idx * 8));
        let db' = db\<lparr>headSeq := headSeq db + 1\<rparr>;
        if headSeq db' mod LIST_CAP = 0 then do {
          next \<leftarrow> Uint64_at b 0;
          Some (db'\<lparr>headPage := next\<rparr>, ptr, headPage db) }
        else Some (db', ptr, 0) })"

definition freePushTail :: "KV \<Rightarrow> u64 \<Rightarrow> KV option" where
  "freePushTail db ptr =
     (if tailPage db = 0 then do {
        let newNode = make_bytes PAGE_SIZE;
        let (db, newptr) = pageAppend db newNode;
        let db = db\<lparr>headPage := newptr, tailPage := newptr, tailSeq := 0, headSeq := 0\<rparr>;
        db \<leftarrow> pagePut db newptr newNode 8 ptr;
        Some (db\<lparr>tailSeq := tailSeq db + 1\<rparr>) }
      else do {
        (db, b) \<leftarrow> pageWrite db (tailPage db);
        let idx = tailSeq db mod LIST_CAP;
        db \<leftarrow> pagePut db (tailPage db) b (unat (8 + idx * 8)) ptr;
        let db = db\<lparr>tailSeq := tailSeq db + 1\<rparr>;
        if tailSeq db mod LIST_CAP = 0 then do {
          (db, next, head) \<leftarrow> freePopHead db;
          let (db, next) = (if next = 0 then pageAppend db (make_bytes PAGE_SIZE) else (db, next));
          (db, b) \<leftarrow> pageWrite db (tailPage db);
          db \<leftarrow> pagePut db (tailPage db) b 0 next;
          let db = db\<lparr>tailPage := next\<rparr>;
          if head \<noteq> 0 then do {
            (db, b) \<leftarrow> pageWrite db (tailPage db);
            db \<leftarrow> pagePut db (tailPage db) b 8 head;
            Some (db\<lparr>tailSeq := tailSeq db + 1\<rparr>) }
          else Some db }
        else Some db })"

definition pageAlloc :: "KV \<Rightarrow> bytes \<Rightarrow> (KV \<times> u64) option" where
  "pageAlloc db b = do {
     (db, ptr, head) \<leftarrow> freePopHead db;
     db \<leftarrow> (if head \<noteq> 0 then freePushTail db head else Some db);
     if ptr \<noteq> 0 then Some (db\<lparr>updates := (updates db)(ptr \<mapsto> b)\<rparr>, ptr)
     else Some (pageAppend db b) }"

section \<open>The file\<close>

record Sys =
  sys_create :: "gostring option"
  sys_mmap :: "gostring option"
  sys_pwrite :: "u64 \<Rightarrow> gostring option"
  sys_fsync_pages :: "gostring option"
  sys_pwrite_meta :: "gostring option"
  sys_fsync_meta :: "gostring option"

text \<open>
  The size of the next chunk doubles until it is enough. The source starts with at least 64 MB, so
  the guard \<open>0 < alloc\<close> always holds there.
\<close>

function mmap_alloc :: "int \<Rightarrow> int \<Rightarrow> int \<Rightarrow> int" where
  "mmap_alloc tot sz alloc =
     (if 0 < alloc \<and> tot + alloc < sz then mmap_alloc tot sz (alloc * 2) else alloc)"
  by pat_completeness auto
termination
  by (relation "measure (\<lambda>(tot, sz, alloc). nat (sz - tot - alloc))") auto

declare mmap_alloc.simps [simp del]

definition extendMmap :: "Sys \<Rightarrow> KV \<Rightarrow> int \<Rightarrow> KV \<times> gostring option" where
  "extendMmap sys db sz =
     (if sz \<le> mm_total db then (db, None)
      else
        let alloc = mmap_alloc (mm_total db) sz (if mm_total db < 64 * 1048576 then 64 * 1048576 else mm_total db) in
        case sys_mmap sys of
          Some e \<Rightarrow> (db, Some (str ''mmap: '' @ e))
        | None \<Rightarrow> (db\<lparr>mm_total := mm_total db + alloc, mm_chunks := mm_chunks db @ [nat alloc]\<rparr>, None))"

text \<open>\<open>pwrite\<close> extends the file with zeros up to the offset.\<close>

definition pwrite :: "bytes \<Rightarrow> nat \<Rightarrow> bytes \<Rightarrow> bytes" where
  "pwrite file off data =
     take off file @ replicate (off - length file) 0 @ data @ drop (off + length data) file"

fun write_pages :: "Sys \<Rightarrow> (u64 \<Rightarrow> bytes option) \<Rightarrow> u64 list \<Rightarrow> bytes \<Rightarrow> bytes \<times> gostring option" where
  "write_pages sys upd [] file = (file, None)"
| "write_pages sys upd (ptr # ptrs) file =
     (case sys_pwrite sys ptr of
        Some e \<Rightarrow> (file, Some e)
      | None \<Rightarrow> write_pages sys upd ptrs
          (case upd ptr of Some b \<Rightarrow> pwrite file (unat (ptr * PAGE_SIZE)) b | None \<Rightarrow> file))"

definition updateFile :: "Sys \<Rightarrow> u64 list \<Rightarrow> KV \<Rightarrow> KV \<times> gostring option" where
  "updateFile sys order db =
     (let sz = sint ((flushed db + nappend db) * PAGE_SIZE) in
      case extendMmap sys db sz of
        (db, Some e) \<Rightarrow> (db, Some e)
      | (db, None) \<Rightarrow>
          (case write_pages sys (updates db) order (kv_file db) of
             (file, Some e) \<Rightarrow> (db\<lparr>kv_file := file\<rparr>, Some e)
           | (file, None) \<Rightarrow>
               let db = db\<lparr>kv_file := file\<rparr> in
               case sys_fsync_pages sys of
                 Some e \<Rightarrow> (db, Some e)
               | None \<Rightarrow>
                   (case sys_pwrite_meta sys of
                      Some e \<Rightarrow> (db, Some (str ''write meta page: '' @ e))
                    | None \<Rightarrow>
                        let db = db\<lparr>kv_file := pwrite (kv_file db) 0 (saveMeta db)\<rparr> in
                        case sys_fsync_meta sys of
                          Some e \<Rightarrow> (db, Some e)
                        | None \<Rightarrow> (db\<lparr>flushed := flushed db + nappend db, nappend := 0, updates := Map.empty,
                                    maxSeq := tailSeq db\<rparr>, None))))"

definition readRoot :: "KV \<Rightarrow> nat \<Rightarrow> KV option" where
  "readRoot db fileSize =
     (if fileSize = 0 then
        Some (db\<lparr>flushed := 2, headPage := 1, tailPage := 1, headSeq := 0, tailSeq := 0, maxSeq := 0\<rparr>)
      else do {
        data \<leftarrow> mm_read (kv_file db) 0 (mm_chunks db) 0 0;
        loadMeta db data })"

definition Open :: "Sys \<Rightarrow> KV \<Rightarrow> (gostring + KV) option" where
  "Open sys db =
     (case sys_create sys of
        Some e \<Rightarrow> Some (Inl e)
      | None \<Rightarrow>
          (case extendMmap sys db (int (length (kv_file db))) of
             (db, Some e) \<Rightarrow> Some (Inl e)
           | (db, None) \<Rightarrow> map_option Inr (readRoot (db\<lparr>updates := Map.empty\<rparr>) (length (kv_file db)))))"

section \<open>The key-value store\<close>

definition kv_tree :: "u64 \<Rightarrow> KV BTree" where
  "kv_tree root = \<lparr>Root = root, tget = pageRead, tnew = pageAlloc, tdel = freePushTail\<rparr>"

definition KV_Get :: "nat \<Rightarrow> KV \<Rightarrow> bytes \<Rightarrow> bytes option option" where
  "KV_Get fuel db key = do {
     r \<leftarrow> GetVal fuel (kv_tree (kv_Root db)) db key;
     Some (case r of Inl e \<Rightarrow> None | Inr val \<Rightarrow> Some val) }"

definition KV_Set :: "nat \<Rightarrow> KV \<Rightarrow> bytes \<Rightarrow> bytes \<Rightarrow> KV option" where
  "KV_Set fuel db key val = do {
     (t, db) \<leftarrow> Insert fuel (kv_tree (kv_Root db)) db key val;
     Some (db\<lparr>kv_Root := Root t\<rparr>) }"

definition KV_Del :: "nat \<Rightarrow> KV \<Rightarrow> bytes \<Rightarrow> (KV \<times> bool) option" where
  "KV_Del fuel db key = do {
     (t, db, ok) \<leftarrow> Delete fuel (kv_tree (kv_Root db)) db key;
     Some (db\<lparr>kv_Root := Root t\<rparr>, ok) }"

end
