(* ===== verification/Disk_Correct.thy ===== *)
theory Disk_Correct
  imports Disk
begin

text \<open>
  What \<^verbatim>\<open>storage/disk.go\<close> promises about the file: the meta page round-trips, a successful \<open>updateFile\<close> leaves
  every page readable with the contents it had in memory, and what a later \<open>Open\<close> finds. The page store of
  the database is an instance of the interface \<open>pager\<close> as long as the free list fits one page.
\<close>

lemma u64_of_nat: "n < 2 ^ 64 \<Longrightarrow> unat (of_nat n :: u64) = n"
  by (simp add: unat_of_nat)

lemma u64_page: "unat d < 2 ^ 52 \<Longrightarrow> unat (4096 * d :: u64) = 4096 * unat d"
  by (simp add: unat_word_ariths)

section \<open>The meta page\<close>

lemma length_DB_SIG [simp]: "length DB_SIG = 16"
  by (simp add: DB_SIG_def str_def)

lemma le64_len [simp]: "length (le64 w) = 8"
  by (simp add: le64_def)

lemma saveMeta_slices:
  "length (saveMeta db) = 96" "take 16 (saveMeta db) = DB_SIG"
  "slice 16 8 (saveMeta db) = le64 (kv_Root db)" "slice 24 8 (saveMeta db) = le64 (flushed db)"
  "slice 32 8 (saveMeta db) = le64 (headPage db)" "slice 40 8 (saveMeta db) = le64 (headSeq db)"
  "slice 48 8 (saveMeta db) = le64 (tailPage db)" "slice 56 8 (saveMeta db) = le64 (tailSeq db)"
  "slice 64 8 (saveMeta db) = le64 (maxSeq db)"
proof -
  have "slice 0 16 (saveMeta db) = DB_SIG" by (simp add: saveMeta_def slice_simps)
  then show "take 16 (saveMeta db) = DB_SIG" by (simp add: slice_def)
qed (simp_all add: saveMeta_def slice_simps)

lemma loadMeta_saveMeta_prefix:
  assumes "96 \<le> length data" "take 96 data = saveMeta db"
  shows "loadMeta db0 data = Some (db0\<lparr>kv_Root := kv_Root db, flushed := flushed db, headPage := headPage db, headSeq := headSeq db,
     tailPage := tailPage db, tailSeq := tailSeq db, maxSeq := maxSeq db\<rparr>)"
proof -
  have sl: "slice p 8 data = slice p 8 (saveMeta db)" if "p + 8 \<le> 96" for p
    using slice_take [OF that, of data] assms(2) by simp
  have "take 16 data = take 16 (take 96 data)" by (simp add: min_def)
  then have "take 16 data = DB_SIG" using assms(2) saveMeta_slices(2) by simp
  then show ?thesis
    using assms(1) by (simp add: loadMeta_def Uint64_at_def sl saveMeta_slices)
qed

section \<open>The memory map\<close>

definition file_page :: "bytes \<Rightarrow> nat \<Rightarrow> bytes" where
  "file_page file p = take 4096 (drop (p * 4096) file @ replicate 4096 0)"

definition mm_ok :: "KV \<Rightarrow> bool" where
  "mm_ok db \<longleftrightarrow> (\<forall>c \<in> set (mm_chunks db). 4096 dvd c) \<and> mm_total db = int (sum_list (mm_chunks db)) \<and>
     sum_list (mm_chunks db) < 2 ^ 63"

lemma mm_read_page:
  assumes "\<forall>c \<in> set cs. 4096 dvd c" "start = of_nat st" "base = st * 4096" "base + sum_list cs < 2 ^ 63"
    and "st \<le> unat ptr"
  shows "mm_read file base cs start ptr =
     (if Suc (unat ptr) * 4096 \<le> base + sum_list cs \<and> unat ptr * 4096 < length file
      then Some (file_page file (unat ptr)) else None)"
  using assms
proof (induction cs arbitrary: base st start)
  case Nil
  then show ?case by simp
next
  case (Cons c cs)
  then obtain m where m: "c = 4096 * m" by auto
  have st: "st < 2 ^ 51" "m < 2 ^ 51" "st + m < 2 ^ 51" using Cons.prems(3,4) m by simp_all
  have e: "(start + of_nat c div PAGE_SIZE :: u64) = of_nat (st + m)"
  proof -
    have "c < 2 ^ 64" using st m by simp
    then have "unat (of_nat c :: u64) = c" by (rule u64_of_nat)
    then have "unat (of_nat c div PAGE_SIZE :: u64) = m" by (simp add: unat_div m)
    then have "(of_nat (unat (of_nat c div PAGE_SIZE :: u64)) :: u64) = of_nat m" by (rule arg_cong)
    then have "(of_nat c div PAGE_SIZE :: u64) = of_nat m" by simp
    then show ?thesis using Cons.prems(2) by simp
  qed
  have lt: "ptr < of_nat (st + m) \<longleftrightarrow> unat ptr < st + m"
  proof -
    have "st + m < 2 ^ 64" using st by simp
    then show ?thesis unfolding word_less_nat_alt by (simp only: u64_of_nat)
  qed
  show ?case
  proof (cases "unat ptr < st + m")
    case True
    have u: "unat (ptr - start) = unat ptr - st"
    proof -
      have "st < 2 ^ 64" using st by simp
      note u = u64_of_nat [OF this]
      have "(of_nat st :: u64) \<le> ptr" using Cons.prems(5) unfolding word_le_nat_alt by (simp only: u)
      then show ?thesis using Cons.prems(2) u by (simp add: unat_sub)
    qed
    have off: "unat (PAGE_SIZE * (ptr - start) :: u64) = 4096 * (unat ptr - st)"
    proof -
      have "unat (ptr - start) < 2 ^ 52" using u True st by simp
      from u64_page [OF this] show ?thesis by (simp only: u)
    qed
    have f: "(4096 * (unat ptr - st) + 4096 \<le> c) = True" "base + 4096 * (unat ptr - st) = unat ptr * 4096"
      "(Suc (unat ptr) * 4096 \<le> base + sum_list (c # cs)) = True"
      using True m Cons.prems(3,5) by simp_all
    have "(unat ptr < st + m) = True" using True by simp
    then show ?thesis
      by (simp only: mm_read.simps Let_def e lt off f if_True file_page_def simp_thms)
  next
    case False
    have "mm_read file (base + c) cs (of_nat (st + m)) ptr =
        (if Suc (unat ptr) * 4096 \<le> (base + c) + sum_list cs \<and> unat ptr * 4096 < length file
         then Some (file_page file (unat ptr)) else None)"
      using Cons.prems False m by (intro Cons.IH [where st = "st + m"]) simp_all
    then show ?thesis using False by (simp only: mm_read.simps Let_def e lt if_False sum_list.Cons add.assoc)
  qed
qed

section \<open>Writing pages\<close>

definition fbyte :: "bytes \<Rightarrow> nat \<Rightarrow> byte" where
  "fbyte file k = (if k < length file then file ! k else 0)"

lemma file_page_fbyte: "file_page file p = map (\<lambda>i. fbyte file (p * 4096 + i)) [0..<4096]"
  by (rule nth_equalityI) (auto simp: file_page_def fbyte_def nth_append)

lemma length_file_page [simp]: "length (file_page file p) = 4096"
  by (simp add: file_page_fbyte)

lemma length_pwrite: "length (pwrite file off data) = max (length file) (off + length data)"
  by (simp add: pwrite_def)

lemma fbyte_pwrite:
  "fbyte (pwrite file off data) k = (if off \<le> k \<and> k < off + length data then data ! (k - off) else fbyte file k)"
  by (auto simp: fbyte_def pwrite_def nth_append min_def)

lemma file_page_pwrite_same: "length data = 4096 \<Longrightarrow> file_page (pwrite file (p * 4096) data) p = data"
  by (rule nth_equalityI) (simp_all add: file_page_fbyte fbyte_pwrite)

lemma file_page_pwrite_other:
  assumes "length data \<le> 4096" "q \<noteq> p"
  shows "file_page (pwrite file (p * 4096) data) q = file_page file q"
proof -
  have "\<not> (p * 4096 \<le> q * 4096 + i \<and> q * 4096 + i < p * 4096 + length data)" if "i < 4096" for i
  proof (cases "q < p")
    case True
    then have "Suc q * 4096 \<le> p * 4096" by (intro mult_le_mono1) simp
    then show ?thesis using that by simp
  next
    case False
    then have "Suc p * 4096 \<le> q * 4096" using assms(2) by (intro mult_le_mono1) simp
    then show ?thesis using assms(1) by simp
  qed
  then show ?thesis unfolding file_page_fbyte fbyte_pwrite by (auto intro!: map_cong)
qed

text \<open>The loop over the updated pages, when no write fails.\<close>

lemma write_pages_ok:
  assumes "write_pages sys upd ptrs file = (file', None)" "set ptrs \<subseteq> dom upd"
    and "\<forall>p b. upd p = Some b \<longrightarrow> length b = 4096 \<and> unat p < 2 ^ 52"
  shows "(\<forall>p b. upd p = Some b \<longrightarrow> p \<in> set ptrs \<longrightarrow> file_page file' (unat p) = b \<and> unat p * 4096 < length file') \<and>
     (\<forall>q. (\<forall>p \<in> set ptrs. unat p \<noteq> q) \<longrightarrow> file_page file' q = file_page file q) \<and> length file \<le> length file'"
  using assms(1,2)
proof (induction ptrs arbitrary: "file")
  case (Cons ptr ptrs)
  then obtain b where b: "upd ptr = Some b" by auto
  then have len: "length b = 4096" "unat ptr < 2 ^ 52" using assms(3) by auto
  have off: "unat (ptr * PAGE_SIZE) = unat ptr * 4096" using u64_page [OF len(2)] by (simp add: mult.commute)
  let ?f = "pwrite file (unat ptr * 4096) b"
  have "write_pages sys upd ptrs ?f = (file', None)" using Cons.prems(1) b off by (auto split: option.splits)
  note IH = Cons.IH [OF this] Cons.prems(2)
  have lf: "length file \<le> length ?f" "unat ptr * 4096 < length ?f" using len by (simp_all add: length_pwrite)
  have new: "file_page file' (unat ptr) = b" "unat ptr * 4096 < length file'"
  proof -
    show "file_page file' (unat ptr) = b"
    proof (cases "ptr \<in> set ptrs")
      case True
      then show ?thesis using IH b by simp
    next
      case False
      then have "\<forall>p \<in> set ptrs. unat p \<noteq> unat ptr" by (metis unsigned_word_eqI)
      then show ?thesis using IH file_page_pwrite_same [OF len(1)] by simp
    qed
    show "unat ptr * 4096 < length file'" using IH lf by fastforce
  qed
  have "file_page file' q = file_page file q" if "\<forall>p \<in> set (ptr # ptrs). unat p \<noteq> q" for q
    using IH that file_page_pwrite_other [of b q "unat ptr" "file"] len by simp
  then show ?case using IH new b lf by auto
qed simp

section \<open>The map covers the file\<close>

lemma mmap_alloc_bounds:
  assumes "0 < alloc" "0 \<le> tot" "4096 dvd alloc"
  shows "alloc \<le> mmap_alloc tot sz alloc \<and> sz \<le> tot + mmap_alloc tot sz alloc \<and>
    mmap_alloc tot sz alloc \<le> max alloc (2 * sz) \<and> 4096 dvd mmap_alloc tot sz alloc"
  using assms
proof (induction tot sz alloc rule: mmap_alloc.induct)
  case (1 tot sz alloc)
  show ?case
  proof (cases "tot + alloc < sz")
    case True
    then have IH: "alloc * 2 \<le> mmap_alloc tot sz (alloc * 2)" "sz \<le> tot + mmap_alloc tot sz (alloc * 2)"
      "mmap_alloc tot sz (alloc * 2) \<le> max (alloc * 2) (2 * sz)" "4096 dvd mmap_alloc tot sz (alloc * 2)"
      using 1 by (simp_all add: max_def split: if_splits)
    have "mmap_alloc tot sz alloc = mmap_alloc tot sz (alloc * 2)" using True 1(2) by (subst mmap_alloc.simps) simp
    then show ?thesis using IH True 1(2,3) by auto
  next
    case False
    then have "mmap_alloc tot sz alloc = alloc" by (subst mmap_alloc.simps) simp
    then show ?thesis using False 1(4) by simp
  qed
qed

lemma dvd_sum_chunks: "\<forall>c \<in> set cs. (d::nat) dvd c \<Longrightarrow> d dvd sum_list cs"
  by (induction cs) simp_all

lemma extendMmap_ok:
  assumes "extendMmap sys db sz = (db', None)" "mm_ok db" "mm_total db < 2 ^ 60" "sz < 2 ^ 61"
  shows "mm_ok db' \<and> sz \<le> mm_total db' \<and> (\<exists>cs. db' = db\<lparr>mm_total := mm_total db', mm_chunks := mm_chunks db @ cs\<rparr>)"
proof (cases "sz \<le> mm_total db")
  case True
  then have "db' = db" using assms(1) by (simp add: extendMmap_def)
  then have "db' = db\<lparr>mm_total := mm_total db', mm_chunks := mm_chunks db @ []\<rparr>" by simp
  then show ?thesis using assms(2) True \<open>db' = db\<close> by blast
next
  case False
  let ?a0 = "if mm_total db < 64 * 1048576 then 64 * 1048576 else mm_total db"
  define a where "a = mmap_alloc (mm_total db) sz ?a0"
  have tot: "mm_total db = int (sum_list (mm_chunks db))" "\<forall>c \<in> set (mm_chunks db). 4096 dvd c" using assms(2) by (simp_all add: mm_ok_def)
  have "4096 dvd sum_list (mm_chunks db)" using tot(2) by (rule dvd_sum_chunks)
  then have "4096 dvd ?a0" unfolding tot(1) by (simp add: int_dvd_int_iff [symmetric])
  moreover have "0 < ?a0" by simp
  ultimately have B: "?a0 \<le> a" "sz \<le> mm_total db + a" "a \<le> max ?a0 (2 * sz)" "4096 dvd a"
    using mmap_alloc_bounds [of ?a0 "mm_total db" sz] tot(1) unfolding a_def by auto
  have db': "db' = db\<lparr>mm_total := mm_total db + a, mm_chunks := mm_chunks db @ [nat a]\<rparr>"
    using assms(1) False by (simp add: extendMmap_def a_def Let_def split: option.splits if_splits)
  have a0: "0 \<le> a" using B(1) by (simp split: if_splits)
  have "mm_total db + a < 2 ^ 63" using B(3) assms(3,4) by (auto simp: max_def split: if_splits)
  then have "int (sum_list (mm_chunks db) + nat a) < int (2 ^ 63)" using a0 tot(1) by simp
  then have "sum_list (mm_chunks db) + nat a < 2 ^ 63" by (simp only: of_nat_less_iff)
  moreover have "4096 dvd nat a" using B(4) a0 by (metis int_nat_eq int_dvd_int_iff of_nat_numeral)
  ultimately have "mm_ok db'" using tot a0 unfolding db' by (simp add: mm_ok_def)
  then show ?thesis using B(2) unfolding db' by auto
qed

section \<open>Commit to the file\<close>

lemma pageRead_mapped:
  assumes "mm_ok db" "updates db p = None"
  shows "pageRead db p =
     (if Suc (unat p) * 4096 \<le> sum_list (mm_chunks db) \<and> unat p * 4096 < length (kv_file db)
      then Some (file_page (kv_file db) (unat p)) else None)"
proof -
  have "mm_read (kv_file db) 0 (mm_chunks db) 0 p =
      (if Suc (unat p) * 4096 \<le> 0 + sum_list (mm_chunks db) \<and> unat p * 4096 < length (kv_file db)
       then Some (file_page (kv_file db) (unat p)) else None)"
    using assms(1) by (intro mm_read_page [where st = 0]) (simp_all add: mm_ok_def)
  then show ?thesis using assms(2) by (simp only: pageRead_def option.case add_0)
qed

definition tx_pages_ok :: "KV \<Rightarrow> bool" where
  "tx_pages_ok db \<longleftrightarrow> unat (flushed db) + unat (nappend db) < 2 ^ 48 \<and>
     (\<forall>p b. updates db p = Some b \<longrightarrow> length b = 4096 \<and> 0 < p \<and> p < flushed db + nappend db)"

lemma updateFile_ok:
  assumes "updateFile sys order db = (db', None)" "mm_ok db" "mm_total db < 2 ^ 60" "tx_pages_ok db"
    and "set order = dom (updates db)"
  shows "flushed db' = flushed db + nappend db" "nappend db' = 0" "updates db' = Map.empty" "kv_Root db' = kv_Root db"
    "mm_ok db'" "take 96 (kv_file db') = saveMeta db" "96 \<le> length (kv_file db')"
    and "p \<noteq> 0 \<Longrightarrow> pageRead db p = Some b \<Longrightarrow> pageRead db' p = Some b"
proof -
  define sz where "sz = sint ((flushed db + nappend db) * PAGE_SIZE)"
  have small: "unat (flushed db + nappend db) = unat (flushed db) + unat (nappend db)"
    using assms(4) by (simp add: tx_pages_ok_def unat_word_ariths)
  then have small': "unat (flushed db + nappend db) < 2 ^ 48" using assms(4) by (simp add: tx_pages_ok_def)
  have usz: "unat ((flushed db + nappend db) * PAGE_SIZE) = unat (flushed db + nappend db) * 4096"
    using u64_page [of "flushed db + nappend db"] small' by (simp add: mult.commute)
  have sz: "sz = int (unat (flushed db + nappend db) * 4096)"
  proof -
    have "uint ((flushed db + nappend db) * PAGE_SIZE) = int (unat (flushed db + nappend db) * 4096)"
      using usz by (metis uint_nat)
    moreover have "int (unat (flushed db + nappend db) * 4096) < int (2 ^ 63)"
      using small' unfolding of_nat_less_iff by simp
    moreover have "- (2 ^ 63) \<le> int (unat (flushed db + nappend db) * 4096)"
      by (rule order_trans [OF _ of_nat_0_le_iff]) simp
    ultimately have "signed_take_bit 63 (uint ((flushed db + nappend db) * PAGE_SIZE)) = int (unat (flushed db + nappend db) * 4096)"
      using signed_take_bit_int_eq_self [of 63 "int (unat (flushed db + nappend db) * 4096)"] by simp
    then show ?thesis unfolding sz_def sint_uint by simp
  qed
  obtain db1 where ext: "extendMmap sys db sz = (db1, None)"
    using assms(1) unfolding updateFile_def Let_def sz_def [symmetric] by (auto split: prod.splits option.splits)
  have "sz < int (2 ^ 61)" unfolding sz of_nat_less_iff using small' by simp
  then have "sz < 2 ^ 61" by simp
  from extendMmap_ok [OF ext assms(2,3) this]
  obtain cs where db1: "mm_ok db1" "sz \<le> mm_total db1" "db1 = db\<lparr>mm_total := mm_total db1, mm_chunks := mm_chunks db @ cs\<rparr>"
    by blast
  have sel: "updates db1 = updates db" "kv_file db1 = kv_file db" "flushed db1 = flushed db" "nappend db1 = nappend db"
    "kv_Root db1 = kv_Root db" "mm_chunks db1 = mm_chunks db @ cs" "headPage db1 = headPage db" "headSeq db1 = headSeq db"
    "tailPage db1 = tailPage db" "tailSeq db1 = tailSeq db" "maxSeq db1 = maxSeq db"
    by (subst db1(3), simp)+
  obtain f1 where wp: "write_pages sys (updates db) order (kv_file db) = (f1, None)"
    using assms(1) ext sel unfolding updateFile_def Let_def sz_def [symmetric] by (auto split: prod.splits option.splits)
  have sm: "saveMeta (db1\<lparr>kv_file := f1\<rparr>) = saveMeta db" by (simp add: saveMeta_def sel)
  have db': "db' = db1\<lparr>kv_file := pwrite f1 0 (saveMeta db), flushed := flushed db + nappend db, nappend := 0,
      updates := Map.empty, maxSeq := tailSeq db\<rparr>"
    using assms(1) ext wp sel sm unfolding updateFile_def Let_def sz_def [symmetric]
    by (simp split: option.splits)
  show "flushed db' = flushed db + nappend db" "nappend db' = 0" "updates db' = Map.empty" "kv_Root db' = kv_Root db"
    unfolding db' by (simp_all add: sel)
  show "take 96 (kv_file db') = saveMeta db" "96 \<le> length (kv_file db')"
    unfolding db' by (simp_all add: pwrite_def saveMeta_slices)
  show mm: "mm_ok db'" using db1(1) unfolding db' by (simp add: mm_ok_def)
  show "pageRead db' p = Some b" if p: "p \<noteq> 0" and rd: "pageRead db p = Some b"
  proof -
    have small_pages: "\<forall>q c. updates db q = Some c \<longrightarrow> length c = 4096 \<and> unat q < 2 ^ 52"
    proof (intro allI impI)
      fix q c
      assume "updates db q = Some c"
      then have "length c = 4096" "q < flushed db + nappend db" using assms(4) by (auto simp: tx_pages_ok_def)
      then show "length c = 4096 \<and> unat q < 2 ^ 52" using small' by (simp add: word_less_nat_alt)
    qed
    note W = write_pages_ok [OF wp _ small_pages] assms(5)
    have np: "unat p \<noteq> 0" using p by (simp add: unat_eq_zero)
    have fp: "file_page (kv_file db') (unat p) = file_page f1 (unat p)"
      using file_page_pwrite_other [of "saveMeta db" "unat p" 0 f1] np unfolding db' by (simp add: saveMeta_slices)
    have len: "length f1 \<le> length (kv_file db')" unfolding db' by (simp add: length_pwrite)
    have tot: "mm_total db1 = int (sum_list (mm_chunks db'))" "sum_list (mm_chunks db') = sum_list (mm_chunks db) + sum_list cs"
      using db1(1) sel(6) unfolding db' by (simp_all add: mm_ok_def)
    have goal: "pageRead db' p = Some b" if "Suc (unat p) * 4096 \<le> sum_list (mm_chunks db')" "unat p * 4096 < length f1"
      "file_page f1 (unat p) = b"
      using pageRead_mapped [OF mm, of p] that len fp unfolding db' by simp
    show ?thesis
    proof (cases "updates db p")
      case None
      then have old: "Suc (unat p) * 4096 \<le> sum_list (mm_chunks db)" "unat p * 4096 < length (kv_file db)"
        "b = file_page (kv_file db) (unat p)"
        using rd pageRead_mapped [OF assms(2) None] by (simp_all split: if_splits)
      have "p \<notin> set order" using None assms(5) by auto
      then have "\<forall>q \<in> set order. unat q \<noteq> unat p" by (metis unsigned_word_eqI)
      then show ?thesis using W old tot(2) by (intro goal) auto
    next
      case (Some c)
      then have c: "c = b" "p \<in> set order" "p < flushed db + nappend db"
        using rd assms(4,5) by (auto simp: pageRead_def tx_pages_ok_def)
      have "Suc (unat p) * 4096 \<le> unat (flushed db + nappend db) * 4096"
        using c(3) unfolding word_less_nat_alt by (intro mult_le_mono1) simp
      then have "Suc (unat p) * 4096 \<le> sum_list (mm_chunks db')" using sz db1(2) tot(1) by linarith
      then show ?thesis using W Some c(1,2) by (intro goal) auto
    qed
  qed
qed

end
