(* ===== verification/Free_List.thy ===== *)
theory Free_List
  imports Disk_Correct Tree_Delete
begin

text \<open>
  The free list of \<^verbatim>\<open>storage/disk.go\<close> is a queue as long as it fits one page, and the page store is then a
  \<open>pager\<close>: an allocation never hands out a page that is in use, and a page that is freed is handed out
  again only after it has left the queue. The entries of the list page between \<open>headSeq\<close> and \<open>tailSeq\<close> are
  the queue.
\<close>

section \<open>The list page\<close>

definition free_slot :: "bytes \<Rightarrow> nat \<Rightarrow> u64" where
  "free_slot b i = of_nat (le_val (slice (8 + i * 8) 8 b))"

definition free_items :: "bytes \<Rightarrow> nat \<Rightarrow> nat \<Rightarrow> u64 list" where
  "free_items b lo hi = map (free_slot b) [lo..<hi]"

definition free_at :: "KV \<Rightarrow> bytes \<Rightarrow> bool" where
  "free_at db b \<longleftrightarrow> tailPage db \<noteq> 0 \<and> headPage db = tailPage db \<and> pageRead db (tailPage db) = Some b \<and> length b = 4096 \<and>
     headSeq db \<le> tailSeq db \<and> tailSeq db \<le> 510"

definition free_list :: "KV \<Rightarrow> u64 list" where
  "free_list db = (case pageRead db (tailPage db) of None \<Rightarrow> [] | Some b \<Rightarrow> free_items b (unat (headSeq db)) (unat (tailSeq db)))"

lemma free_list_at: "free_at db b \<Longrightarrow> free_list db = free_items b (unat (headSeq db)) (unat (tailSeq db))"
  by (simp add: free_list_def free_at_def)

lemma free_slot_put_same: "8 + i * 8 + 8 \<le> length b \<Longrightarrow> free_slot (put (8 + i * 8) (le64 v) b) i = v"
  by (simp add: free_slot_def slice_put_same)

lemma free_slot_put_before: "j < i \<Longrightarrow> 8 + i * 8 + 8 \<le> length b \<Longrightarrow> free_slot (put (8 + i * 8) (le64 v) b) j = free_slot b j"
  by (simp add: free_slot_def slice_put_before)

lemma free_items_push:
  "lo \<le> hi \<Longrightarrow> 8 + hi * 8 + 8 \<le> length b \<Longrightarrow> free_items (put (8 + hi * 8) (le64 v) b) lo (Suc hi) = free_items b lo hi @ [v]"
  by (simp add: free_items_def free_slot_put_same free_slot_put_before)

lemma free_items_pop: "lo < hi \<Longrightarrow> free_items b lo hi = free_slot b lo # free_items b (Suc lo) hi"
  by (simp add: free_items_def upt_conv_Cons)

lemma go_copy_page: "length b = 4096 \<Longrightarrow> go_copy (make_bytes PAGE_SIZE) 0 b = Some b"
  by (simp add: go_copy_def make_bytes_def put_def)

lemma slot_offset: "unat (i :: u64) < 511 \<Longrightarrow> unat (8 + i mod LIST_CAP * 8) = 8 + unat i * 8"
  by (simp add: unat_word_ariths unat_mod)

lemma Suc_seq: "(i :: u64) < 511 \<Longrightarrow> unat (i + 1) = Suc (unat i)"
  by (simp add: unat_word_ariths word_less_nat_alt)

section \<open>Push and pop\<close>

lemma freePushTail_at:
  assumes "free_at db b" "tailSeq db < 510"
  shows "\<exists>b'. freePushTail db ptr = Some (db\<lparr>updates := (updates db)(tailPage db \<mapsto> b'), tailSeq := tailSeq db + 1\<rparr>) \<and>
     free_at (db\<lparr>updates := (updates db)(tailPage db \<mapsto> b'), tailSeq := tailSeq db + 1\<rparr>) b' \<and>
     free_items b' (unat (headSeq db)) (unat (tailSeq db + 1)) = free_list db @ [ptr]"
proof -
  have f: "tailPage db \<noteq> 0" "headPage db = tailPage db" "pageRead db (tailPage db) = Some b" "length b = 4096"
    "headSeq db \<le> tailSeq db" using assms(1) by (simp_all add: free_at_def)
  have ts: "unat (tailSeq db) < 510" using assms(2) by (simp add: word_less_nat_alt)
  let ?b = "put (8 + unat (tailSeq db) * 8) (le64 ptr) b"
  have off: "unat (8 + tailSeq db mod LIST_CAP * 8) = 8 + unat (tailSeq db) * 8" using ts by (intro slot_offset) simp
  have w: "\<exists>u. pageWrite db (tailPage db) = Some (db\<lparr>updates := u\<rparr>, b) \<and> u(tailPage db \<mapsto> ?b) = (updates db)(tailPage db \<mapsto> ?b)"
  proof (cases "updates db (tailPage db)")
    case None
    then show ?thesis using f go_copy_page by (intro exI [of _ "(updates db)(tailPage db \<mapsto> b)"]) (simp add: pageWrite_def)
  next
    case (Some c)
    then have "c = b" using f(3) by (simp add: pageRead_def)
    then show ?thesis using Some by (intro exI [of _ "updates db"]) (simp add: pageWrite_def)
  qed
  then obtain u where u: "pageWrite db (tailPage db) = Some (db\<lparr>updates := u\<rparr>, b)"
    "u(tailPage db \<mapsto> ?b) = (updates db)(tailPage db \<mapsto> ?b)" by blast
  have len: "length ?b = 4096" using f(4) ts by simp
  have p: "pagePut (db\<lparr>updates := u\<rparr>) (tailPage db) b (8 + unat (tailSeq db) * 8) ptr =
      Some (db\<lparr>updates := (updates db)(tailPage db \<mapsto> ?b)\<rparr>)"
    using f(4) ts u(2) by (simp add: pagePut_def PutUint64_at_def)
  have n1: "(tailSeq db + 1) mod LIST_CAP \<noteq> 0"
  proof
    assume "(tailSeq db + 1) mod LIST_CAP = 0"
    then have "unat ((tailSeq db + 1) mod LIST_CAP) = 0" by simp
    moreover have "unat (tailSeq db + 1) = Suc (unat (tailSeq db))" using assms(2) by (intro Suc_seq) (simp add: word_less_nat_alt)
    ultimately show False using ts by (simp add: unat_mod)
  qed
  have run: "freePushTail db ptr = Some (db\<lparr>updates := (updates db)(tailPage db \<mapsto> ?b), tailSeq := tailSeq db + 1\<rparr>)"
    using f(1) n1 off u(1) p by (simp add: freePushTail_def Let_def)
  have s1: "unat (tailSeq db + 1) = Suc (unat (tailSeq db))" using assms(2) by (intro Suc_seq) (simp add: word_less_nat_alt)
  have "headSeq db \<le> tailSeq db + 1" "tailSeq db + 1 \<le> 510"
    using f(5) ts unfolding word_le_nat_alt s1 by simp_all
  then have at: "free_at (db\<lparr>updates := (updates db)(tailPage db \<mapsto> ?b), tailSeq := tailSeq db + 1\<rparr>) ?b"
    using f len by (simp add: free_at_def pageRead_def)
  have "free_items ?b (unat (headSeq db)) (unat (tailSeq db + 1)) = free_list db @ [ptr]"
    using f(4,5) ts unfolding s1 free_list_at [OF assms(1)] by (intro free_items_push) (simp_all add: word_le_nat_alt)
  then show ?thesis using run at by blast
qed

lemma freePopHead_at:
  assumes "free_at db b" "headSeq db < tailSeq db" "headSeq db \<le> maxSeq db"
  shows "\<exists>e es. free_list db = e # es \<and> freePopHead db = Some (db\<lparr>headSeq := headSeq db + 1\<rparr>, e, 0) \<and>
     free_at (db\<lparr>headSeq := headSeq db + 1\<rparr>) b \<and> free_list (db\<lparr>headSeq := headSeq db + 1\<rparr>) = es"
proof -
  have f: "tailPage db \<noteq> 0" "headPage db = tailPage db" "pageRead db (tailPage db) = Some b" "length b = 4096"
    "tailSeq db \<le> 510" using assms(1) by (simp_all add: free_at_def)
  have hs: "unat (headSeq db) < unat (tailSeq db)" "unat (headSeq db) < 510"
    using assms(2) f(5) by (simp_all add: word_less_nat_alt word_le_nat_alt)
  have s1: "unat (headSeq db + 1) = Suc (unat (headSeq db))" using hs(2) by (intro Suc_seq) (simp add: word_less_nat_alt)
  have off: "unat (8 + headSeq db mod LIST_CAP * 8) = 8 + unat (headSeq db) * 8" using hs by (intro slot_offset) simp
  have rd: "Uint64_at b (8 + unat (headSeq db) * 8) = Some (free_slot b (unat (headSeq db)))"
    using f(4) hs by (simp add: Uint64_at_def free_slot_def)
  have n1: "(headSeq db + 1) mod LIST_CAP \<noteq> 0"
  proof
    assume "(headSeq db + 1) mod LIST_CAP = 0"
    then have "unat ((headSeq db + 1) mod LIST_CAP) = 0" by simp
    then show False using s1 hs(2) by (simp add: unat_mod)
  qed
  have "freePopHead db = Some (db\<lparr>headSeq := headSeq db + 1\<rparr>, free_slot b (unat (headSeq db)), 0)"
    using less_imp_neq [OF assms(2)] leD [OF assms(3)] f n1 off rd by (simp add: freePopHead_def Let_def)
  moreover have pr: "pageRead (db\<lparr>headSeq := h\<rparr>) p = pageRead db p" for h p by (simp add: pageRead_def split: option.split)
  moreover have at: "free_at (db\<lparr>headSeq := headSeq db + 1\<rparr>) b"
    using f hs s1 pr unfolding free_at_def by (simp add: word_le_nat_alt)
  ultimately show ?thesis
    using free_items_pop [OF hs(1), of b] free_list_at [OF assms(1)] free_list_at [OF at] s1 by simp
qed

lemma freePopHead_empty:
  assumes "headSeq db = tailSeq db" "headSeq db \<le> maxSeq db"
  shows "freePopHead db = Some (db\<lparr>headPage := 0, tailPage := 0, tailSeq := 0, headSeq := 0\<rparr>, headPage db, 0)"
  using assms(1) leD [OF assms(2)] by (simp add: freePopHead_def)

lemma freePopHead_held: "maxSeq db < headSeq db \<Longrightarrow> freePopHead db = Some (db, 0, 0)"
  by (simp add: freePopHead_def)

section \<open>The page store as a pager\<close>

definition kv_top :: "KV \<Rightarrow> u64" where
  "kv_top db = flushed db + nappend db"

definition kv_live :: "KV \<Rightarrow> u64 set" where
  "kv_live db = {p. 0 < p \<and> p < kv_top db \<and> (tailPage db \<noteq> 0 \<longrightarrow> p \<noteq> tailPage db \<and> p \<notin> set (free_list db))}"

definition pages_sized :: "KV \<Rightarrow> bool" where
  "pages_sized db \<longleftrightarrow> (\<forall>p b. updates db p = Some b \<longrightarrow> length b = 4096 \<and> 0 < p \<and> p < kv_top db)"

definition file_ok :: "KV \<Rightarrow> bool" where
  "file_ok db \<longleftrightarrow> mm_ok db \<and> mm_total db < 2 ^ 60 \<and> length (kv_file db) < 2 ^ 60"

lemma file_ok_cong:
  "kv_file d = kv_file db \<Longrightarrow> mm_chunks d = mm_chunks db \<Longrightarrow> mm_total d = mm_total db \<Longrightarrow> file_ok d = file_ok db"
  by (simp add: file_ok_def mm_ok_def)

definition kv_inv :: "KV \<Rightarrow> bool" where
  "kv_inv db \<longleftrightarrow> file_ok db \<and> pages_sized db \<and> 0 < kv_top db \<and> unat (kv_top db) = unat (flushed db) + unat (nappend db) \<and>
     (if tailPage db = 0 then headPage db = 0 \<and> headSeq db = 0 \<and> tailSeq db = 0
      else headPage db = tailPage db \<and> tailPage db < kv_top db \<and> headSeq db \<le> tailSeq db \<and> tailSeq db \<le> 510 \<and>
        distinct (free_list db) \<and> (\<forall>e \<in> set (free_list db). 0 < e \<and> e < kv_top db \<and> e \<noteq> tailPage db) \<and>
        ((\<exists>b. free_at db b) \<or> headSeq db = tailSeq db \<and> headSeq db \<le> maxSeq db \<and> kv_live db = {}))"

definition kv_room :: "KV \<Rightarrow> nat" where
  "kv_room db = min (510 - unat (tailSeq db)) (2 ^ 48 - 1 - unat (kv_top db))"

lemma kv_tree_simps [simp]:
  "Root (kv_tree r) = r" "tget (kv_tree r) = pageRead" "tnew (kv_tree r) = pageAlloc" "tdel (kv_tree r) = freePushTail"
  "(kv_tree r)\<lparr>Root := r'\<rparr> = kv_tree r'"
  by (simp_all add: kv_tree_def)

lemma kv_live_nonzero: "0 \<notin> kv_live db"
  by (simp add: kv_live_def)

lemma kv_top_Suc: "0 < kv_room db \<Longrightarrow> unat (kv_top db + 1) = Suc (unat (kv_top db))"
  by (simp add: kv_room_def unat_word_ariths)

lemma kv_room_pos: "0 < kv_room db \<Longrightarrow> tailSeq db < 510"
  by (simp add: kv_room_def word_less_nat_alt)

lemma pageRead_upd: "pageRead (db\<lparr>updates := (updates db)(p \<mapsto> b)\<rparr>) q = (if q = p then Some b else pageRead db q)"
  by (simp add: pageRead_def split: option.split)

lemma pageRead_sel: 
  "pageRead (db\<lparr>headSeq := a\<rparr>) = pageRead db" "pageRead (db\<lparr>tailSeq := a\<rparr>) = pageRead db" "pageRead (db\<lparr>headPage := a\<rparr>) = pageRead db"
  "pageRead (db\<lparr>tailPage := a\<rparr>) = pageRead db" "pageRead (db\<lparr>nappend := a\<rparr>) = pageRead db" "pageRead (db\<lparr>kv_Root := a\<rparr>) = pageRead db"
  by (simp_all add: pageRead_def fun_eq_iff split: option.split)

text \<open>Appending a page.\<close>

lemma kv_append:
  assumes "kv_inv db" "0 < kv_room db" "tailPage db = 0 \<or> (\<exists>b. free_at db b)" "length b = 4096"
  shows "\<exists>db'. pageAppend db b = (db', kv_top db) \<and> kv_inv db' \<and> kv_room db \<le> Suc (kv_room db') \<and> kv_top db \<noteq> 0 \<and>
     kv_top db \<notin> kv_live db \<and> kv_live db' = insert (kv_top db) (kv_live db) \<and>
     db' = db\<lparr>updates := (updates db)(kv_top db \<mapsto> b), nappend := nappend db + 1\<rparr> \<and> kv_top db' = kv_top db + 1"
proof -
  let ?d = "db\<lparr>updates := (updates db)(kv_top db \<mapsto> b), nappend := nappend db + 1\<rparr>"
  have t: "kv_top ?d = kv_top db + 1" by (simp add: kv_top_def)
  note n = kv_top_Suc [OF assms(2)]
  have pos: "0 < kv_top db" using assms(1) by (simp add: kv_inv_def)
  have lt: "q < kv_top db + 1 \<longleftrightarrow> q = kv_top db \<or> q < kv_top db" for q
    using n by (auto simp: word_less_nat_alt less_Suc_eq word_unat_eq_iff)
  have rd: "pageRead ?d q = pageRead db q" if "q \<noteq> kv_top db" for q
    using that by (simp add: pageRead_sel pageRead_upd)
  have tp: "tailPage db \<noteq> kv_top db" using assms(1) by (auto simp: kv_inv_def split: if_splits)
  have fl: "free_list ?d = free_list db" using rd tp by (simp add: free_list_def split: option.split)
  have new: "kv_top db \<notin> set (free_list db)" if "tailPage db \<noteq> 0" using assms(1) that by (auto simp: kv_inv_def)
  have live: "kv_live ?d = insert (kv_top db) (kv_live db)"
    using pos tp new by (auto simp: kv_live_def t fl lt)
  have fa: "free_at ?d b" if "free_at db b" for b using that rd tp by (simp add: free_at_def)
  have nn: "unat (nappend db + 1) = Suc (unat (nappend db))"
    using assms(1,2) by (simp add: kv_inv_def kv_room_def unat_word_ariths)
  have "0 < kv_top db + 1" using n by (simp add: word_less_nat_alt)
  moreover have "file_ok ?d" using assms(1) unfolding kv_inv_def by (subst file_ok_cong [of _ db]) simp_all
  moreover have "pages_sized ?d" using assms(1,4) pos lt unfolding kv_inv_def pages_sized_def t by auto
  ultimately have inv: "kv_inv ?d"
    using assms(1,3) n nn fl fa lt unfolding kv_inv_def t by (auto simp: Suc_seq)
  have "kv_room db \<le> Suc (kv_room ?d)" using n t by (simp add: kv_room_def)
  moreover have "kv_top db \<notin> kv_live db" by (simp add: kv_live_def)
  ultimately show ?thesis using live inv pos t unfolding pageAppend_def Let_def kv_top_def [symmetric]
    by (intro exI [of _ ?d]) auto
qed

lemma kv_alloc_append:
  assumes "freePopHead db = Some (db, 0, 0)" "kv_inv db" "0 < kv_room db" "tailPage db = 0 \<or> (\<exists>b. free_at db b)" "length b = 4096"
  shows "\<exists>db' p. pageAlloc db b = Some (db', p) \<and> kv_inv db' \<and> kv_room db \<le> Suc (kv_room db') \<and> p \<noteq> 0 \<and> p \<notin> kv_live db \<and>
     insert p (kv_live db) \<subseteq> kv_live db' \<and> pageRead db' p = Some b \<and> (\<forall>q \<in> kv_live db. pageRead db' q = pageRead db q)"
proof -
  from kv_append [OF assms(2-5)] obtain db' where A: "pageAppend db b = (db', kv_top db)" "kv_inv db'"
    "kv_room db \<le> Suc (kv_room db')" "kv_top db \<noteq> 0" "kv_top db \<notin> kv_live db" "kv_live db' = insert (kv_top db) (kv_live db)"
    "db' = db\<lparr>updates := (updates db)(kv_top db \<mapsto> b), nappend := nappend db + 1\<rparr>" by blast
  have rd: "pageRead db' q = (if q = kv_top db then Some b else pageRead db q)" for q
    unfolding A(7) by (simp add: pageRead_sel pageRead_upd)
  have "pageAlloc db b = Some (db', kv_top db)" using assms(1) A(1) by (simp add: pageAlloc_def)
  moreover have "\<forall>q \<in> kv_live db. pageRead db' q = pageRead db q" using rd A(5) by auto
  ultimately show ?thesis using A(2-6) rd by (intro exI [of _ db'] exI [of _ "kv_top db"]) simp
qed

lemma kv_alloc:
  assumes inv: "kv_inv db" and room: "0 < kv_room db" and len: "length b = 4096"
  shows "\<exists>db' p. pageAlloc db b = Some (db', p) \<and> kv_inv db' \<and> kv_room db \<le> Suc (kv_room db') \<and> p \<noteq> 0 \<and> p \<notin> kv_live db \<and>
     insert p (kv_live db) \<subseteq> kv_live db' \<and> pageRead db' p = Some b \<and> (\<forall>q \<in> kv_live db. pageRead db' q = pageRead db q)"
proof (cases "tailPage db = 0 \<or> maxSeq db < headSeq db")
  case True
  have at: "tailPage db = 0 \<or> (\<exists>b. free_at db b)" using True inv by (auto simp: kv_inv_def split: if_splits)
  have "freePopHead db = Some (db, 0, 0)"
  proof (cases "maxSeq db < headSeq db")
    case False
    then have "tailPage db = 0" "headPage db = 0" "headSeq db = 0" "tailSeq db = 0"
      using True inv by (auto simp: kv_inv_def split: if_splits)
    then show ?thesis using False by (simp add: freePopHead_def)
  qed (simp add: freePopHead_def)
  from kv_alloc_append [OF this inv room at len] show ?thesis .
next
  case False
  let ?t = "tailPage db"
  from False inv have I: "?t \<noteq> 0" "headSeq db \<le> maxSeq db" "headPage db = ?t" "?t < kv_top db" "headSeq db \<le> tailSeq db"
    "tailSeq db \<le> 510" "distinct (free_list db)" "\<forall>e \<in> set (free_list db). 0 < e \<and> e < kv_top db \<and> e \<noteq> ?t"
    "(\<exists>b. free_at db b) \<or> headSeq db = tailSeq db" "0 < kv_top db" "unat (kv_top db) = unat (flushed db) + unat (nappend db)"
    "pages_sized db" "file_ok db"
    by (auto simp: kv_inv_def split: if_splits)
  show ?thesis
  proof (cases "headSeq db = tailSeq db")
    case True
    let ?d = "db\<lparr>headPage := 0, tailPage := 0, tailSeq := 0, headSeq := 0, updates := (updates db)(?t \<mapsto> b)\<rparr>"
    have run: "pageAlloc db b = Some (?d, ?t)"
      using freePopHead_empty [OF True I(2)] I(1,3) by (simp add: pageAlloc_def)
    have t: "kv_top ?d = kv_top db" by (simp add: kv_top_def)
    have "pages_sized ?d" using I(1,4,12) len t by (simp add: pages_sized_def word_neq_0_conv)
    moreover have "file_ok ?d" using I(13) by (subst file_ok_cong [of _ db]) simp_all
    ultimately have "kv_inv ?d" using I(10,11) by (simp add: kv_inv_def kv_top_def)
    moreover have "kv_room db \<le> Suc (kv_room ?d)" using t by (simp add: kv_room_def)
    moreover have "?t \<notin> kv_live db" using I(1) by (simp add: kv_live_def)
    moreover have "insert ?t (kv_live db) \<subseteq> kv_live ?d"
      using I(1,4) t by (auto simp: kv_live_def word_neq_0_conv)
    moreover have rd: "pageRead ?d q = (if q = ?t then Some b else pageRead db q)" for q
      by (simp add: pageRead_def split: option.split)
    ultimately show ?thesis using I(1) run by (intro exI [of _ ?d] exI [of _ ?t]) auto
  next
    case ne: False
    then obtain lb where at: "free_at db lb" using I(9) by blast
    have "headSeq db < tailSeq db" using ne I(5) by simp
    from freePopHead_at [OF at this I(2)] obtain e es where P: "free_list db = e # es"
      "freePopHead db = Some (db\<lparr>headSeq := headSeq db + 1\<rparr>, e, 0)" "free_at (db\<lparr>headSeq := headSeq db + 1\<rparr>) lb"
      "free_list (db\<lparr>headSeq := headSeq db + 1\<rparr>) = es" by blast
    have e: "e \<noteq> 0" "e < kv_top db" "e \<noteq> ?t" "e \<notin> set es" using I(7,8) P(1) by auto
    let ?d = "db\<lparr>headSeq := headSeq db + 1, updates := (updates db)(e \<mapsto> b)\<rparr>"
    have run: "pageAlloc db b = Some (?d, e)" using P(2) e(1) by (simp add: pageAlloc_def)
    have rd: "pageRead ?d q = (if q = e then Some b else pageRead db q)" for q
      by (simp add: pageRead_def split: option.split)
    have at': "free_at ?d lb" using P(3) rd e(3) by (simp add: free_at_def pageRead_sel)
    have "free_list ?d = free_items lb (unat (headSeq db + 1)) (unat (tailSeq db))" using free_list_at [OF at'] by simp
    also have "\<dots> = es" using free_list_at [OF P(3)] P(4) by simp
    finally have fl: "free_list ?d = es" .
    have t: "kv_top ?d = kv_top db" by (simp add: kv_top_def)
    have le: "headSeq db + 1 \<le> tailSeq db" using at' by (simp add: free_at_def)
    have live: "insert e (kv_live db) \<subseteq> kv_live ?d" "e \<notin> kv_live db"
      using e I(1) P(1) by (auto simp: kv_live_def t fl word_neq_0_conv)
    have "pages_sized ?d" using e I(12) len t by (simp add: pages_sized_def word_neq_0_conv)
    moreover have "file_ok ?d" using I(13) by (subst file_ok_cong [of _ db]) simp_all
    ultimately have "kv_inv ?d" using I at' le P(1) fl t by (auto simp: kv_inv_def)
    moreover have "kv_room db \<le> Suc (kv_room ?d)" using t by (simp add: kv_room_def)
    ultimately show ?thesis using run live e(1) rd by (intro exI [of _ ?d] exI [of _ e]) auto
  qed
qed

lemma kv_free:
  assumes inv: "kv_inv db" and room: "0 < kv_room db" and p: "p \<in> kv_live db"
  shows "\<exists>db'. freePushTail db p = Some db' \<and> kv_inv db' \<and> kv_room db \<le> Suc (kv_room db') \<and> kv_live db - {p} \<subseteq> kv_live db' \<and>
     (\<forall>q \<in> kv_live db - {p}. pageRead db' q = pageRead db q)"
proof (cases "tailPage db = 0")
  case True
  let ?n = "make_bytes PAGE_SIZE" and ?t = "kv_top db"
  have "length ?n = 4096" by (simp add: make_bytes_def)
  from kv_append [OF inv room disjI1 [OF True] this] obtain db1 where A: "pageAppend db ?n = (db1, ?t)" "kv_inv db1"
    "kv_room db \<le> Suc (kv_room db1)" "?t \<noteq> 0" "?t \<notin> kv_live db" "kv_live db1 = insert ?t (kv_live db)"
    "db1 = db\<lparr>updates := (updates db)(?t \<mapsto> ?n), nappend := nappend db + 1\<rparr>" "kv_top db1 = ?t + 1" by blast
  let ?b = "put 8 (le64 p) ?n"
  let ?d = "db1\<lparr>headPage := ?t, tailPage := ?t, headSeq := 0, updates := (updates db)(?t \<mapsto> ?b), tailSeq := 1\<rparr>"
  have len: "length ?n = 4096" by (simp add: make_bytes_def)
  have sel: "tailSeq db1 = tailSeq db" "updates db1 = (updates db)(?t \<mapsto> ?n)" by (simp_all add: A(7))
  have run: "freePushTail db p = Some ?d"
    using True A(1) len sel by (simp add: freePushTail_def Let_def pagePut_def PutUint64_at_def)
  have top: "kv_top ?d = ?t + 1" using A(8) by (simp add: kv_top_def)
  have rd: "pageRead ?d q = (if q = ?t then Some ?b else pageRead db q)" for q
    unfolding A(7) by (simp add: pageRead_def split: option.split)
  have at: "free_at ?d ?b" using A(4) rd len by (simp add: free_at_def)
  have "free_list ?d = free_items ?b 0 (Suc 0)" using free_list_at [OF at] by simp
  also have "\<dots> = [p]" using free_items_push [of 0 0 ?n p] len by (simp add: free_items_def)
  finally have fl: "free_list ?d = [p]" .
  have pt: "p \<noteq> ?t" "0 < p" "p < ?t" using p by (auto simp: kv_live_def)
  have lt: "?t < ?t + 1" using kv_top_Suc [OF room] by (simp add: word_less_nat_alt)
  have "kv_live db - {p} \<subseteq> kv_live ?d" using lt by (auto simp: kv_live_def top fl)
  moreover have "kv_inv ?d"
  proof -
    have "0 < kv_top db1" "unat (kv_top db1) = unat (flushed db1) + unat (nappend db1)" using A(2) by (simp_all add: kv_inv_def)
    moreover have "file_ok ?d" using inv unfolding kv_inv_def A(7) by (subst file_ok_cong [of _ db]) simp_all
    moreover have "pages_sized ?d"
      using A(2,8) len sel top by (auto simp: kv_inv_def pages_sized_def split: if_splits)
    ultimately show ?thesis using A(4,8) pt lt at fl top by (auto simp: kv_inv_def)
  qed
  moreover have "kv_room db \<le> Suc (kv_room ?d)"
    using top kv_top_Suc [OF room] True inv by (simp add: kv_room_def kv_inv_def)
  moreover have "\<forall>q \<in> kv_live db - {p}. pageRead ?d q = pageRead db q" using rd A(5) by auto
  ultimately show ?thesis using run by (intro exI [of _ ?d]) simp
next
  case False
  let ?t = "tailPage db"
  from False inv p have I: "headPage db = ?t" "?t < kv_top db" "headSeq db \<le> tailSeq db"
    "distinct (free_list db)" "\<forall>e \<in> set (free_list db). 0 < e \<and> e < kv_top db \<and> e \<noteq> ?t"
    "\<exists>b. free_at db b" "0 < kv_top db" "unat (kv_top db) = unat (flushed db) + unat (nappend db)"
    "pages_sized db" "file_ok db"
    by (auto simp: kv_inv_def split: if_splits)
  from I(6) obtain b where at: "free_at db b" by blast
  note ts = kv_room_pos [OF room]
  from freePushTail_at [OF at ts, of p] obtain b' where P:
    "freePushTail db p = Some (db\<lparr>updates := (updates db)(?t \<mapsto> b'), tailSeq := tailSeq db + 1\<rparr>)"
    "free_at (db\<lparr>updates := (updates db)(?t \<mapsto> b'), tailSeq := tailSeq db + 1\<rparr>) b'"
    "free_items b' (unat (headSeq db)) (unat (tailSeq db + 1)) = free_list db @ [p]" by blast
  let ?d = "db\<lparr>updates := (updates db)(?t \<mapsto> b'), tailSeq := tailSeq db + 1\<rparr>"
  have fl: "free_list ?d = free_list db @ [p]" using free_list_at [OF P(2)] P(3) by simp
  have t: "kv_top ?d = kv_top db" by (simp add: kv_top_def)
  have rd: "pageRead ?d q = (if q = ?t then Some b' else pageRead db q)" for q
    by (simp add: pageRead_def split: option.split)
  have pl: "p \<noteq> ?t" "0 < p" "p < kv_top db" "p \<notin> set (free_list db)" using p False by (auto simp: kv_live_def)
  have seq: "headSeq db \<le> tailSeq db + 1" "tailSeq db + 1 \<le> 510" using P(2) by (simp_all add: free_at_def)
  have live: "kv_live db - {p} \<subseteq> kv_live ?d" by (auto simp: kv_live_def t fl)
  have "pages_sized ?d" using I(2,9) P(2) False t by (simp add: pages_sized_def free_at_def word_neq_0_conv)
  moreover have "file_ok ?d" using I(10) by (subst file_ok_cong [of _ db]) simp_all
  ultimately have inv': "kv_inv ?d" using I P(2) fl t pl seq False by (auto simp: kv_inv_def)
  moreover have "kv_room db \<le> Suc (kv_room ?d)"
  proof -
    have "unat (tailSeq db + 1) = Suc (unat (tailSeq db))" using ts by (intro Suc_seq) (simp add: word_less_nat_alt)
    then show ?thesis using t by (simp add: kv_room_def)
  qed
  moreover have "\<forall>q \<in> kv_live db - {p}. pageRead ?d q = pageRead db q" using rd False by (auto simp: kv_live_def)
  ultimately show ?thesis using P(1) live inv' by (intro exI [of _ ?d]) simp
qed

interpretation kv: pager "kv_tree r" kv_inv kv_live kv_room for r
  by unfold_locales (use kv_alloc kv_free kv_live_nonzero in simp_all)

section \<open>Properties\<close>


text \<open>C25: The free list is a queue: a push appends the page number at the end, and a pop that is allowed
  takes the number at the front, as long as the list stays on its page.\<close>

theorem free_list_fifo:
  assumes "free_at db b" "tailSeq db < 510" "headSeq db \<le> maxSeq db"
  shows "\<exists>db' db''. freePushTail db p = Some db' \<and> free_list db' = free_list db @ [p] \<and>
     freePopHead db' = Some (db'', hd (free_list db @ [p]), 0) \<and> free_list db'' = tl (free_list db @ [p])"
proof -
  from freePushTail_at [OF assms(1,2), of p] obtain b' where
    P: "freePushTail db p = Some (db\<lparr>updates := (updates db)(tailPage db \<mapsto> b'), tailSeq := tailSeq db + 1\<rparr>)"
    "free_at (db\<lparr>updates := (updates db)(tailPage db \<mapsto> b'), tailSeq := tailSeq db + 1\<rparr>) b'"
    "free_items b' (unat (headSeq db)) (unat (tailSeq db + 1)) = free_list db @ [p]" by blast
  let ?d = "db\<lparr>updates := (updates db)(tailPage db \<mapsto> b'), tailSeq := tailSeq db + 1\<rparr>"
  have fl: "free_list ?d = free_list db @ [p]" using free_list_at [OF P(2)] P(3) by simp
  have "unat (tailSeq db + 1) = Suc (unat (tailSeq db))" using assms(2) by (intro Suc_seq) (simp add: word_less_nat_alt)
  moreover have "unat (headSeq db) \<le> unat (tailSeq db)" using assms(1) by (simp add: free_at_def word_le_nat_alt)
  ultimately have "headSeq ?d < tailSeq ?d" by (simp add: word_less_nat_alt)
  from freePopHead_at [OF P(2) this] assms(3) obtain e es where
    "free_list ?d = e # es" "freePopHead ?d = Some (?d\<lparr>headSeq := headSeq ?d + 1\<rparr>, e, 0)"
    "free_list (?d\<lparr>headSeq := headSeq ?d + 1\<rparr>) = es" by auto
  then show ?thesis using P(1) fl by (intro exI [of _ ?d] exI [of _ "?d\<lparr>headSeq := headSeq ?d + 1\<rparr>"]) simp
qed

definition demo_store :: KV where
  "demo_store = \<lparr>kv_file = [], kv_Root = 0, mm_total = 0, mm_chunks = [], flushed = 2, nappend = 0,
     updates = [1 \<mapsto> replicate 4096 0], headPage = 1, headSeq = 0, tailPage = 1, tailSeq = 0, maxSeq = 0\<rparr>"

lemma demo_store_free: "free_at demo_store (replicate 4096 0)" "free_list demo_store = []"
  by (simp_all add: free_at_def free_list_def demo_store_def pageRead_def free_items_def)

lemma demo_store_inv: "kv_inv demo_store" "0 < kv_room demo_store"
proof -
  have "pages_sized demo_store" "file_ok demo_store" "kv_top demo_store = 2"
    by (simp_all add: pages_sized_def file_ok_def mm_ok_def demo_store_def kv_top_def)
  then show "kv_inv demo_store" "0 < kv_room demo_store"
    using demo_store_free by (auto simp: kv_inv_def kv_room_def) (simp_all add: demo_store_def)
qed


theorem free_list_fifo_witness:
  "\<exists>db' db''. freePushTail demo_store 9 = Some db' \<and> free_list db' = [9] \<and> freePopHead db' = Some (db'', 9, 0)"
  using free_list_fifo [OF demo_store_free(1), of 9] demo_store_free(2) by (auto simp: demo_store_def)

end
