(* ===== verification/Disk_Reopen.thy ===== *)
theory Disk_Reopen
  imports Disk_Correct
begin

section \<open>Reopening the database\<close>

text \<open>The struct \<open>KV\<close> as \<open>NewKV\<close> leaves it, over an existing file.\<close>

definition KV_zero :: "bytes \<Rightarrow> KV" where
  "KV_zero f = \<lparr>kv_file = f, kv_Root = 0, mm_total = 0, mm_chunks = [], flushed = 0, nappend = 0, updates = Map.empty,
     headPage = 0, headSeq = 0, tailPage = 0, tailSeq = 0, maxSeq = 0\<rparr>"

lemma file_page_0: "96 \<le> length f \<Longrightarrow> take 96 (file_page f 0) = take 96 f"
  by (simp add: file_page_def min_def)

lemma Open_saved:
  assumes "take 96 f = saveMeta db" "96 \<le> length f" "length f < 2 ^ 60" "sys_create sys = None" "sys_mmap sys = None"
  shows "\<exists>db2. Open sys (KV_zero f) = Some (Inr db2) \<and> kv_file db2 = f \<and> mm_ok db2 \<and> int (length f) \<le> mm_total db2 \<and>
     kv_Root db2 = kv_Root db \<and> flushed db2 = flushed db \<and> nappend db2 = 0 \<and> updates db2 = Map.empty \<and>
     headPage db2 = headPage db \<and> headSeq db2 = headSeq db \<and> tailPage db2 = tailPage db \<and> tailSeq db2 = tailSeq db \<and>
     maxSeq db2 = maxSeq db"
proof -
  let ?z = "KV_zero f"
  have fne: "f \<noteq> []" using assms(2) by auto
  have "snd (extendMmap sys ?z (int (length f))) = None" using assms(5) by (simp add: extendMmap_def Let_def)
  then obtain db1 where ext: "extendMmap sys ?z (int (length f)) = (db1, None)" by (cases "extendMmap sys ?z (int (length f))") auto
  have "mm_ok ?z" "mm_total ?z < 2 ^ 60" by (simp_all add: mm_ok_def KV_zero_def)
  moreover have "int (length f) < 2 ^ 61"
  proof -
    have "int (length f) < int (2 ^ 61)" unfolding of_nat_less_iff using assms(3) by simp
    then show ?thesis by simp
  qed
  ultimately obtain cs where db1: "mm_ok db1" "int (length f) \<le> mm_total db1"
      "db1 = ?z\<lparr>mm_total := mm_total db1, mm_chunks := mm_chunks ?z @ cs\<rparr>"
    using extendMmap_ok [OF ext] by blast
  have sel: "kv_file db1 = f" "updates db1 = Map.empty" "nappend db1 = 0" by (subst db1(3), simp add: KV_zero_def)+
  have pos: "0 < sum_list (mm_chunks db1)"
    using db1(1,2) assms(2) by (simp add: mm_ok_def)
  have "4096 dvd sum_list (mm_chunks db1)" using db1(1) dvd_sum_chunks by (auto simp: mm_ok_def)
  then have cov: "4096 \<le> sum_list (mm_chunks db1)" using pos by (auto dest: dvd_imp_le)
  have "pageRead db1 0 = Some (file_page f 0)"
    using pageRead_mapped [OF db1(1), of 0] sel cov assms(2) by (cases f) simp_all
  then have rd: "mm_read f 0 (mm_chunks db1) 0 0 = Some (file_page f 0)" using sel by (simp add: pageRead_def)
  have "take 96 (file_page f 0) = saveMeta db" using file_page_0 assms(1,2) by simp
  from loadMeta_saveMeta_prefix [OF _ this]
  have lm: "loadMeta (db1\<lparr>updates := Map.empty\<rparr>) (file_page f 0) = Some (db1\<lparr>updates := Map.empty, kv_Root := kv_Root db,
     flushed := flushed db, headPage := headPage db, headSeq := headSeq db, tailPage := tailPage db, tailSeq := tailSeq db,
     maxSeq := maxSeq db\<rparr>)" by simp
  let ?r = "db1\<lparr>updates := Map.empty, kv_Root := kv_Root db,
     flushed := flushed db, headPage := headPage db, headSeq := headSeq db, tailPage := tailPage db, tailSeq := tailSeq db,
     maxSeq := maxSeq db\<rparr>"
  have "Open sys ?z = Some (Inr (db1\<lparr>updates := Map.empty, kv_Root := kv_Root db,
     flushed := flushed db, headPage := headPage db, headSeq := headSeq db, tailPage := tailPage db, tailSeq := tailSeq db,
     maxSeq := maxSeq db\<rparr>))"
    using ext fne assms(4) rd lm sel by (simp add: Open_def readRoot_def KV_zero_def)
  moreover have "mm_ok (db1\<lparr>updates := Map.empty, kv_Root := kv_Root db,
     flushed := flushed db, headPage := headPage db, headSeq := headSeq db, tailPage := tailPage db, tailSeq := tailSeq db,
     maxSeq := maxSeq db\<rparr>)" using db1(1) by (simp add: mm_ok_def)
  ultimately show ?thesis using db1(2) sel by (intro exI [of _ ?r] conjI) simp_all
qed

text \<open>Every page that could be read through the map of the file can be read after reopening it.\<close>

lemma reopen_reads:
  assumes "mm_ok db'" "updates db' = Map.empty" "mm_ok db2" "updates db2 = Map.empty" "kv_file db2 = kv_file db'"
    and "int (length (kv_file db')) \<le> mm_total db2" "pageRead db' p = Some b"
  shows "pageRead db2 p = Some b"
proof -
  have 1: "unat p * 4096 < length (kv_file db')" "b = file_page (kv_file db') (unat p)"
    using assms(7) pageRead_mapped [OF assms(1), of p] assms(2) by (simp_all split: if_splits)
  have le: "length (kv_file db') \<le> sum_list (mm_chunks db2)" using assms(3,6) by (simp add: mm_ok_def)
  have "4096 dvd sum_list (mm_chunks db2)" using assms(3) dvd_sum_chunks by (auto simp: mm_ok_def)
  then obtain n where n: "sum_list (mm_chunks db2) = 4096 * n" by auto
  then have "unat p < n" using le 1(1) by linarith
  then have "Suc (unat p) * 4096 \<le> n * 4096" by (intro mult_le_mono1) simp
  then show ?thesis using pageRead_mapped [OF assms(3), of p] assms(4,5) 1 n by simp
qed

section \<open>Properties\<close>

text \<open>C23: A commit to the file that reports no error leaves every page but the meta page readable with
  the bytes it had in memory before, whichever order the updated pages are written in, and empties the
  set of pending updates. The pages are the size of a page, lie below the end of the database, and the
  database is smaller than 2 ^ 60 bytes.\<close>

theorem updateFile_durable:
  assumes "updateFile sys order db = (db', None)" "mm_ok db" "mm_total db < 2 ^ 60" "tx_pages_ok db"
    and "set order = dom (updates db)" "p \<noteq> 0" "pageRead db p = Some b"
  shows "pageRead db' p = Some b \<and> updates db' = Map.empty \<and> kv_Root db' = kv_Root db \<and>
     flushed db' = flushed db + nappend db \<and> nappend db' = 0 \<and> mm_ok db'"
  using updateFile_ok [OF assms(1-5)] assms(6,7) by simp

definition Sys_ok :: Sys where
  "Sys_ok = \<lparr>sys_create = None, sys_mmap = None, sys_pwrite = (\<lambda>p. None), sys_fsync_pages = None,
     sys_pwrite_meta = None, sys_fsync_meta = None\<rparr>"

definition demo_KV :: KV where
  "demo_KV = (KV_zero [])\<lparr>kv_Root := 2, flushed := 2, nappend := 1, updates := [2 \<mapsto> replicate 4096 7]\<rparr>"

lemma demo_commit: "\<exists>db'. updateFile Sys_ok [2] demo_KV = (db', None)"
  by (simp add: updateFile_def demo_KV_def Sys_ok_def KV_zero_def extendMmap_def Let_def)

lemma demo_ok: "mm_ok demo_KV" "mm_total demo_KV < 2 ^ 60" "tx_pages_ok demo_KV" "set [2] = dom (updates demo_KV)"
  "pageRead demo_KV 2 = Some (replicate 4096 7)"
  by (simp_all add: mm_ok_def demo_KV_def KV_zero_def tx_pages_ok_def pageRead_def)

theorem updateFile_durable_witness:
  "\<exists>db'. updateFile Sys_ok [2] demo_KV = (db', None) \<and> pageRead db' 2 = Some (replicate 4096 7) \<and> flushed db' = 3"
proof -
  obtain db' where "updateFile Sys_ok [2] demo_KV = (db', None)" using demo_commit by blast
  from updateFile_durable [OF this demo_ok(1-4) _ demo_ok(5)] this show ?thesis
    by (auto simp: demo_KV_def KV_zero_def)
qed

text \<open>C24: After a commit that reported no error, opening the file again (in a new process) succeeds, finds
  the root and the free list of the commit, and reads every page but the meta page as the commit left it.
  The counter of pages it finds is the one from before the commit: \<open>updateFile\<close> writes the meta page
  before it advances \<open>flushed\<close>.\<close>

theorem Open_after_commit:
  assumes "updateFile sys order db = (db', None)" "mm_ok db" "mm_total db < 2 ^ 60" "tx_pages_ok db"
    and "set order = dom (updates db)" "length (kv_file db') < 2 ^ 60" "sys_create sys' = None" "sys_mmap sys' = None"
  shows "\<exists>db2. Open sys' (KV_zero (kv_file db')) = Some (Inr db2) \<and> kv_Root db2 = kv_Root db \<and>
     headPage db2 = headPage db \<and> headSeq db2 = headSeq db \<and> tailPage db2 = tailPage db \<and> tailSeq db2 = tailSeq db \<and>
     flushed db2 = flushed db \<and> (\<forall>p b. p \<noteq> 0 \<longrightarrow> pageRead db p = Some b \<longrightarrow> pageRead db2 p = Some b)"
proof -
  note U = updateFile_ok [OF assms(1-5)]
  from Open_saved [OF U(6,7) assms(6,7,8)] obtain db2 where
    O: "Open sys' (KV_zero (kv_file db')) = Some (Inr db2)" "kv_file db2 = kv_file db'" "mm_ok db2"
    "int (length (kv_file db')) \<le> mm_total db2" "kv_Root db2 = kv_Root db" "flushed db2 = flushed db" "nappend db2 = 0"
    "updates db2 = Map.empty" "headPage db2 = headPage db" "headSeq db2 = headSeq db" "tailPage db2 = tailPage db"
    "tailSeq db2 = tailSeq db" by blast
  have "pageRead db2 p = Some b" if "p \<noteq> 0" "pageRead db p = Some b" for p b
    using reopen_reads [OF U(5,3) O(3,8,2,4) U(8) [OF that]] .
  then show ?thesis using O by (intro exI [of _ db2]) simp
qed

text \<open>C30: The consequence of the stale counter: when a commit appended pages, the first page that the
  reopened database appends has the number of a page that the commit wrote, so that page is lost.\<close>

theorem reopen_overwrites:
  assumes "updateFile sys order db = (db', None)" "mm_ok db" "mm_total db < 2 ^ 60" "tx_pages_ok db"
    and "set order = dom (updates db)" "length (kv_file db') < 2 ^ 60" "sys_create sys' = None" "sys_mmap sys' = None"
    and "updates db (flushed db) = Some b"
  shows "\<exists>db2. Open sys' (KV_zero (kv_file db')) = Some (Inr db2) \<and> pageRead db2 (flushed db) = Some b \<and>
     (let (db3, ptr) = pageAppend db2 b' in ptr = flushed db \<and> pageRead db3 (flushed db) = Some b')"
proof -
  note U = updateFile_ok [OF assms(1-5)]
  from Open_saved [OF U(6,7) assms(6,7,8)] obtain db2 where
    O: "Open sys' (KV_zero (kv_file db')) = Some (Inr db2)" "kv_file db2 = kv_file db'" "mm_ok db2"
    "int (length (kv_file db')) \<le> mm_total db2" "flushed db2 = flushed db" "nappend db2 = 0" "updates db2 = Map.empty" by blast
  have "flushed db \<noteq> 0" "pageRead db (flushed db) = Some b" using assms(4,9) by (fastforce simp: tx_pages_ok_def pageRead_def)+
  from reopen_reads [OF U(5,3) O(3,7,2,4) U(8) [OF this]] have "pageRead db2 (flushed db) = Some b" .
  then show ?thesis using O by (intro exI [of _ db2]) (simp add: pageAppend_def Let_def pageRead_def)
qed

lemma demo_commit_length: "updateFile Sys_ok [2] demo_KV = (db', None) \<Longrightarrow> length (kv_file db') < 2 ^ 60"
  by (auto simp: updateFile_def demo_KV_def Sys_ok_def KV_zero_def extendMmap_def Let_def length_pwrite saveMeta_slices)

theorem Open_after_commit_witness:
  "\<exists>db' db2. updateFile Sys_ok [2] demo_KV = (db', None) \<and> Open Sys_ok (KV_zero (kv_file db')) = Some (Inr db2) \<and>
     kv_Root db2 = 2 \<and> pageRead db2 2 = Some (replicate 4096 7)"
proof -
  obtain db' where u: "updateFile Sys_ok [2] demo_KV = (db', None)" using demo_commit by blast
  have "sys_create Sys_ok = None" "sys_mmap Sys_ok = None" by (simp_all add: Sys_ok_def)
  from Open_after_commit [OF u demo_ok(1-4) demo_commit_length [OF u] this] obtain db2 where
    "Open Sys_ok (KV_zero (kv_file db')) = Some (Inr db2)" "kv_Root db2 = kv_Root demo_KV"
    "\<forall>p b. p \<noteq> 0 \<longrightarrow> pageRead demo_KV p = Some b \<longrightarrow> pageRead db2 p = Some b" by blast
  then show ?thesis using u demo_ok(5) by (intro exI [of _ db'] exI [of _ db2]) (simp add: demo_KV_def KV_zero_def)
qed

theorem reopen_overwrites_witness:
  "\<exists>db' db2. updateFile Sys_ok [2] demo_KV = (db', None) \<and> Open Sys_ok (KV_zero (kv_file db')) = Some (Inr db2) \<and>
     pageRead db2 2 = Some (replicate 4096 7) \<and> snd (pageAppend db2 [9]) = 2 \<and> pageRead (fst (pageAppend db2 [9])) 2 = Some [9]"
proof -
  obtain db' where u: "updateFile Sys_ok [2] demo_KV = (db', None)" using demo_commit by blast
  have s: "sys_create Sys_ok = None" "sys_mmap Sys_ok = None" "updates demo_KV (flushed demo_KV) = Some (replicate 4096 7)"
    by (simp_all add: Sys_ok_def demo_KV_def KV_zero_def)
  have fl: "flushed demo_KV = 2" by (simp add: demo_KV_def)
  from reopen_overwrites [OF u demo_ok(1-4) demo_commit_length [OF u] s, of "[9]"] obtain db2 where
    "Open Sys_ok (KV_zero (kv_file db')) = Some (Inr db2)" "pageRead db2 2 = Some (replicate 4096 7)"
    "let (db3, ptr) = pageAppend db2 [9] in ptr = 2 \<and> pageRead db3 2 = Some [9]" unfolding fl by blast
  then show ?thesis using u by (intro exI [of _ db'] exI [of _ db2]) (simp add: Let_def split: prod.splits)
qed

section \<open>The free list at the end of its page\<close>

lemma le_bytes_0: "le_bytes n 0 = replicate n 0"
  by (induction n) simp_all

lemma le64_0: "le64 0 = replicate 8 0"
  by (simp add: le64_def le_bytes_0)

text \<open>C31: When the free list has one page and is empty at the last slot of the page, the push that fills
  the page loses the head of the list: \<open>freePopHead\<close> hands out the pushed page as the next list page and
  reads the new head from the link of the old page before \<open>freePushTail\<close> has written it. The list is not
  empty afterwards, but its head is page 0, the meta page.\<close>

theorem freePushTail_wrap:
  assumes "headPage db = tailPage db" "tailPage db \<noteq> 0" "headSeq db = 510" "tailSeq db = 510" "510 \<le> maxSeq db"
    and "updates db (tailPage db) = Some b" "length b = 4096" "take 8 b = replicate 8 0"
    and "updates db ptr = Some c" "length c = 4096" "ptr \<noteq> tailPage db" "ptr \<noteq> 0"
  shows "\<exists>db'. freePushTail db ptr = Some db' \<and> headPage db' = 0 \<and> tailPage db' = ptr \<and> headSeq db' = 511 \<and> tailSeq db' = 512"
proof -
  let ?b = "put 4088 (le64 ptr) b"
  have b8: "slice 0 8 ?b = le64 0"
  proof -
    have "slice 0 8 ?b = slice 0 8 b" using assms(7) by (intro slice_put_before) simp_all
    also have "\<dots> = le64 0" using assms(8) by (simp add: slice_def le64_0)
    finally show ?thesis .
  qed
  have len: "length ?b = 4096" using assms(7) by simp
  have "slice 4088 8 ?b = le64 ptr" using assms(7) by (intro slice_put_same) simp_all
  then have r1: "Uint64_at ?b 4088 = Some ptr" using assms(7) by (intro Uint64_at_slice) simp_all
  have r0: "Uint64_at ?b 0 = Some 0" using assms(7) b8 by (intro Uint64_at_slice) simp_all
  have pop: "freePopHead (db\<lparr>updates := (updates db)(tailPage db \<mapsto> ?b), tailSeq := 511\<rparr>) =
     Some (db\<lparr>updates := (updates db)(tailPage db \<mapsto> ?b), tailSeq := 511, headSeq := 511, headPage := 0\<rparr>, ptr, tailPage db)"
    using assms(1,3) leD [OF assms(5)] r1 r0 by (simp add: freePopHead_def pageRead_def Let_def)
  let ?u = "(updates db)(tailPage db \<mapsto> ?b)"
  have w1: "pageWrite db (tailPage db) = Some (db, b)" using assms(6) by (simp add: pageWrite_def)
  have p1: "pagePut db (tailPage db) b 4088 ptr = Some (db\<lparr>updates := ?u\<rparr>)"
    using assms(7) by (simp add: pagePut_def PutUint64_at_def)
  let ?d2 = "db\<lparr>updates := ?u, tailSeq := 511, headSeq := 511, headPage := 0\<rparr>"
  have w2: "pageWrite ?d2 (tailPage db) = Some (?d2, ?b)" by (simp add: pageWrite_def)
  let ?u3 = "(updates db)(tailPage db \<mapsto> put 0 (le64 ptr) ?b)"
  let ?d3 = "?d2\<lparr>updates := ?u3\<rparr>"
  have p2: "pagePut ?d2 (tailPage db) ?b 0 ptr = Some ?d3"
    using len by (simp add: pagePut_def PutUint64_at_def)
  have w3: "pageWrite (?d3\<lparr>tailPage := ptr\<rparr>) ptr = Some (?d3\<lparr>tailPage := ptr\<rparr>, c)"
    using assms(9,11) by (simp add: pageWrite_def)
  have p3: "pagePut (?d3\<lparr>tailPage := ptr\<rparr>) ptr c 8 (tailPage db) =
      Some (?d3\<lparr>tailPage := ptr, updates := ?u3(ptr \<mapsto> put 8 (le64 (tailPage db)) c)\<rparr>)"
    using assms(10) by (simp add: pagePut_def PutUint64_at_def)
  have i: "unat (8 + tailSeq db mod LIST_CAP * 8) = 4088" "(tailSeq db + 1) mod LIST_CAP = 0" "tailSeq db + 1 = 511"
    using assms(4) by simp_all
  show ?thesis
    unfolding freePushTail_def Let_def i w1
    using assms(2,4,12) pop p1 w2 p2 w3 p3 i by (simp add: bind.bind_lunit)
qed

theorem freePushTail_wrap_witness:
  "\<exists>db'. freePushTail ((KV_zero [])\<lparr>headPage := 5, tailPage := 5, headSeq := 510, tailSeq := 510, maxSeq := 510,
       updates := [5 \<mapsto> replicate 4096 0, 7 \<mapsto> replicate 4096 0]\<rparr>) 7 = Some db' \<and> headPage db' = 0 \<and> tailSeq db' = 512"
  using freePushTail_wrap [of "(KV_zero [])\<lparr>headPage := 5, tailPage := 5, headSeq := 510, tailSeq := 510, maxSeq := 510,
       updates := [5 \<mapsto> replicate 4096 0, 7 \<mapsto> replicate 4096 0]\<rparr>" "replicate 4096 0" 7 "replicate 4096 0"]
  by simp blast

end
