(* ===== verification/KV_Store.thy ===== *)
theory KV_Store
  imports Free_List Disk_Reopen
begin

text \<open>
  The key-value store refines a map: \<open>kv_store db h M\<close> says that the database holds the map \<open>M\<close> in a tree
  of height at most \<open>h\<close>. \<open>KV_Set\<close>, \<open>KV_Get\<close> and \<open>KV_Del\<close> act on the map, and the map survives a commit to the
  file and a later \<open>Open\<close>.
\<close>

definition kv_store :: "KV \<Rightarrow> nat \<Rightarrow> (bytes \<Rightarrow> bytes option) \<Rightarrow> bool" where
  "kv_store db h M \<longleftrightarrow> kv_inv db \<and> store (kv_tree (kv_Root db)) kv_live db h M"

section \<open>The root is not part of the page store\<close>

lemma kv_root_frame [simp]:
  "pageRead (db\<lparr>kv_Root := r\<rparr>) = pageRead db" "kv_inv (db\<lparr>kv_Root := r\<rparr>) = kv_inv db" "kv_live (db\<lparr>kv_Root := r\<rparr>) = kv_live db"
  "kv_room (db\<lparr>kv_Root := r\<rparr>) = kv_room db"
proof -
  have t: "kv_top (db\<lparr>kv_Root := r\<rparr>) = kv_top db" by (simp add: kv_top_def)
  show rd: "pageRead (db\<lparr>kv_Root := r\<rparr>) = pageRead db" by (rule pageRead_sel)
  have fl: "free_list (db\<lparr>kv_Root := r\<rparr>) = free_list db" by (simp add: free_list_def rd split: option.split)
  show live: "kv_live (db\<lparr>kv_Root := r\<rparr>) = kv_live db" by (simp add: kv_live_def t fl)
  have at: "free_at (db\<lparr>kv_Root := r\<rparr>) = free_at db" by (simp add: fun_eq_iff free_at_def rd)
  have fo: "file_ok (db\<lparr>kv_Root := r\<rparr>) = file_ok db" by (subst file_ok_cong [of _ db]) simp_all
  show "kv_inv (db\<lparr>kv_Root := r\<rparr>) = kv_inv db" by (simp add: kv_inv_def pages_sized_def t fl live at fo)
  show "kv_room (db\<lparr>kv_Root := r\<rparr>) = kv_room db" by (simp add: kv_room_def t)
qed

lemma tree_holds_root_frame:
  "tree_holds (kv_tree r) kv_live db h T \<Longrightarrow> tree_holds (kv_tree r) kv_live (db\<lparr>kv_Root := r'\<rparr>) h T"
  by (simp add: tree_holds_def)

lemma store_root_frame:
  "store (kv_tree r) kv_live db h M \<Longrightarrow> store (kv_tree r) kv_live (db\<lparr>kv_Root := r'\<rparr>) h M"
  using tree_holds_root_frame by (fastforce simp: store_def)

section \<open>The operations act on the map\<close>

lemma KV_Get_store:
  assumes "store (kv_tree (kv_Root db)) live db h M" "h < fuel" "k \<noteq> []"
  shows "KV_Get fuel db k = Some (M k)"
  using store_GetVal [OF assms] assms(1)
  by (auto simp: KV_Get_def lookup_result_def store_def split: option.splits)

lemma KV_Set_store:
  assumes "kv_store db h M" "3 * h + 4 \<le> kv_room db" "kv_ok (k, v)" "k \<noteq> []" "h < fuel"
  shows "\<exists>db'. KV_Set fuel db k v = Some db' \<and> kv_store db' (Suc h) (M(k \<mapsto> v)) \<and> kv_room db \<le> kv_room db' + 3 * h + 4"
proof -
  have s: "kv_inv db" "store (kv_tree (kv_Root db)) kv_live db h M" using assms(1) by (simp_all add: kv_store_def)
  from kv.Insert_store [OF s(2,1) assms(2-5)] obtain db1 r where
    R: "Insert fuel (kv_tree (kv_Root db)) db k v = Some (kv_tree r, db1)" "kv_inv db1" "kv_room db \<le> kv_room db1 + 3 * h + 4"
     "store (kv_tree r) kv_live db1 (Suc h) (M(k \<mapsto> v))" by auto
  then have "KV_Set fuel db k v = Some (db1\<lparr>kv_Root := r\<rparr>)" by (simp add: KV_Set_def)
  moreover have "kv_store (db1\<lparr>kv_Root := r\<rparr>) (Suc h) (M(k \<mapsto> v))" using R(2) store_root_frame [OF R(4)] by (simp add: kv_store_def)
  ultimately show ?thesis using R(3) by (intro exI [of _ "db1\<lparr>kv_Root := r\<rparr>"]) simp
qed

lemma KV_Del_store:
  assumes s: "kv_store db h M" "2 * h + 2 \<le> kv_room db" "h < fuel" and L: "\<forall>k \<in> dom M. length k = L"
    and k: "k \<in> dom M" "k2 \<in> dom M" "k2 \<noteq> k"
  shows "\<exists>db'. KV_Del fuel db k = Some (db', True) \<and> kv_inv db' \<and> kv_room db \<le> kv_room db' + 2 * h + 2 \<and>
     (\<forall>k'. k' \<noteq> [] \<longrightarrow> KV_Get fuel db' k' = Some ((M(k := None)) k'))"
proof -
  have inv: "kv_inv db" using s(1) by (simp add: kv_store_def)
  have "kv_Root db \<noteq> 0" using s(1) k(1) by (auto simp: kv_store_def store_def)
  then obtain T h0 where T: "h0 \<le> h" "tree_holds (kv_tree (kv_Root db)) kv_live db h0 T" "h0 = 0 \<longleftrightarrow> fkey T = []" "M = tree_map T"
    using s(1) by (auto simp: kv_store_def store_def)
  from store_delete_room [OF T(2,3) L [unfolded T(4)]] obtain D where D: "spare D T" "keys_within D (contents T)" by blast
  have keys: "x \<in> fst ` set (contents T)" if "x \<in> dom M" for x
  proof -
    have "x \<in> dom (map_of (contents T))" using that by (auto simp: T(4) tree_map_def split: if_splits)
    then show ?thesis by (simp add: dom_map_of_conv_image_fst)
  qed
  have "2 * h0 + 2 \<le> kv_room db" "h0 < fuel" using s(2,3) T(1) by simp_all
  from kv.Delete_present [OF T(2) inv this(1) D this(2) keys [OF k(1)] keys [OF k(2)] k(3)] obtain db1 h' T' where
    R: "Delete fuel (kv_tree (kv_Root db)) db k = Some (kv_tree (page T'), db1, True)" "kv_inv db1"
      "kv_room db \<le> kv_room db1 + 2 * h0 + 2" "tree_holds (kv_tree (page T')) kv_live db1 h' T'" "contents T' = del_kv k (contents T)"
      "h' \<le> h0" by auto
  let ?d = "db1\<lparr>kv_Root := page T'\<rparr>"
  have "KV_Del fuel db k = Some (?d, True)" using R(1) by (simp add: KV_Del_def)
  moreover have "KV_Get fuel ?d k' = Some ((M(k := None)) k')" if "k' \<noteq> []" for k'
    using tree_holds_GetVal [OF tree_holds_root_frame [OF R(4), of "page T'"], of fuel k'] R(5,6) T(1) s(3) that
    by (auto simp: KV_Get_def lookup_result_def map_of_del_kv T(4) tree_map_def split: option.splits)
  ultimately show ?thesis using R(2,3) T(1) by (intro exI [of _ ?d]) auto
qed

section \<open>Commit and reopen\<close>

lemma tree_at_reads: "tree_at g T \<Longrightarrow> p \<in> set (pages T) \<Longrightarrow> \<exists>b. g p = Some b"
  by (induction T) (auto simp: pages_eq)

lemma store_reads:
  assumes "store (kv_tree r) kv_live db h M" "\<And>p b. p \<noteq> 0 \<Longrightarrow> pageRead db p = Some b \<Longrightarrow> pageRead db2 p = Some b"
  shows "store (kv_tree r) (\<lambda>s. UNIV) db2 h M"
proof (cases "r = 0")
  case False
  with assms(1) obtain T h0 where T: "h0 \<le> h" "tree_holds (kv_tree r) kv_live db h0 T" "h0 = 0 \<longleftrightarrow> fkey T = []" "M = tree_map T"
    by (auto simp: store_def)
  have "tree_at (pageRead db2) T"
  proof (rule tree_at_cong)
    show at: "tree_at (pageRead db) T" using T(2) by (simp add: tree_holds_def)
    fix p
    assume p: "p \<in> set (pages T)"
    then have "p \<noteq> 0" using T(2) kv_live_nonzero by (auto simp: tree_holds_def)
    with tree_at_reads [OF at p] show "pageRead db2 p = pageRead db p" using assms(2) by fastforce
  qed
  then have "tree_holds (kv_tree r) (\<lambda>s. UNIV) db2 h0 T" using T(2) by (simp add: tree_holds_def)
  then show ?thesis using T False by (auto simp: store_def)
qed (use assms(1) in \<open>simp add: store_def\<close>)

lemma kv_inv_tx_pages: "kv_inv db \<Longrightarrow> 0 < kv_room db \<Longrightarrow> tx_pages_ok db"
  by (auto simp: kv_inv_def kv_room_def pages_sized_def tx_pages_ok_def kv_top_def)

lemma write_pages_length:
  assumes "write_pages sys upd ptrs f = (f', None)" "\<forall>p b. upd p = Some b \<longrightarrow> unat p < 2 ^ 48 \<and> Suc (unat p) * 4096 \<le> n \<and> length b = 4096"
    and "length f \<le> n"
  shows "length f' \<le> n"
  using assms(1,3)
proof (induction ptrs arbitrary: f)
  case (Cons ptr ptrs)
  show ?case
  proof (cases "upd ptr")
    case None
    then show ?thesis using Cons by (auto split: option.splits)
  next
    case (Some b)
    then have b: "unat ptr < 2 ^ 48" "Suc (unat ptr) * 4096 \<le> n" "length b = 4096" using assms(2) by blast+
    have "unat (ptr * PAGE_SIZE) = unat ptr * 4096" using u64_page [of ptr] b(1) by (simp add: mult.commute)
    then have "length (pwrite f (unat (ptr * PAGE_SIZE)) b) \<le> n" using b(2,3) Cons.prems(2) by (simp add: length_pwrite)
    with Cons show ?thesis using Some by (auto split: option.splits)
  qed
qed simp

lemma updateFile_length:
  assumes "updateFile sys order db = (db', None)" "kv_inv db" "0 < kv_room db"
  shows "length (kv_file db') < 2 ^ 60"
proof -
  have top: "unat (kv_top db) < 2 ^ 48 - 1" using assms(3) by (simp add: kv_room_def)
  have upd: "\<forall>p b. updates db p = Some b \<longrightarrow> unat p < 2 ^ 48 \<and> Suc (unat p) * 4096 \<le> 2 ^ 60 - 1 \<and> length b = 4096"
  proof (intro allI impI)
    fix p b
    assume "updates db p = Some b"
    then have "length b = 4096" "unat p < unat (kv_top db)"
      using assms(2) by (auto simp: kv_inv_def pages_sized_def word_less_nat_alt)
    then show "unat p < 2 ^ 48 \<and> Suc (unat p) * 4096 \<le> 2 ^ 60 - 1 \<and> length b = 4096" using top by simp
  qed
  obtain db1 f1 where ext: "extendMmap sys db (sint ((flushed db + nappend db) * PAGE_SIZE)) = (db1, None)"
    "write_pages sys (updates db1) order (kv_file db1) = (f1, None)"
    "kv_file db' = pwrite f1 0 (saveMeta (db1\<lparr>kv_file := f1\<rparr>))"
    using assms(1) unfolding updateFile_def Let_def by (auto split: prod.splits option.splits)
  have sel: "updates db1 = updates db" "kv_file db1 = kv_file db"
    using ext(1) by (auto simp: extendMmap_def Let_def split: if_splits option.splits)
  have "length (kv_file db) \<le> 2 ^ 60 - 1" using assms(2) by (simp add: kv_inv_def file_ok_def)
  from write_pages_length [OF ext(2) [unfolded sel] upd this] have "length f1 \<le> 2 ^ 60 - 1" .
  then show ?thesis unfolding ext(3) by (simp add: length_pwrite saveMeta_slices)
qed

section \<open>Properties\<close>

text \<open>A sequence of writes.\<close>

fun KV_Set_all :: "nat \<Rightarrow> KV \<Rightarrow> (bytes \<times> bytes) list \<Rightarrow> KV option" where
  "KV_Set_all fuel db [] = Some db"
| "KV_Set_all fuel db ((k, v) # kvs) = do { db \<leftarrow> KV_Set fuel db k v; KV_Set_all fuel db kvs }"

lemma KV_Set_all_store:
  assumes "kv_store db h M" "\<forall>kv \<in> set kvs. kv_ok kv \<and> fst kv \<noteq> []" "(3 * (h + length kvs) + 4) * length kvs \<le> kv_room db"
    and "h + length kvs \<le> fuel"
  shows "\<exists>db'. KV_Set_all fuel db kvs = Some db' \<and> kv_store db' (h + length kvs) (M ++ map_of (rev kvs)) \<and>
     kv_room db \<le> kv_room db' + (3 * (h + length kvs) + 4) * length kvs"
  using assms
proof (induction kvs arbitrary: db h M)
  case (Cons kv kvs)
  obtain k v where kv: "kv = (k, v)" by (cases kv)
  let ?C = "3 * (h + length (kv # kvs)) + 4"
  have C: "?C + ?C * length kvs \<le> kv_room db" "3 * h + 4 \<le> ?C" using Cons.prems(3) by simp_all
  then have "3 * h + 4 \<le> kv_room db" by linarith
  moreover have kvk: "kv_ok (k, v)" "k \<noteq> []" "h < fuel" using Cons.prems(2,4) kv by auto
  ultimately obtain db1 where R: "KV_Set fuel db k v = Some db1" "kv_store db1 (Suc h) (M(k \<mapsto> v))"
    "kv_room db \<le> kv_room db1 + 3 * h + 4" using KV_Set_store [OF Cons.prems(1) _ kvk] by blast
  have "(3 * (Suc h + length kvs) + 4) * length kvs \<le> kv_room db1" using C R(3) by simp
  moreover have "\<forall>kv \<in> set kvs. kv_ok kv \<and> fst kv \<noteq> []" "Suc h + length kvs \<le> fuel" using Cons.prems(2,4) by auto
  ultimately obtain db' where IH: "KV_Set_all fuel db1 kvs = Some db'"
    "kv_store db' (Suc h + length kvs) (M(k \<mapsto> v) ++ map_of (rev kvs))"
    "kv_room db1 \<le> kv_room db' + (3 * (Suc h + length kvs) + 4) * length kvs"
    using Cons.IH [OF R(2)] by blast
  have "M(k \<mapsto> v) ++ map_of (rev kvs) = M ++ map_of (rev (kv # kvs))"
    by (auto simp: kv map_add_def fun_eq_iff split: option.splits)
  moreover have "kv_room db \<le> kv_room db' + ?C * length (kv # kvs)" using IH(3) R(3) by simp
  ultimately show ?case using R(1) IH(1,2) kv by (intro exI [of _ db']) simp
qed auto

lemma Open_new:
  assumes "sys_create sys = None" "sys_mmap sys = None"
  shows "\<exists>db. Open sys (KV_zero []) = Some (Inr db) \<and> kv_store db 0 Map.empty \<and> kv_room db = 510 \<and> mm_ok db \<and> mm_total db = 0 \<and>
     flushed db = 2 \<and> nappend db = 0"
proof -
  let ?d = "(KV_zero [])\<lparr>flushed := 2, headPage := 1, tailPage := 1, headSeq := 0, tailSeq := 0, maxSeq := 0\<rparr>"
  have o: "Open sys (KV_zero []) = Some (Inr ?d)"
    using assms by (simp add: Open_def extendMmap_def readRoot_def KV_zero_def)
  have rd: "pageRead ?d p = None" for p by (simp add: pageRead_def KV_zero_def)
  have fl: "free_list ?d = []" by (simp add: free_list_def rd)
  have top: "kv_top ?d = 2" by (simp add: kv_top_def KV_zero_def)
  have "kv_live ?d = {}"
  proof -
    have "p = 1" if "0 < p" "p < 2" for p :: u64
      using that by (simp add: word_less_nat_alt word_unat_eq_iff)
    then show ?thesis by (auto simp: kv_live_def top)
  qed
  moreover have "file_ok ?d" by (simp add: file_ok_def mm_ok_def KV_zero_def)
  ultimately have "kv_inv ?d" by (simp add: kv_inv_def pages_sized_def top fl) (simp add: KV_zero_def)
  moreover have "kv_room ?d = 510" by (simp add: kv_room_def top)
  moreover have "kv_Root ?d = 0" by (simp add: KV_zero_def)
  ultimately show ?thesis using o
    by (intro exI [of _ ?d]) (simp add: kv_store_def store_def mm_ok_def KV_zero_def)
qed




text \<open>C1: Durability. When \<open>updateFile\<close> reports no error on a database that holds \<open>M\<close>, a process that opens the
  file afterwards finds the map \<open>M\<close>: every key reads as before the commit.\<close>

theorem KV_durable:
  assumes "kv_store db h M" "0 < kv_room db" "updateFile sys order db = (db', None)" "set order = dom (updates db)"
    and "sys_create sys' = None" "sys_mmap sys' = None" "h < fuel"
  shows "\<exists>db2. Open sys' (KV_zero (kv_file db')) = Some (Inr db2) \<and>
     (\<forall>k. k \<noteq> [] \<longrightarrow> KV_Get fuel db' k = Some (M k) \<and> KV_Get fuel db2 k = Some (M k))"
proof -
  have inv: "kv_inv db" and st: "store (kv_tree (kv_Root db)) kv_live db h M" using assms(1) by (simp_all add: kv_store_def)
  have "mm_ok db" "mm_total db < 2 ^ 60" using inv by (simp_all add: kv_inv_def file_ok_def)
  note U = updateFile_ok [OF assms(3) this kv_inv_tx_pages [OF inv assms(2)] assms(4)]
  from Open_saved [OF U(6,7) updateFile_length [OF assms(3) inv assms(2)] assms(5,6)] obtain db2 where
    O: "Open sys' (KV_zero (kv_file db')) = Some (Inr db2)" "kv_file db2 = kv_file db'" "mm_ok db2"
    "int (length (kv_file db')) \<le> mm_total db2" "kv_Root db2 = kv_Root db" "updates db2 = Map.empty" by blast
  have "pageRead db2 p = Some b" if "p \<noteq> 0" "pageRead db p = Some b" for p b
    using reopen_reads [OF U(5,3) O(3,6,2,4) U(8) [OF that]] .
  from store_reads [OF st this] have "store (kv_tree (kv_Root db2)) (\<lambda>s. UNIV) db2 h M" by (simp add: O(5))
  moreover from store_reads [OF st U(8)] have "store (kv_tree (kv_Root db')) (\<lambda>s. UNIV) db' h M" by (simp add: U(4))
  ultimately show ?thesis using O(1) assms(7) by (auto intro: KV_Get_store)
qed


section \<open>Witnesses\<close>

lemma Sys_ok_create: "sys_create Sys_ok = None" "sys_mmap Sys_ok = None"
  by (simp_all add: Sys_ok_def)

lemma write_pages_Sys_ok: "\<exists>f'. write_pages Sys_ok upd ptrs f = (f', None)"
  by (induction ptrs arbitrary: f) (simp_all add: Sys_ok_def)

lemma updateFile_Sys_ok: "\<exists>db'. updateFile Sys_ok order db = (db', None)"
proof -
  let ?sz = "sint ((flushed db + nappend db) * PAGE_SIZE)"
  have "snd (extendMmap Sys_ok db ?sz) = None" by (simp add: extendMmap_def Let_def Sys_ok_create)
  then obtain db1 where e: "extendMmap Sys_ok db ?sz = (db1, None)" by (cases "extendMmap Sys_ok db ?sz") auto
  obtain f where "write_pages Sys_ok (updates db1) order (kv_file db1) = (f, None)" using write_pages_Sys_ok by blast
  then show ?thesis using e by (simp add: updateFile_def Let_def) (simp add: Sys_ok_def)
qed

lemma updates_listed: "\<exists>order. set order = dom (updates db)"
  by (rule finite_list) simp



lemma demo_two:
  "\<exists>db db'. Open Sys_ok (KV_zero []) = Some (Inr db) \<and> KV_Set_all 4 db [([7], [1]), ([5], [2])] = Some db' \<and>
     kv_store db' 2 (map_of [([5], [2]), ([7], [1])]) \<and> 6 \<le> kv_room db'"
proof -
  obtain db where O: "Open Sys_ok (KV_zero []) = Some (Inr db)" "kv_store db 0 Map.empty" "kv_room db = 510"
    using Open_new [OF Sys_ok_create] by blast
  with KV_Set_all_store [OF O(2), of "[([7], [1]), ([5], [2])]" 4] show ?thesis by (auto simp: kv_ok_def eval_nat_numeral)
qed


theorem KV_durable_witness:
  "\<exists>db db1 order db' db2. Open Sys_ok (KV_zero []) = Some (Inr db) \<and> KV_Set_all 4 db [([7], [1]), ([5], [2])] = Some db1 \<and>
     updateFile Sys_ok order db1 = (db', None) \<and> Open Sys_ok (KV_zero (kv_file db')) = Some (Inr db2) \<and>
     KV_Get 4 db2 [7] = Some (Some [1]) \<and> KV_Get 4 db2 [8] = Some None"
proof -
  let ?M = "map_of [([5], [2]), ([7], [1])] :: bytes \<Rightarrow> bytes option"
  obtain db db1 where O: "Open Sys_ok (KV_zero []) = Some (Inr db)" "KV_Set_all 4 db [([7], [1]), ([5], [2])] = Some db1"
    "kv_store db1 2 ?M" "6 \<le> kv_room db1" using demo_two by blast
  obtain order where ord: "set order = dom (updates db1)" using updates_listed by blast
  obtain db' where u: "updateFile Sys_ok order db1 = (db', None)" using updateFile_Sys_ok by blast
  have "0 < kv_room db1" using O(4) by simp
  from KV_durable [OF O(3) this u ord Sys_ok_create, of 4] obtain db2 where
    R: "Open Sys_ok (KV_zero (kv_file db')) = Some (Inr db2)" "\<forall>k. k \<noteq> [] \<longrightarrow> KV_Get 4 db' k = Some (?M k) \<and> KV_Get 4 db2 k = Some (?M k)"
    by auto
  then have "KV_Get 4 db2 [7] = Some (Some [1])" "KV_Get 4 db2 [8] = Some None" by simp_all
  with O(1,2) u R(1) show ?thesis by blast
qed


end
