(* ===== verification/Iter.thy ===== *)
theory Iter
  imports Tree_Insert
begin

text \<open>
  The iterators of \<^verbatim>\<open>storage/btree.go\<close> (\<open>SeekLE\<close>, \<open>Deref\<close>, \<open>Valid\<close>, \<open>Next\<close>, \<open>Prev\<close>). A \<open>BIter\<close> has the
  nodes from the root to a leaf and the position in each; the pointer to the tree is the argument \<open>t\<close>.
  The specification is an index into the contents of the tree: \<open>SeekLE\<close> finds the index of a key, \<open>Next\<close> and
  \<open>Prev\<close> move it by one, \<open>Deref\<close> reads the entry there.
\<close>

record BIter =
  bi_path :: "BNode list"
  bi_pos :: "int list"
  bi_valid :: bool

definition go_nth :: "'a list \<Rightarrow> nat \<Rightarrow> 'a option" where
  "go_nth xs i = (if i < length xs then Some (xs ! i) else None)"

fun SeekLE_loop :: "nat \<Rightarrow> 's BTree \<Rightarrow> 's \<Rightarrow> bytes \<Rightarrow> u64 \<Rightarrow> BIter \<Rightarrow> BIter option" where
  "SeekLE_loop fuel t s key ptr it =
     (if ptr = 0 then Some it
      else case fuel of
        0 \<Rightarrow> None
      | Suc fuel \<Rightarrow> do {
          b \<leftarrow> tget t s ptr;
          idx \<leftarrow> nodeLookupLE b key;
          p \<leftarrow> getptr b idx;
          SeekLE_loop fuel t s key p
            (it\<lparr>bi_path := bi_path it @ [b], bi_pos := bi_pos it @ [uint idx]\<rparr>) })"

declare SeekLE_loop.simps [simp del]

definition SeekLE :: "nat \<Rightarrow> 's BTree \<Rightarrow> 's \<Rightarrow> bytes \<Rightarrow> BIter option" where
  "SeekLE fuel t s key = SeekLE_loop fuel t s key (Root t) \<lparr>bi_path = [], bi_pos = [], bi_valid = True\<rparr>"

definition Deref :: "'s BTree \<Rightarrow> BIter \<Rightarrow> (bytes \<times> bytes) option" where
  "Deref t it =
     (if Root t = 0 \<or> bi_path it = [] then Some ([], [])
      else do {
        b \<leftarrow> go_nth (bi_path it) (length (bi_pos it) - 1);
        idx \<leftarrow> go_nth (bi_pos it) (length (bi_pos it) - 1);
        key \<leftarrow> getKey b (word_of_int idx);
        val \<leftarrow> getVal b (word_of_int idx);
        Some (key, val) })"

definition Valid :: "'s BTree \<Rightarrow> BIter \<Rightarrow> bool option" where
  "Valid t it =
     (if \<not> bi_valid it \<or> Root t = 0 then Some False
      else do {
        b \<leftarrow> go_nth (bi_path it) (length (bi_pos it) - 1);
        pos \<leftarrow> go_nth (bi_pos it) (length (bi_pos it) - 1);
        n \<leftarrow> nkeys b;
        Some (\<not> (pos < 0 \<or> word_of_int pos > n - 1)) })"

fun LastNode_loop :: "BNode list \<Rightarrow> int list \<Rightarrow> bool option" where
  "LastNode_loop [] pos = Some True"
| "LastNode_loop (b # bs) [] = None"
| "LastNode_loop (b # bs) (p # ps) = do {
     n \<leftarrow> nkeys b;
     if p \<noteq> uint n - 1 then Some False else LastNode_loop bs ps }"

definition LastNode :: "BIter \<Rightarrow> bool option" where
  "LastNode it = LastNode_loop (bi_path it) (bi_pos it)"

fun StartNode_loop :: "BNode list \<Rightarrow> int list \<Rightarrow> bool option" where
  "StartNode_loop [] pos = Some True"
| "StartNode_loop (b # bs) [] = None"
| "StartNode_loop (b # bs) (p # ps) = (if p \<noteq> 0 then Some False else StartNode_loop bs ps)"

definition StartNode :: "BIter \<Rightarrow> bool option" where
  "StartNode it = StartNode_loop (bi_path it) (bi_pos it)"

text \<open>The part after the case distinction of \<open>iterNext\<close> and \<open>iterPrev\<close>: the node of the next level is read again.\<close>

definition reloadNext :: "'s BTree \<Rightarrow> 's \<Rightarrow> nat \<Rightarrow> BIter \<Rightarrow> BIter option" where
  "reloadNext t s level it =
     (if level + 1 < length (bi_pos it) then do {
        b \<leftarrow> go_nth (bi_path it) level;
        p \<leftarrow> getptr b (word_of_int (bi_pos it ! level));
        knode \<leftarrow> tget t s p;
        if level + 1 < length (bi_path it)
        then Some (it\<lparr>bi_path := (bi_path it)[level + 1 := knode], bi_pos := (bi_pos it)[level + 1 := 0]\<rparr>)
        else None }
      else Some it)"

fun iterNext :: "'s BTree \<Rightarrow> 's \<Rightarrow> nat \<Rightarrow> BIter \<Rightarrow> BIter option" where
  "iterNext t s level it = do {
     pos \<leftarrow> go_nth (bi_pos it) level;
     b \<leftarrow> go_nth (bi_path it) level;
     n \<leftarrow> nkeys b;
     if pos + 1 < uint n then reloadNext t s level (it\<lparr>bi_pos := (bi_pos it)[level := pos + 1]\<rparr>)
     else case level of
       0 \<Rightarrow> Some (it\<lparr>bi_valid := False\<rparr>)
     | Suc l \<Rightarrow> do { it \<leftarrow> iterNext t s l it; reloadNext t s level it } }"

declare iterNext.simps [simp del]

definition reloadPrev :: "'s BTree \<Rightarrow> 's \<Rightarrow> nat \<Rightarrow> BIter \<Rightarrow> BIter option" where
  "reloadPrev t s level it =
     (if level + 1 < length (bi_pos it) \<and> last (bi_pos it) \<noteq> - 1 then do {
        b \<leftarrow> go_nth (bi_path it) level;
        p \<leftarrow> getptr b (word_of_int (bi_pos it ! level));
        knode \<leftarrow> tget t s p;
        n \<leftarrow> nkeys knode;
        if level + 1 < length (bi_path it)
        then Some (it\<lparr>bi_path := (bi_path it)[level + 1 := knode], bi_pos := (bi_pos it)[level + 1 := uint (n - 1)]\<rparr>)
        else None }
      else Some it)"

fun iterPrev :: "'s BTree \<Rightarrow> 's \<Rightarrow> nat \<Rightarrow> BIter \<Rightarrow> BIter option" where
  "iterPrev t s level it = do {
     pos \<leftarrow> go_nth (bi_pos it) level;
     if pos > 0 then reloadPrev t s level (it\<lparr>bi_pos := (bi_pos it)[level := pos - 1]\<rparr>)
     else case level of
       0 \<Rightarrow> Some (it\<lparr>bi_valid := False\<rparr>)
     | Suc l \<Rightarrow> do { it \<leftarrow> iterPrev t s l it; reloadPrev t s level it } }"

declare iterPrev.simps [simp del]

definition Next :: "'s BTree \<Rightarrow> 's \<Rightarrow> BIter \<Rightarrow> BIter option" where
  "Next t s it = do {
     last \<leftarrow> LastNode it;
     if last \<and> bi_valid it then Some (it\<lparr>bi_valid := False\<rparr>)
     else do {
       start \<leftarrow> StartNode it;
       if start \<and> \<not> bi_valid it then Some (it\<lparr>bi_valid := True\<rparr>)
       else if bi_path it = [] then None
       else iterNext t s (length (bi_path it) - 1) it } }"

definition Prev :: "'s BTree \<Rightarrow> 's \<Rightarrow> BIter \<Rightarrow> BIter option" where
  "Prev t s it = do {
     start \<leftarrow> StartNode it;
     if start \<and> bi_valid it then Some (it\<lparr>bi_valid := False\<rparr>)
     else do {
       last \<leftarrow> LastNode it;
       if last \<and> \<not> bi_valid it then Some (it\<lparr>bi_valid := True\<rparr>)
       else if bi_path it = [] then None
       else iterPrev t s (length (bi_path it) - 1) it } }"

section \<open>Positions in a tree\<close>

fun at_path :: "(u64 \<Rightarrow> bytes option) \<Rightarrow> ptree \<Rightarrow> BNode list \<Rightarrow> int list \<Rightarrow> bool" where
  "at_path g (PLeaf p kvs) [b] [i] \<longleftrightarrow> 0 \<le> i \<and> nat i < length kvs \<and> node b BNODE_LEAF (map leaf_entry kvs)"
| "at_path g (PNode p cs) (b # bs) (i # is) \<longleftrightarrow>
     0 \<le> i \<and> nat i < length cs \<and> node b BNODE_NODE (map kid_entry cs) \<and> (\<forall>c \<in> set cs. tree_at g c) \<and>
     at_path g (cs ! nat i) bs is"
| "at_path g _ _ _ \<longleftrightarrow> False"

fun path_index :: "ptree \<Rightarrow> int list \<Rightarrow> nat" where
  "path_index (PLeaf p kvs) (i # is) = nat i"
| "path_index (PNode p cs) (i # is) = length (concat (map contents (take (nat i) cs))) + path_index (cs ! nat i) is"
| "path_index _ [] = 0"

lemma at_path_length: "wf_tree h T \<Longrightarrow> at_path g T bs is \<Longrightarrow> length bs = Suc h \<and> length is = Suc h"
proof (induction g T bs "is" arbitrary: h rule: at_path.induct)
  case (2 g p cs b bs i "is")
  then obtain h' where "h = Suc h'" "\<forall>c \<in> set cs. wf_tree h' c" by (cases h) auto
  with 2 show ?case by auto
next
  case (1 g p kvs b i)
  then show ?case by (cases h) auto
qed auto

lemma path_index_less: "at_path g T bs is \<Longrightarrow> path_index T is < length (contents T)"
proof (induction g T bs "is" rule: at_path.induct)
  case (2 g p cs b bs i "is")
  then have i: "nat i < length cs" and "path_index (cs ! nat i) is < length (contents (cs ! nat i))" by simp_all
  then show ?case by (simp add: concat_kids [OF i])
qed auto

section \<open>Reading an entry\<close>

lemma at_path_nonempty: "at_path g T bs is \<Longrightarrow> bs \<noteq> [] \<and> is \<noteq> []"
  by (induction g T bs "is" rule: at_path.induct) auto

lemma at_path_last:
  assumes "at_path g T bs is"
  shows "getKey (last bs) (word_of_int (last is)) = Some (fst (contents T ! path_index T is)) \<and>
     getVal (last bs) (word_of_int (last is)) = Some (snd (contents T ! path_index T is)) \<and>
     0 \<le> last is \<and> (\<exists>n. nkeys (last bs) = Some (of_nat n) \<and> last is < int n \<and> n < 65536)"
  using assms
proof (induction g T bs "is" rule: at_path.induct)
  case (1 g p kvs b i)
  define n where "n = nat i"
  with 1 have i: "i = int n" "n < length kvs" and b: "node b BNODE_LEAF (map leaf_entry kvs)" by simp_all
  have "getKey b (word_of_int i) = Some (fst (kvs ! n))" "getVal b (word_of_int i) = Some (snd (kvs ! n))"
    using top_lookup(1,2) [OF b i(2)] by (simp_all add: i(1))
  moreover have "nkeys b = Some (of_nat (length kvs))" "length kvs < 65536"
    using pnode_nkeys [OF b [unfolded node_def]] pnode_bounds [OF b [unfolded node_def]] by simp_all
  ultimately show ?case using i by (simp only: last.simps simp_thms if_True path_index.simps contents.simps nat_int) fastforce
next
  case (2 g p cs b bs i "is")
  then have i: "nat i < length cs" and at: "at_path g (cs ! nat i) bs is" by simp_all
  have "contents (PNode p cs) ! path_index (PNode p cs) (i # is) = contents (cs ! nat i) ! path_index (cs ! nat i) is"
    using path_index_less [OF at] by (simp add: concat_kids [OF i] nth_append)
  with "2.IH" at at_path_nonempty [OF at] show ?case by simp
qed auto

lemma Deref_at:
  assumes "Root t \<noteq> 0" "wf_tree h T" "at_path g T (bi_path it) (bi_pos it)"
  shows "Deref t it = Some (contents T ! path_index T (bi_pos it))"
  using assms(1) at_path_last [OF assms(3)] at_path_length [OF assms(2,3)] at_path_nonempty [OF assms(3)]
  by (simp add: Deref_def go_nth_def last_conv_nth)

lemma Valid_at:
  assumes "Root t \<noteq> 0" "wf_tree h T" "at_path g T (bi_path it) (bi_pos it)"
  shows "Valid t it = Some (bi_valid it)"
proof -
  from at_path_last [OF assms(3)] obtain n where n: "nkeys (last (bi_path it)) = Some (of_nat n)" "last (bi_pos it) < int n" "n < 65536"
    "0 \<le> last (bi_pos it)" by blast
  define i where "i = nat (last (bi_pos it))"
  have i: "last (bi_pos it) = int i" "i < n" using n by (simp_all add: i_def)
  have "(of_nat n - 1 :: u16) = of_nat (n - 1)" using i by (simp add: of_nat_diff)
  moreover have "(of_nat i :: u16) \<le> of_nat (n - 1)" using i n(3) by (subst u16_of_nat_le) auto
  moreover have "last (bi_path it) = bi_path it ! h" "last (bi_pos it) = bi_pos it ! h" "length (bi_path it) = Suc h" "length (bi_pos it) = Suc h"
    using at_path_length [OF assms(2,3)] at_path_nonempty [OF assms(3)] by (simp_all add: last_conv_nth)
  moreover have "bi_pos it ! h = int i" using \<open>last (bi_pos it) = bi_pos it ! h\<close> i(1) by simp
  ultimately show ?thesis
    using n i assms(1) by (simp add: Valid_def go_nth_def not_less)
qed

section \<open>Seeking\<close>

lemma lookup_le_append:
  assumes "\<forall>x \<in> set A. x < k" "\<forall>x \<in> set C. k < x" "M \<noteq> []" "A \<noteq> [] \<Longrightarrow> hd M \<le> k"
  shows "lookup_le (A @ M @ C) k = length A + lookup_le M k"
proof -
  have C: "takeWhile (\<lambda>x. x \<le> k) (xs @ C) = takeWhile (\<lambda>x. x \<le> k) xs" for xs
    using assms(2) by (induction xs; cases C) auto
  obtain m M' where M: "M = m # M'" using assms(3) by (cases M) auto
  show ?thesis
  proof (cases A)
    case Nil
    then show ?thesis by (simp add: lookup_le_def M C)
  next
    case (Cons a A')
    have "takeWhile (\<lambda>x. x \<le> k) (A' @ xs) = A' @ takeWhile (\<lambda>x. x \<le> k) xs" for xs
      using assms(1) Cons by (intro takeWhile_append2) auto
    then show ?thesis using assms(4) Cons C [of M'] by (simp add: lookup_le_def M)
  qed
qed

lemma SeekLE_loop_at:
  assumes "wf_tree h T" "tree_at (tget t s) T" "sorted_kv (contents T)" "h < fuel" "0 \<notin> set (pages T)"
  shows "\<exists>bs is. SeekLE_loop fuel t s k (page T) it = Some (it\<lparr>bi_path := bi_path it @ bs, bi_pos := bi_pos it @ is\<rparr>) \<and>
     at_path (tget t s) T bs is \<and> path_index T is = lookup_le (map fst (contents T)) k"
  using assms
proof (induction h arbitrary: T fuel it)
  case 0
  then obtain p kvs b f where T: "T = PLeaf p kvs" "kvs \<noteq> []" "tget t s p = Some b" "node b BNODE_LEAF (map leaf_entry kvs)" "fuel = Suc f"
    by (cases T; cases fuel) auto
  define i where "i = lookup_le (map fst kvs) k"
  note leaf = lookup_leaf [of kvs k, folded i_def]
  have i: "i < length kvs" using leaf 0(3) T by simp
  have "nodeLookupLE b k = Some (of_nat i)" using nodeLookupLE_node [OF T(4)] 0(3) T(1) by (simp add: i_def)
  moreover have "getptr b (of_nat i) = Some 0" using top_lookup(3) [OF T(4) i] by simp
  moreover have "uint (of_nat i :: u16) = int i" using i pnode_bounds [OF T(4) [unfolded node_def]] by (simp add: uint_nat u16_of_nat)
  moreover have "p \<noteq> 0" using 0(5) T(1) by simp
  ultimately have "SeekLE_loop fuel t s k (page T) it = Some (it\<lparr>bi_path := bi_path it @ [b], bi_pos := bi_pos it @ [int i]\<rparr>)"
    using T by (simp add: SeekLE_loop.simps)
  with i T show ?case by (intro exI [of _ "[b]"] exI [of _ "[int i]"]) (simp add: i_def)
next
  case (Suc h)
  then obtain p cs b f where T: "T = PNode p cs" "cs \<noteq> []" "\<forall>c \<in> set cs. wf_tree h c" "tget t s p = Some b"
    "node b BNODE_NODE (map kid_entry cs)" "\<forall>c \<in> set cs. tree_at (tget t s) c" "fuel = Suc f" "h < f"
    by (cases T; cases fuel) auto
  have ne: "\<forall>c \<in> set cs. contents c \<noteq> []" using T(3) wf_contents by blast
  have sorted: "sorted_kv (concat (map contents cs))" using Suc.prems(3) T by simp
  define i where "i = lookup_le (map fkey cs) k"
  note kid = lookup_kid [OF ne T(2) sorted, of k, folded i_def]
  have c: "cs ! i \<in> set cs" using kid(1) by simp
  have "nodeLookupLE b k = Some (of_nat i)" using nodeLookupLE_node [OF T(5)] kids_sorted [OF ne sorted] by (simp add: i_def)
  moreover have "getptr b (of_nat i) = Some (page (cs ! i))" using top_lookup(3) [OF T(5) kid(1)] by (simp add: kid_entry_def)
  moreover have u: "uint (of_nat i :: u16) = int i"
    using kid(1) pnode_bounds [OF T(5) [unfolded node_def]] by (simp add: uint_nat u16_of_nat)
  moreover have "p \<noteq> 0" "0 \<notin> set (pages (cs ! i))" using Suc.prems(5) T(1) c by auto
  ultimately have run: "SeekLE_loop fuel t s k (page T) it =
      SeekLE_loop f t s k (page (cs ! i)) (it\<lparr>bi_path := bi_path it @ [b], bi_pos := bi_pos it @ [int i]\<rparr>)"
    using T by (simp add: SeekLE_loop.simps [of "Suc f"])
  have pre: "wf_tree h (cs ! i)" "tree_at (tget t s) (cs ! i)" "0 \<notin> set (pages (cs ! i))" using T(3,6) c \<open>0 \<notin> set (pages (cs ! i))\<close> by auto
  from Suc.IH [OF pre(1,2) sorted_kid [OF kid(1) sorted] T(8) pre(3), of "it\<lparr>bi_path := bi_path it @ [b], bi_pos := bi_pos it @ [int i]\<rparr>"]
  obtain bs "is" where IH:
    "SeekLE_loop f t s k (page (cs ! i)) (it\<lparr>bi_path := bi_path it @ [b], bi_pos := bi_pos it @ [int i]\<rparr>) =
      Some (it\<lparr>bi_path := bi_path it @ b # bs, bi_pos := bi_pos it @ int i # is\<rparr>)"
    "at_path (tget t s) (cs ! i) bs is" "path_index (cs ! i) is = lookup_le (map fst (contents (cs ! i))) k" by auto
  have "lookup_le (map fst (concat (map contents (take i cs))) @ map fst (contents (cs ! i)) @
      map fst (concat (map contents (drop (Suc i) cs)))) k =
      length (map fst (concat (map contents (take i cs)))) + lookup_le (map fst (contents (cs ! i))) k"
  proof (rule lookup_le_append)
    show "map fst (contents (cs ! i)) \<noteq> []" using ne c by simp
    assume A: "map fst (concat (map contents (take i cs))) \<noteq> []"
    then have "0 < i" by (cases i) auto
    moreover have ks: "sorted_wrt (<) (map fkey cs)" "map fkey cs \<noteq> []" using kids_sorted [OF ne sorted] T(2) by auto
    ultimately have "fkey (cs ! i) \<le> k" using lookup_le_props(2) [OF ks, of k] kid(1) by (simp add: i_def [symmetric])
    then show "hd (map fst (contents (cs ! i))) \<le> k" using ne c by (simp add: fkey_def hd_map)
  qed (use kid(2,3) in \<open>simp_all only: set_map ball_simps\<close>)
  then have "path_index (PNode p cs) (int i # is) = lookup_le (map fst (contents (PNode p cs))) k"
    using IH(3) by (simp only: path_index.simps contents.simps concat_kids [OF kid(1)] map_append nat_int length_map)
  with run IH T kid(1) show ?case by (intro exI [of _ "b # bs"] exI [of _ "int i # is"]) simp
qed

section \<open>Moving forward\<close>

lemma uint_u16_of_nat: "n < 65536 \<Longrightarrow> uint (of_nat n :: u16) = int n"
  by (simp add: uint_nat u16_of_nat)

fun reload_from :: "'s BTree \<Rightarrow> 's \<Rightarrow> nat \<Rightarrow> nat \<Rightarrow> BIter \<Rightarrow> BIter option" where
  "reload_from t s d 0 it = reloadNext t s d it"
| "reload_from t s d (Suc h) it = do { it \<leftarrow> reloadNext t s d it; reload_from t s (Suc d) h it }"

text \<open>A node at level \<open>d\<close> and the path below it.\<close>

definition suffix_at :: "BIter \<Rightarrow> BNode list \<Rightarrow> int list \<Rightarrow> nat \<Rightarrow> BNode list \<Rightarrow> int list \<Rightarrow> bool" where
  "suffix_at it pre ppos d bs is \<longleftrightarrow>
     bi_path it = pre @ bs \<and> bi_pos it = ppos @ is \<and> length pre = d \<and> length ppos = d \<and> length bs = length is"

lemma suffix_at_Cons:
  "suffix_at it pre ppos d (b # bs) (i # is) \<Longrightarrow> suffix_at it (pre @ [b]) (ppos @ [i]) (Suc d) bs is"
  by (simp add: suffix_at_def)

lemma suffix_at_reads:
  assumes "suffix_at it pre ppos d (b # bs) (i # is)"
  shows "go_nth (bi_path it) d = Some b" "go_nth (bi_pos it) d = Some i" "bi_pos it ! d = i"
    "(bi_pos it)[d := j] = ppos @ j # is" "length (bi_path it) = length (bi_pos it)" "length (bi_pos it) = d + Suc (length is)"
  using assms by (auto simp: suffix_at_def go_nth_def nth_append list_update_append)

text \<open>Reloading reads the kid the position points to and starts at its first entry.\<close>

lemma reloadNext_kid:
  assumes "suffix_at it pre ppos d (b # b' # bs) (int n # i' # is)" "node b BNODE_NODE (map kid_entry cs)" "n < length cs"
    and "tget t s (page (cs ! n)) = Some kb"
  shows "reloadNext t s d it = Some (it\<lparr>bi_path := pre @ b # kb # bs, bi_pos := ppos @ int n # 0 # is\<rparr>)"
  using assms suffix_at_reads [OF assms(1)] top_lookup(3) [OF assms(2,3)]
  by (simp add: reloadNext_def suffix_at_def kid_entry_def list_update_append)

lemma reload_from_first:
  assumes "suffix_at it pre ppos d (b # bs) (0 # is)" "length bs = h" "wf_tree h T" "top_at (tget t s) b T"
  shows "\<exists>bs' is'. reload_from t s d h it = Some (it\<lparr>bi_path := pre @ bs', bi_pos := ppos @ is'\<rparr>) \<and>
     at_path (tget t s) T bs' is' \<and> path_index T is' = 0"
  using assms
proof (induction h arbitrary: it pre ppos d b bs "is" T)
  case 0
  then obtain p kvs where T: "T = PLeaf p kvs" "kvs \<noteq> []" "node b BNODE_LEAF (map leaf_entry kvs)"
    by (cases T) (auto simp: top_at_def)
  from 0 have "bs = []" "is = []" by (auto simp: suffix_at_def)
  with 0(1) T show ?case
    by (intro exI [of _ "[b]"] exI [of _ "[0]"]) (simp add: reloadNext_def suffix_at_def)
next
  case (Suc h)
  then obtain p cs where T: "T = PNode p cs" "cs \<noteq> []" "\<forall>c \<in> set cs. wf_tree h c" "node b BNODE_NODE (map kid_entry cs)"
    "\<forall>c \<in> set cs. tree_at (tget t s) c" by (cases T) (auto simp: top_at_def)
  have c: "cs ! 0 \<in> set cs" "0 < length cs" using T(2) by simp_all
  then obtain kb where kb: "tget t s (page (cs ! 0)) = Some kb" "top_at (tget t s) kb (cs ! 0)"
    using T(5) unfolding tree_at_top by blast
  obtain b' bs' i' is' where bs: "bs = b' # bs'" "is = i' # is'" "length bs' = h"
    using Suc.prems(1,2) by (cases bs; cases "is") (auto simp: suffix_at_def)
  let ?it = "it\<lparr>bi_path := pre @ b # kb # bs', bi_pos := ppos @ 0 # 0 # is'\<rparr>"
  have "reloadNext t s d it = Some ?it"
    using reloadNext_kid [OF _ T(4) c(2) kb(1), of it pre ppos d b' bs' i' is'] Suc.prems(1) bs by simp
  moreover have "suffix_at ?it (pre @ [b]) (ppos @ [0]) (Suc d) (kb # bs') (0 # is')"
    using Suc.prems(1) bs by (simp add: suffix_at_def)
  from Suc.IH [OF this bs(3) _ kb(2)] T(3) c(1) obtain bs'' is'' where
    "reload_from t s (Suc d) h ?it = Some (?it\<lparr>bi_path := (pre @ [b]) @ bs'', bi_pos := (ppos @ [0]) @ is''\<rparr>)"
    "at_path (tget t s) (cs ! 0) bs'' is''" "path_index (cs ! 0) is'' = 0" by blast
  ultimately show ?case using T
    by (intro exI [of _ "b # bs''"] exI [of _ "0 # is''"]) simp
qed

lemma iterNext_advance:
  assumes "suffix_at it pre ppos d (b # bs) (int n # is)" "nkeys b = Some (of_nat m)" "m < 65536" "Suc n < m"
  shows "iterNext t s d it = reloadNext t s d (it\<lparr>bi_pos := ppos @ int (Suc n) # is\<rparr>)"
proof -
  have "uint (of_nat m :: u16) = int m" using assms(3) by (rule uint_u16_of_nat)
  then show ?thesis
    using suffix_at_reads [OF assms(1)] assms(2,4) by (subst iterNext.simps) (simp add: add.commute)
qed

lemma iterNext_ascend:
  assumes "suffix_at it pre ppos (Suc d) (b # bs) (int n # is)" "nkeys b = Some (of_nat m)" "m < 65536" "Suc n = m"
  shows "iterNext t s (Suc d) it = do { it \<leftarrow> iterNext t s d it; reloadNext t s (Suc d) it }"
proof -
  have "uint (of_nat m :: u16) = int m" using assms(3) by (rule uint_u16_of_nat)
  then show ?thesis
    using suffix_at_reads [OF assms(1)] assms(2,4) by (subst iterNext.simps) simp
qed

lemma at_path_leafD:
  assumes "at_path g (PLeaf p kvs) bs is"
  shows "\<exists>b n. bs = [b] \<and> is = [int n] \<and> n < length kvs \<and> node b BNODE_LEAF (map leaf_entry kvs)"
proof -
  from assms obtain b i where "bs = [b]" "is = [i]" "0 \<le> i" "nat i < length kvs" "node b BNODE_LEAF (map leaf_entry kvs)"
    by (cases "(g, PLeaf p kvs, bs, is)" rule: at_path.cases) auto
  then show ?thesis by (intro exI [of _ b] exI [of _ "nat i"]) simp
qed

lemma at_path_nodeD:
  assumes "at_path g (PNode p cs) bs is"
  shows "\<exists>b bs' n is'. bs = b # bs' \<and> is = int n # is' \<and> n < length cs \<and> node b BNODE_NODE (map kid_entry cs) \<and>
    (\<forall>c \<in> set cs. tree_at g c) \<and> at_path g (cs ! n) bs' is'"
proof -
  from assms obtain b bs' i is' where "bs = b # bs'" "is = i # is'" "0 \<le> i" "nat i < length cs"
    "node b BNODE_NODE (map kid_entry cs)" "\<forall>c \<in> set cs. tree_at g c" "at_path g (cs ! nat i) bs' is'"
    by (cases "(g, PNode p cs, bs, is)" rule: at_path.cases) auto
  then show ?thesis by (intro exI [of _ b] exI [of _ bs'] exI [of _ "nat i"] exI [of _ is']) simp
qed

text \<open>The index at the start and at the end of a kid.\<close>

lemma path_index_kid:
  assumes "n < length cs"
  shows "path_index (PNode p cs) (int n # is) = length (concat (map contents (take n cs))) + path_index (cs ! n) is"
    and "Suc n < length cs \<Longrightarrow> Suc (path_index (cs ! n) is) = length (contents (cs ! n)) \<Longrightarrow>
      length (concat (map contents (take (Suc n) cs))) = Suc (path_index (PNode p cs) (int n # is))"
  using assms by (simp_all add: take_Suc_conv_app_nth)

lemma path_index_end:
  assumes "n < length cs" "at_path g (cs ! n) bs is" "\<forall>c \<in> set cs. contents c \<noteq> []"
  shows "Suc (path_index (PNode p cs) (int n # is)) = length (contents (PNode p cs)) \<longleftrightarrow>
    Suc n = length cs \<and> Suc (path_index (cs ! n) is) = length (contents (cs ! n))"
proof -
  note idx = path_index_less [OF assms(2)]
  show ?thesis
  proof (cases "Suc n < length cs")
    case True
    then have "contents (cs ! Suc n) \<noteq> []" "drop (Suc n) cs = cs ! Suc n # drop (Suc (Suc n)) cs"
      using assms(3) by (simp_all add: Cons_nth_drop_Suc)
    then have "0 < length (concat (map contents (drop (Suc n) cs)))" by simp
    then show ?thesis using idx True by (simp only: path_index.simps contents.simps concat_kids [OF assms(1)] length_append nat_int) linarith
  next
    case False
    then have "Suc n = length cs" using assms(1) by simp
    moreover from this have "drop (Suc n) cs = []" by simp
    ultimately show ?thesis by (simp add: concat_kids [OF assms(1)])
  qed
qed

lemma iterNext_leaf:
  assumes at: "at_path (tget t s) (PLeaf p kvs) bs is" and it: "suffix_at it pre ppos d bs is"
  shows "(Suc (path_index (PLeaf p kvs) is) < length kvs \<longrightarrow>
      (\<exists>bs' is'. iterNext t s d it = Some (it\<lparr>bi_path := pre @ bs', bi_pos := ppos @ is'\<rparr>) \<and>
        at_path (tget t s) (PLeaf p kvs) bs' is' \<and> path_index (PLeaf p kvs) is' = Suc (path_index (PLeaf p kvs) is))) \<and>
    (Suc (path_index (PLeaf p kvs) is) = length kvs \<longrightarrow> 0 < d \<longrightarrow>
      iterNext t s d it = do { it \<leftarrow> iterNext t s (d - 1) it; reloadNext t s d it })"
proof -
  from at_path_leafD [OF at] obtain b n where b: "bs = [b]" "is = [int n]" "n < length kvs" "node b BNODE_LEAF (map leaf_entry kvs)"
    by blast
  have nk: "nkeys b = Some (of_nat (length kvs))" "length kvs < 65536"
    using pnode_nkeys [OF b(4) [unfolded node_def]] pnode_bounds [OF b(4) [unfolded node_def]] by simp_all
  have adv: "iterNext t s d it = Some (it\<lparr>bi_path := pre @ [b], bi_pos := ppos @ [int (Suc n)]\<rparr>)" if "Suc n < length kvs"
    using iterNext_advance [OF it [unfolded b] nk that, of t s] it b(1,2) by (simp add: reloadNext_def suffix_at_def)
  have "at_path (tget t s) (PLeaf p kvs) [b] [int (Suc n)]" if "Suc n < length kvs" using that b(4) by simp
  then have "Suc n < length kvs \<longrightarrow> (\<exists>bs' is'. iterNext t s d it = Some (it\<lparr>bi_path := pre @ bs', bi_pos := ppos @ is'\<rparr>) \<and>
        at_path (tget t s) (PLeaf p kvs) bs' is' \<and> path_index (PLeaf p kvs) is' = Suc n)"
    using adv by (intro impI exI [of _ "[b]"] exI [of _ "[int (Suc n)]"]) simp
  moreover have "iterNext t s d it = do { it \<leftarrow> iterNext t s (d - 1) it; reloadNext t s d it }" if fin: "Suc n = length kvs" "0 < d"
  proof -
    obtain d' where "d = Suc d'" using fin(2) by (cases d) auto
    then show ?thesis using iterNext_ascend [OF _ nk fin(1), of it pre ppos d' "[]" "[]"] it b(1,2) by simp
  qed
  ultimately show ?thesis using b(2) by simp
qed

lemma iterNext_suffix:
  assumes "at_path (tget t s) T bs is" "wf_tree h T" "suffix_at it pre ppos d bs is"
  shows "(Suc (path_index T is) < length (contents T) \<longrightarrow>
      (\<exists>bs' is'. iterNext t s (d + h) it = Some (it\<lparr>bi_path := pre @ bs', bi_pos := ppos @ is'\<rparr>) \<and>
        at_path (tget t s) T bs' is' \<and> path_index T is' = Suc (path_index T is))) \<and>
    (Suc (path_index T is) = length (contents T) \<longrightarrow> 0 < d \<longrightarrow>
      iterNext t s (d + h) it = do { it \<leftarrow> iterNext t s (d - 1) it; reload_from t s d h it })"
  using assms
proof (induction h arbitrary: T bs "is" pre ppos d it)
  case 0
  then obtain p kvs where "T = PLeaf p kvs" by (cases T) auto
  with iterNext_leaf [of t s p kvs bs "is" it pre ppos d] 0 show ?case by simp
next
  case (Suc h)
  then obtain p cs where T: "T = PNode p cs" "cs \<noteq> []" "\<forall>c \<in> set cs. wf_tree h c" by (cases T) auto
  from at_path_nodeD [OF Suc.prems(1) [unfolded T]] obtain b bs1 n is1 where b: "bs = b # bs1" "is = int n # is1" "n < length cs"
    "node b BNODE_NODE (map kid_entry cs)" "\<forall>c \<in> set cs. tree_at (tget t s) c" "at_path (tget t s) (cs ! n) bs1 is1" by blast
  let ?c = "cs ! n"
  have wf: "wf_tree h ?c" using T(3) b(3) by simp
  have ne: "\<forall>c \<in> set cs. contents c \<noteq> []" using T(3) wf_contents by blast
  note it = Suc.prems(3) [unfolded b(1,2)]
  note IH = Suc.IH [OF b(6) wf suffix_at_Cons [OF it]]
  note idx = path_index_kid [OF b(3)] and fin = path_index_end [OF b(3,6) ne, of p]
  have nk: "nkeys b = Some (of_nat (length cs))" "length cs < 65536"
    using pnode_nkeys [OF b(4) [unfolded node_def]] pnode_bounds [OF b(4) [unfolded node_def]] by simp_all
  show ?case
  proof (cases "Suc (path_index ?c is1) < length (contents ?c)")
    case True
    with IH obtain bs' is' where R: "iterNext t s (Suc d + h) it = Some (it\<lparr>bi_path := (pre @ [b]) @ bs', bi_pos := (ppos @ [int n]) @ is'\<rparr>)"
       "at_path (tget t s) ?c bs' is'" "path_index ?c is' = Suc (path_index ?c is1)" by blast
    have "at_path (tget t s) T (b # bs') (int n # is')" using b(3-5) R(2) T(1) by simp
    moreover have "path_index T (int n # is') = Suc (path_index T is)" using R(3) b(2,3) T(1) by simp
    moreover have "Suc (path_index T is) \<noteq> length (contents T)" using fin True b(2) T(1) by simp
    ultimately show ?thesis using R(1)
      by (intro conjI impI exI [of _ "b # bs'"] exI [of _ "int n # is'"]) simp_all
  next
    case False
    then have last: "Suc (path_index ?c is1) = length (contents ?c)" using path_index_less [OF b(6)] by simp
    with IH have up: "iterNext t s (d + Suc h) it = do { it \<leftarrow> iterNext t s d it; reload_from t s (Suc d) h it }" by simp
    show ?thesis
    proof (cases "Suc n < length cs")
      case True
      let ?d = "cs ! Suc n"
      have d: "?d \<in> set cs" using True by simp
      with b(5) obtain kb where kb: "tget t s (page ?d) = Some kb" "top_at (tget t s) kb ?d" unfolding tree_at_top by blast
      from at_path_length [OF wf b(6)] obtain b1 bs2 i1 is2 where
        cons: "bs1 = b1 # bs2" "is1 = i1 # is2" "length bs2 = h" "length is2 = h" by (cases bs1; cases is1) auto
      let ?it1 = "it\<lparr>bi_pos := ppos @ int (Suc n) # is1\<rparr>"
      let ?it2 = "it\<lparr>bi_path := pre @ b # kb # bs2, bi_pos := ppos @ int (Suc n) # 0 # is2\<rparr>"
      have "suffix_at ?it1 pre ppos d (b # b1 # bs2) (int (Suc n) # i1 # is2)" using it cons by (simp add: suffix_at_def)
      from reloadNext_kid [OF this b(4) True kb(1)] have "reloadNext t s d ?it1 = Some ?it2" by simp
      with iterNext_advance [OF it nk True, of t s] have run1: "iterNext t s d it = Some ?it2" by simp
      have "suffix_at ?it2 (pre @ [b]) (ppos @ [int (Suc n)]) (Suc d) (kb # bs2) (0 # is2)"
        using it cons by (simp add: suffix_at_def)
      from reload_from_first [OF this cons(3) _ kb(2)] T(3) d obtain bs' is' where
        R: "reload_from t s (Suc d) h ?it2 = Some (?it2\<lparr>bi_path := (pre @ [b]) @ bs', bi_pos := (ppos @ [int (Suc n)]) @ is'\<rparr>)"
          "at_path (tget t s) ?d bs' is'" "path_index ?d is' = 0" by blast
      have "at_path (tget t s) T (b # bs') (int (Suc n) # is')" using b(4,5) True R(2) T(1) by (simp add: nat_add_distrib)
      moreover have "path_index T (int (Suc n) # is') = Suc (path_index T is)"
        using idx(2) [OF True last] R(3) b(2) T(1) path_index_kid(1) [OF True] by simp
      moreover have "Suc (path_index T is) \<noteq> length (contents T)" using fin True b(2) T(1) by simp
      moreover have "iterNext t s (d + Suc h) it = Some (it\<lparr>bi_path := pre @ b # bs', bi_pos := ppos @ int (Suc n) # is'\<rparr>)"
        using up run1 R(1) by simp
      ultimately show ?thesis by blast
    next
      case False
      then have n: "Suc n = length cs" using b(3) by simp
      have "iterNext t s d it = do { it \<leftarrow> iterNext t s (d - 1) it; reloadNext t s d it }" if pos: "0 < d"
      proof -
        obtain d' where "d = Suc d'" using pos by (cases d) auto
        then show ?thesis using iterNext_ascend [OF _ nk n, of it pre ppos d' bs1 is1] it by simp
      qed
      moreover have "Suc (path_index T is) = length (contents T)" using fin last n b(2) T(1) by simp
      ultimately show ?thesis using up by simp
    qed
  qed
qed


lemma StartNode_some: "length bs = length is \<Longrightarrow> StartNode_loop bs is \<noteq> None"
  by (induction bs "is" rule: list_induct2) auto

lemma LastNode_at:
  assumes "at_path g T bs is" "wf_tree h T"
  shows "LastNode_loop bs is = Some (Suc (path_index T is) = length (contents T))"
  using assms
proof (induction h arbitrary: T bs "is")
  case 0
  then obtain p kvs where T: "T = PLeaf p kvs" by (cases T) auto
  from at_path_leafD [OF 0(1) [unfolded T]] obtain b n where b: "bs = [b]" "is = [int n]" "n < length kvs"
    "node b BNODE_LEAF (map leaf_entry kvs)" by blast
  have "nkeys b = Some (of_nat (length kvs))" "uint (of_nat (length kvs) :: u16) = int (length kvs)"
    using pnode_nkeys [OF b(4) [unfolded node_def]] pnode_bounds [OF b(4) [unfolded node_def]] uint_u16_of_nat by simp_all
  then show ?case using b T by auto
next
  case (Suc h)
  then obtain p cs where T: "T = PNode p cs" "\<forall>c \<in> set cs. wf_tree h c" by (cases T) auto
  from at_path_nodeD [OF Suc.prems(1) [unfolded T]] obtain b bs1 n is1 where b: "bs = b # bs1" "is = int n # is1" "n < length cs"
    "node b BNODE_NODE (map kid_entry cs)" "at_path g (cs ! n) bs1 is1" by blast
  have ne: "\<forall>c \<in> set cs. contents c \<noteq> []" using T(2) wf_contents by blast
  have "LastNode_loop bs1 is1 = Some (Suc (path_index (cs ! n) is1) = length (contents (cs ! n)))"
    using Suc.IH [OF b(5)] T(2) b(3) by simp
  moreover have "nkeys b = Some (of_nat (length cs))" "uint (of_nat (length cs) :: u16) = int (length cs)"
    using pnode_nkeys [OF b(4) [unfolded node_def]] pnode_bounds [OF b(4) [unfolded node_def]] uint_u16_of_nat by simp_all
  ultimately show ?case using path_index_end [OF b(3,5) ne, of p] b(1-3) T(1) by auto
qed

theorem Next_at:
  assumes "at_path (tget t s) T (bi_path it) (bi_pos it)" "wf_tree h T" "bi_valid it"
  shows "if Suc (path_index T (bi_pos it)) < length (contents T)
    then \<exists>it'. Next t s it = Some it' \<and> bi_valid it' \<and> at_path (tget t s) T (bi_path it') (bi_pos it') \<and>
      path_index T (bi_pos it') = Suc (path_index T (bi_pos it))
    else Next t s it = Some (it\<lparr>bi_valid := False\<rparr>)"
proof (cases "Suc (path_index T (bi_pos it)) < length (contents T)")
  case True
  note len = at_path_length [OF assms(2,1)]
  have "suffix_at it [] [] 0 (bi_path it) (bi_pos it)" using len by (simp add: suffix_at_def)
  from iterNext_suffix [OF assms(1,2) this] True obtain bs' is' where
    R: "iterNext t s h it = Some (it\<lparr>bi_path := bs', bi_pos := is'\<rparr>)" "at_path (tget t s) T bs' is'"
      "path_index T is' = Suc (path_index T (bi_pos it))" by auto
  have "StartNode it \<noteq> None" using StartNode_some [of "bi_path it" "bi_pos it"] len by (simp add: StartNode_def)
  then have "Next t s it = Some (it\<lparr>bi_path := bs', bi_pos := is'\<rparr>)"
    using R(1) LastNode_at [OF assms(1,2)] True len assms(3) by (auto simp: Next_def LastNode_def)
  then show ?thesis using True R(2,3) assms(3) by simp
next
  case False
  then have "Suc (path_index T (bi_pos it)) = length (contents T)" using path_index_less [OF assms(1)] by simp
  then show ?thesis using False LastNode_at [OF assms(1,2)] assms(3) by (simp add: Next_def LastNode_def)
qed

section \<open>Scans\<close>

text \<open>The loop of the table scans: read while the iterator is valid.\<close>

fun scan :: "nat \<Rightarrow> 's BTree \<Rightarrow> 's \<Rightarrow> BIter \<Rightarrow> (bytes \<times> bytes) list option" where
  "scan 0 t s it = None"
| "scan (Suc n) t s it = do {
     v \<leftarrow> Valid t it;
     if \<not> v then Some []
     else do {
       kv \<leftarrow> Deref t it;
       it \<leftarrow> Next t s it;
       rest \<leftarrow> scan n t s it;
       Some (kv # rest) } }"

lemma scan_at:
  assumes "Root t \<noteq> 0" "wf_tree h T" "at_path (tget t s) T (bi_path it) (bi_pos it)" "bi_valid it"
    and "length (contents T) - path_index T (bi_pos it) < n"
  shows "scan n t s it = Some (drop (path_index T (bi_pos it)) (contents T))"
  using assms(3-)
proof (induction n arbitrary: it)
  case (Suc n)
  let ?i = "path_index T (bi_pos it)"
  have i: "?i < length (contents T)" using path_index_less [OF Suc.prems(1)] .
  note rd = Valid_at [OF assms(1,2) Suc.prems(1)] Deref_at [OF assms(1,2) Suc.prems(1)]
  show ?case
  proof (cases "Suc ?i < length (contents T)")
    case True
    with Next_at [OF Suc.prems(1) assms(2) Suc.prems(2)] obtain it' where
      it': "Next t s it = Some it'" "bi_valid it'" "at_path (tget t s) T (bi_path it') (bi_pos it')" "path_index T (bi_pos it') = Suc ?i"
      by auto
    have "scan n t s it' = Some (drop (Suc ?i) (contents T))" using Suc.IH [OF it'(3,2)] it'(4) Suc.prems(3) i by simp
    then show ?thesis using rd it'(1) Suc.prems(2) Cons_nth_drop_Suc [OF i] by simp
  next
    case False
    then have "Next t s it = Some (it\<lparr>bi_valid := False\<rparr>)" using Next_at [OF Suc.prems(1) assms(2) Suc.prems(2)] by simp
    moreover obtain m where "n = Suc m" using Suc.prems(3) i by (cases n) auto
    moreover have "drop ?i (contents T) = [contents T ! ?i]" using False i Cons_nth_drop_Suc [OF i] by simp
    ultimately show ?thesis using rd Suc.prems(2) by (simp add: Valid_def)
  qed
qed simp

lemma SeekLE_scan:
  assumes "tree_holds t live s h T" "0 \<notin> live s" "h < fuel" "length (contents T) < n"
  shows "\<exists>it. SeekLE fuel t s k = Some it \<and>
     scan n t s it = Some (drop (lookup_le (map fst (contents T)) k) (contents T))"
proof -
  from assms(1) have T: "Root t \<noteq> 0" "page T = Root t" "wf_tree h T" "tree_at (tget t s) T" "sorted_kv (contents T)" "set (pages T) \<subseteq> live s"
    by (auto simp: tree_holds_def)
  have "0 \<notin> set (pages T)" using T(6) assms(2) by blast
  from SeekLE_loop_at [OF T(3-5) assms(3) this, of k "\<lparr>bi_path = [], bi_pos = [], bi_valid = True\<rparr>"] obtain bs "is" where
    R: "SeekLE_loop fuel t s k (page T) \<lparr>bi_path = [], bi_pos = [], bi_valid = True\<rparr> = Some \<lparr>bi_path = bs, bi_pos = is, bi_valid = True\<rparr>"
    "at_path (tget t s) T bs is" "path_index T is = lookup_le (map fst (contents T)) k" by auto
  then show ?thesis
    using scan_at [OF T(1,3), of s "\<lparr>bi_path = bs, bi_pos = is, bi_valid = True\<rparr>" n] T(2) assms(4)
    by (intro exI [of _ "\<lparr>bi_path = bs, bi_pos = is, bi_valid = True\<rparr>"]) (simp add: SeekLE_def)
qed

end
