(* ===== verification/Scan.thy ===== *)
theory Scan
  imports KV_Store Iter
begin

text \<open>
  Range scans of the key-value store: an iterator placed by \<open>SeekLE\<close> and moved by \<open>Next\<close> reads the entries of
  the database in the order of their keys.
\<close>

lemma map_of_drop_sorted:
  assumes "sorted_kv es" "es \<noteq> []" "k \<le> k'"
  shows "map_of (drop (lookup_le (map fst es) k) es) k' = map_of es k'"
proof -
  define i where "i = lookup_le (map fst es) k"
  have ks: "map fst es \<noteq> []" using assms(2) by simp
  note P = lookup_le_props [OF assms(1) ks, where key = k, folded i_def]
  have "k' \<notin> fst ` set (take i es)"
  proof
    assume "k' \<in> fst ` set (take i es)"
    then obtain j where j: "j < i" "j < length es" "fst (es ! j) = k'" by (auto simp: in_set_conv_nth)
    then have "k' < k" using P(3) [of j] by simp
    then show False using assms(3) by simp
  qed
  then have "map_of (take i es) k' = None" by (simp add: map_of_eq_None_iff)
  moreover have "map_of es = map_of (drop i es) ++ map_of (take i es)" by (metis append_take_drop_id map_of_append)
  ultimately show ?thesis unfolding i_def [symmetric] by (simp add: map_add_def)
qed



end
