(* ===== verification/Util.thy ===== *)
theory Util
  imports Prelude
begin

text \<open>
  The model of \<^verbatim>\<open>util/util.go\<close>: the set of strings that a transaction keeps of the keys it has read,
  written and deleted, with the interface its clients rely on, and the removal of a number from a slice.
\<close>

section \<open>The set of strings\<close>

record Set =
  set_store :: "gostring set"

definition NewSet :: Set where
  "NewSet = \<lparr>set_store = {}\<rparr>"

definition Set_Has :: "Set \<Rightarrow> bytes \<Rightarrow> bool" where
  "Set_Has s key \<longleftrightarrow> key \<in> set_store s"

definition Set_Set :: "Set \<Rightarrow> bytes \<Rightarrow> Set \<times> bool" where
  "Set_Set s key = (if key \<in> set_store s then (s, False) else (s\<lparr>set_store := insert key (set_store s)\<rparr>, True))"

definition Set_Del :: "Set \<Rightarrow> bytes \<Rightarrow> Set \<times> bool" where
  "Set_Del s key = (if key \<notin> set_store s then (s, False) else (s\<lparr>set_store := set_store s - {key}\<rparr>, True))"

text \<open>What a client of the set relies on.\<close>

locale string_set =
  fixes new :: 's and has :: "'s \<Rightarrow> bytes \<Rightarrow> bool" and ins :: "'s \<Rightarrow> bytes \<Rightarrow> 's \<times> bool" and del :: "'s \<Rightarrow> bytes \<Rightarrow> 's \<times> bool"
  assumes has_new: "\<not> has new k"
    and has_ins: "has (fst (ins s k)) k' \<longleftrightarrow> k' = k \<or> has s k'"
    and ins_new: "snd (ins s k) \<longleftrightarrow> \<not> has s k"
    and has_del: "has (fst (del s k)) k' \<longleftrightarrow> k' \<noteq> k \<and> has s k'"
    and del_old: "snd (del s k) \<longleftrightarrow> has s k"
begin

lemma ins_del: "has (fst (del (fst (ins s k)) k)) k' \<longleftrightarrow> k' \<noteq> k \<and> has s k'"
  by (auto simp: has_ins has_del)

lemma ins_twice: "\<not> snd (ins (fst (ins s k)) k)"
  by (simp add: ins_new has_ins)

lemma del_twice: "\<not> snd (del (fst (del s k)) k)"
  by (simp add: del_old has_del)

lemma has_ins_all: "has (foldl (\<lambda>s k. fst (ins s k)) s ks) k \<longleftrightarrow> k \<in> set ks \<or> has s k"
  by (induction ks arbitrary: s) (auto simp: has_ins)

end

interpretation util_set: string_set NewSet Set_Has Set_Set Set_Del
  by unfold_locales (auto simp: NewSet_def Set_Has_def Set_Set_def Set_Del_def)

section \<open>Removing a number from a slice\<close>

function IntSliceRemove_loop :: "u64 \<Rightarrow> u64 list \<Rightarrow> nat \<Rightarrow> u64 list" where
  "IntSliceRemove_loop key ls i =
     (if i < length ls then
        if ls ! i = key then IntSliceRemove_loop key (take i ls @ drop (i + 1) ls) i
        else IntSliceRemove_loop key ls (i + 1)
      else ls)"
  by pat_completeness auto
termination
  by (relation "measure (\<lambda>(key, ls, i). length ls - i)") auto

declare IntSliceRemove_loop.simps [simp del]

definition IntSliceRemove :: "u64 \<Rightarrow> u64 list \<Rightarrow> u64 list" where
  "IntSliceRemove key ls = IntSliceRemove_loop key ls 0"

lemma IntSliceRemove_loop_filter:
  "i \<le> length ls \<Longrightarrow> IntSliceRemove_loop key ls i = take i ls @ filter (\<lambda>x. x \<noteq> key) (drop i ls)"
proof (induction key ls i rule: IntSliceRemove_loop.induct)
  case (1 key ls i)
  show ?case
  proof (cases "i < length ls")
    case True
    then have d: "drop i ls = ls ! i # drop (Suc i) ls" by (simp add: Cons_nth_drop_Suc)
    show ?thesis
    proof (cases "ls ! i = key")
      case True
      then show ?thesis using 1 \<open>i < length ls\<close> d
        by (subst IntSliceRemove_loop.simps) (simp add: min_def)
    next
      case False
      then show ?thesis using 1 \<open>i < length ls\<close> d
        by (subst IntSliceRemove_loop.simps) (simp add: take_Suc_conv_app_nth)
    qed
  qed (subst IntSliceRemove_loop.simps, simp add: 1)
qed

text \<open>C29: Removing a number from a slice leaves the other numbers in their order, and the loop with its
  index that steps back ends.\<close>

theorem IntSliceRemove_filter: "IntSliceRemove key ls = filter (\<lambda>x. x \<noteq> key) ls"
  by (simp add: IntSliceRemove_def IntSliceRemove_loop_filter)

end
