(* ===== verification/Txn.thy ===== *)
theory Txn
  imports KV_Store Pending Util Iter
begin

text \<open>
  Transactions (\<^verbatim>\<open>storage/disk.go\<close>, \<open>Begin\<close>, \<open>Commit\<close>, \<open>Abort\<close> and the operations of \<open>KVTX\<close>). The pointer
  \<open>tx.db\<close> is the argument \<open>db\<close>; the snapshot is the root it was taken at, read through the pages of \<open>db\<close>; the
  pending tree is its root and its pages. \<open>writes\<close> and \<open>deletes\<close> are maps whose values are always true; the
  order in which \<open>Commit\<close> ranges over them is an argument.
\<close>

record KVTX =
  tx_meta :: bytes
  snapshot_Root :: u64
  pending_Root :: u64
  pending_store :: pending_pages
  delSet :: Set
  writeSet :: Set
  readSet :: Set
  writes :: "gostring set"
  deletes :: "gostring set"

definition NewKVTX :: KVTX where
  "NewKVTX = \<lparr>tx_meta = [], snapshot_Root = 0, pending_Root = 0, pending_store = pending_init, delSet = NewSet,
     writeSet = NewSet, readSet = NewSet, writes = {}, deletes = {}\<rparr>"

text \<open>\<open>Begin\<close> gives the pending tree new pages but does not touch its root.\<close>

definition Begin :: "KV \<Rightarrow> KVTX \<Rightarrow> KVTX" where
  "Begin db tx = tx\<lparr>tx_meta := saveMeta db, snapshot_Root := kv_Root db, delSet := NewSet, writeSet := NewSet,
     readSet := NewSet, writes := {}, deletes := {}, pending_store := pending_init\<rparr>"

definition Abort :: "KV \<Rightarrow> KVTX \<Rightarrow> KV option" where
  "Abort db tx = do {
     db \<leftarrow> loadMeta db (tx_meta tx);
     Some (db\<lparr>nappend := 0, updates := Map.empty\<rparr>) }"

definition KVTX_Get :: "nat \<Rightarrow> KV \<Rightarrow> KVTX \<Rightarrow> bytes \<Rightarrow> (KVTX \<times> (gostring + bytes)) option" where
  "KVTX_Get fuel db tx key =
     (if Set_Has (delSet tx) key then Some (tx, Inl (str ''getting deleted key''))
      else do {
        let tx = tx\<lparr>readSet := fst (Set_Set (readSet tx) key)\<rparr>;
        r \<leftarrow> GetVal fuel (pending_tree (pending_Root tx)) (pending_store tx) key;
        case r of
          Inr val \<Rightarrow> Some (tx, Inr val)
        | Inl e \<Rightarrow> map_option (Pair tx) (GetVal fuel (kv_tree (snapshot_Root tx)) db key) })"

definition KVTX_Set :: "nat \<Rightarrow> KVTX \<Rightarrow> bytes \<Rightarrow> bytes \<Rightarrow> KVTX option" where
  "KVTX_Set fuel tx key val = do {
     let tx = (if Set_Has (delSet tx) key
               then tx\<lparr>delSet := fst (Set_Del (delSet tx) key), deletes := deletes tx - {key}\<rparr> else tx);
     let tx = tx\<lparr>writeSet := fst (Set_Set (writeSet tx) key), writes := insert key (writes tx)\<rparr>;
     (t, s) \<leftarrow> Insert fuel (pending_tree (pending_Root tx)) (pending_store tx) key val;
     Some (tx\<lparr>pending_Root := Root t, pending_store := s\<rparr>) }"

definition KVTX_Del :: "nat \<Rightarrow> KVTX \<Rightarrow> bytes \<Rightarrow> (KVTX \<times> bool) option" where
  "KVTX_Del fuel tx key =
     (if Set_Has (delSet tx) key then Some (tx, False)
      else
        let tx = tx\<lparr>delSet := fst (Set_Set (delSet tx) key), deletes := insert key (deletes tx)\<rparr> in
        if Set_Has (writeSet tx) key then do {
          let tx = tx\<lparr>writeSet := fst (Set_Del (writeSet tx) key)\<rparr>;
          (t, s, ok) \<leftarrow> Delete fuel (pending_tree (pending_Root tx)) (pending_store tx) key;
          Some (tx\<lparr>pending_Root := Root t, pending_store := s\<rparr>, ok) }
        else Some (tx, True))"

definition KVTX_Seek :: "nat \<Rightarrow> KV \<Rightarrow> KVTX \<Rightarrow> bytes \<Rightarrow> BIter option" where
  "KVTX_Seek fuel db tx key = SeekLE fuel (kv_tree (snapshot_Root tx)) db key"

fun Commit_writes :: "nat \<Rightarrow> KV \<Rightarrow> KVTX \<Rightarrow> gostring list \<Rightarrow> KV option" where
  "Commit_writes fuel db tx [] = Some db"
| "Commit_writes fuel db tx (key # keys) = do {
     r \<leftarrow> GetVal fuel (pending_tree (pending_Root tx)) (pending_store tx) key;
     db \<leftarrow> KV_Set fuel db key (case r of Inr val \<Rightarrow> val | Inl e \<Rightarrow> []);
     Commit_writes fuel db tx keys }"

fun Commit_deletes :: "nat \<Rightarrow> KV \<Rightarrow> gostring list \<Rightarrow> KV option" where
  "Commit_deletes fuel db [] = Some db"
| "Commit_deletes fuel db (key # keys) = do {
     (db, ok) \<leftarrow> KV_Del fuel db key;
     Commit_deletes fuel db keys }"

definition Commit :: "nat \<Rightarrow> Sys \<Rightarrow> u64 list \<Rightarrow> gostring list \<Rightarrow> gostring list \<Rightarrow> KV \<Rightarrow> KVTX \<Rightarrow> (KV \<times> gostring option) option" where
  "Commit fuel sys order worder dorder db tx = do {
     db \<leftarrow> Commit_writes fuel db tx worder;
     db \<leftarrow> Commit_deletes fuel db dorder;
     case updateFile sys order db of
       (db, Some err) \<Rightarrow> do { db \<leftarrow> Abort db tx; Some (db, Some err) }
     | (db, None) \<Rightarrow> Some (db, None) }"

section \<open>Abort\<close>

lemma length_saveMeta: "length (saveMeta db) = 96"
  by (rule saveMeta_slices(1))

lemma Abort_Begin:
  assumes "tx_meta tx = saveMeta db0"
  shows "Abort db tx = Some (db\<lparr>kv_Root := kv_Root db0, flushed := flushed db0, headPage := headPage db0, headSeq := headSeq db0,
     tailPage := tailPage db0, tailSeq := tailSeq db0, maxSeq := maxSeq db0, nappend := 0, updates := Map.empty\<rparr>)"
  using loadMeta_saveMeta_prefix [of "saveMeta db0" db0 db] by (simp add: Abort_def assms length_saveMeta)

section \<open>The view of a transaction\<close>

definition tx_view :: "KVTX \<Rightarrow> (bytes \<Rightarrow> bytes option) \<Rightarrow> (bytes \<Rightarrow> bytes option) \<Rightarrow> bytes \<Rightarrow> bytes option" where
  "tx_view tx P S k = (if Set_Has (delSet tx) k then None else case P k of Some v \<Rightarrow> Some v | None \<Rightarrow> S k)"

definition tx_holds :: "KVTX \<Rightarrow> nat \<Rightarrow> (bytes \<Rightarrow> bytes option) \<Rightarrow> bool" where
  "tx_holds tx h P \<longleftrightarrow> store (pending_tree (pending_Root tx)) pending_live (pending_store tx) h P \<and>
     (\<forall>k. Set_Has (writeSet tx) k \<longleftrightarrow> k \<in> dom P)"

abbreviation found :: "gostring + bytes \<Rightarrow> bytes option" where
  "found r \<equiv> (case r of Inl e \<Rightarrow> None | Inr v \<Rightarrow> Some v)"

lemma store_found:
  assumes "store t live s h M" "h < fuel" "k \<noteq> []"
  shows "\<exists>r. GetVal fuel t s k = Some r \<and> found r = M k"
  using store_GetVal [OF assms] assms(1) by (auto simp: lookup_result_def store_def split: option.splits)

lemma store_kv_ok: "store t live s h M \<Longrightarrow> M k = Some v \<Longrightarrow> kv_ok (k, v) \<and> k \<noteq> []"
  by (auto simp: store_def tree_holds_def tree_map_def dest!: map_of_SomeD split: if_splits)

lemma KVTX_Get_found:
  assumes "store (pending_tree (pending_Root tx)) pending_live (pending_store tx) h P" "store (kv_tree (snapshot_Root tx)) live db hs S"
    and "h < fuel" "hs < fuel" "k \<noteq> []"
  shows "\<exists>tx' r. KVTX_Get fuel db tx k = Some (tx', r) \<and> found r = tx_view tx P S k \<and>
     (\<exists>R. tx' = tx\<lparr>readSet := R\<rparr>)"
proof (cases "Set_Has (delSet tx) k")
  case True
  then show ?thesis by (intro exI [of _ tx] exI) (auto simp: KVTX_Get_def tx_view_def intro!: exI [of _ "readSet tx"])
next
  case False
  let ?tx = "tx\<lparr>readSet := fst (Set_Set (readSet tx) k)\<rparr>"
  from store_found [OF assms(1,3,5)] obtain r where r: "GetVal fuel (pending_tree (pending_Root tx)) (pending_store tx) k = Some r" "found r = P k"
    by blast
  from store_found [OF assms(2,4,5)] obtain r2 where r2: "GetVal fuel (kv_tree (snapshot_Root tx)) db k = Some r2" "found r2 = S k" by blast
  have "KVTX_Get fuel db tx k = Some (?tx, case r of Inr v \<Rightarrow> Inr v | Inl e \<Rightarrow> r2)"
    using False r(1) r2(1) by (simp add: KVTX_Get_def split: sum.splits)
  moreover have "found (case r of Inr v \<Rightarrow> Inr v | Inl e \<Rightarrow> r2) = tx_view tx P S k"
    using False r2(2) unfolding tx_view_def r(2) [symmetric] by (cases r) simp_all
  ultimately show ?thesis by blast
qed

lemma KVTX_Set_holds:
  assumes "tx_holds tx h P" "3 * h + 4 \<le> pending_room (pending_store tx)" "kv_ok (k, v)" "k \<noteq> []" "h < fuel"
  shows "\<exists>tx'. KVTX_Set fuel tx k v = Some tx' \<and> tx_holds tx' (Suc h) (P(k \<mapsto> v)) \<and> snapshot_Root tx' = snapshot_Root tx \<and>
     tx_view tx' (P(k \<mapsto> v)) S = (tx_view tx P S)(k \<mapsto> v) \<and> tx_meta tx' = tx_meta tx \<and>
     pending_room (pending_store tx) \<le> pending_room (pending_store tx') + 3 * h + 4"
proof -
  have st: "store (pending_tree (pending_Root tx)) pending_live (pending_store tx) h P" using assms(1) by (simp add: tx_holds_def)
  from pending.Insert_store [OF st TrueI assms(2-5)] obtain s' r where
    I: "Insert fuel (pending_tree (pending_Root tx)) (pending_store tx) k v = Some (pending_tree r, s')"
    "pending_room (pending_store tx) \<le> pending_room s' + 3 * h + 4" "store (pending_tree r) pending_live s' (Suc h) (P(k \<mapsto> v))" by auto
  let ?d = "if Set_Has (delSet tx) k then fst (Set_Del (delSet tx) k) else delSet tx"
  let ?x = "if Set_Has (delSet tx) k then deletes tx - {k} else deletes tx"
  let ?tx = "tx\<lparr>delSet := ?d, deletes := ?x, writeSet := fst (Set_Set (writeSet tx) k), writes := insert k (writes tx),
     pending_Root := r, pending_store := s'\<rparr>"
  have "KVTX_Set fuel tx k v = Some ?tx" using I(1) by (simp add: KVTX_Set_def)
  moreover have "Set_Has ?d k' \<longleftrightarrow> k' \<noteq> k \<and> Set_Has (delSet tx) k'" for k' by (auto simp: util_set.has_del)
  then have "tx_view ?tx (P(k \<mapsto> v)) S = (tx_view tx P S)(k \<mapsto> v)" by (auto simp: tx_view_def fun_eq_iff)
  moreover have "tx_holds ?tx (Suc h) (P(k \<mapsto> v))" using assms(1) I(3) by (auto simp: tx_holds_def util_set.has_ins)
  ultimately show ?thesis using I(2) by (intro exI [of _ ?tx]) auto
qed

lemma KVTX_Del_unwritten:
  assumes "tx_holds tx h P" "k \<notin> dom P" "\<not> Set_Has (delSet tx) k"
  shows "\<exists>tx'. KVTX_Del fuel tx k = Some (tx', True) \<and> tx_holds tx' h P \<and> tx_view tx' P S = (tx_view tx P S)(k := None) \<and>
     snapshot_Root tx' = snapshot_Root tx"
proof -
  let ?tx = "tx\<lparr>delSet := fst (Set_Set (delSet tx) k), deletes := insert k (deletes tx)\<rparr>"
  have "KVTX_Del fuel tx k = Some (?tx, True)" using assms by (simp add: KVTX_Del_def tx_holds_def Let_def)
  moreover have "tx_view ?tx P S = (tx_view tx P S)(k := None)" by (auto simp: tx_view_def fun_eq_iff util_set.has_ins)
  moreover have "tx_holds ?tx h P" using assms(1) by (simp add: tx_holds_def)
  ultimately show ?thesis by (intro exI [of _ ?tx]) simp
qed

lemma tx_holds_Begin: "pending_Root tx = 0 \<Longrightarrow> tx_holds (Begin db tx) 0 Map.empty"
  using util_set.has_new by (simp add: tx_holds_def Begin_def store_def)

section \<open>Commit\<close>

lemma Commit_writes_all:
  assumes "store (pending_tree (pending_Root tx)) pending_live (pending_store tx) h P" "h < fuel" "set keys \<subseteq> dom P"
  shows "Commit_writes fuel db tx keys = KV_Set_all fuel db (map (\<lambda>k. (k, the (P k))) keys)"
  using assms(3)
proof (induction keys arbitrary: db)
  case (Cons k keys)
  then obtain v where v: "P k = Some v" by auto
  then have "k \<noteq> []" using store_kv_ok [OF assms(1)] by blast
  from store_found [OF assms(1,2) this] v obtain r where
    r: "GetVal fuel (pending_tree (pending_Root tx)) (pending_store tx) k = Some r" "found r = Some v" by auto
  moreover have "r = Inr v" using r(2) by (cases r) simp_all
  ultimately show ?case using Cons v by (simp cong: Option.bind_cong)
qed simp

lemma map_of_entries: "set keys = dom P \<Longrightarrow> map_of (rev (map (\<lambda>k. (k, the (P k))) keys)) = P"
  by (simp add: rev_map map_of_map_restrict) (auto simp: restrict_map_def fun_eq_iff)

lemma Commit_atomic_writes:
  assumes db: "kv_store db h M" and tx: "store (pending_tree (pending_Root tx)) pending_live (pending_store tx) hp P" "tx_meta tx = saveMeta db0"
    and w: "set worder = dom P" and room: "(3 * (h + length worder) + 4) * length worder < kv_room db"
    and fuel: "h + length worder < fuel" "hp < fuel"
    and ord: "\<forall>db1. Commit_writes fuel db tx worder = Some db1 \<longrightarrow> set order = dom (updates db1)"
  shows "\<exists>db' e. Commit fuel sys order worder [] db tx = Some (db', e) \<and>
     (e \<noteq> None \<longrightarrow> kv_Root db' = kv_Root db0 \<and> updates db' = Map.empty \<and> nappend db' = 0 \<and> flushed db' = flushed db0 \<and>
        headPage db' = headPage db0 \<and> headSeq db' = headSeq db0 \<and> tailPage db' = tailPage db0 \<and> tailSeq db' = tailSeq db0 \<and>
        maxSeq db' = maxSeq db0) \<and>
     (e = None \<longrightarrow> (\<forall>k. k \<noteq> [] \<longrightarrow> KV_Get fuel db' k = Some ((M ++ P) k)) \<and>
        (\<forall>sys'. sys_create sys' = None \<longrightarrow> sys_mmap sys' = None \<longrightarrow>
           (\<exists>db2. Open sys' (KV_zero (kv_file db')) = Some (Inr db2) \<and> (\<forall>k. k \<noteq> [] \<longrightarrow> KV_Get fuel db2 k = Some ((M ++ P) k)))))"
proof -
  let ?kvs = "map (\<lambda>k. (k, the (P k))) worder"
  have ok: "\<forall>kv \<in> set ?kvs. kv_ok kv \<and> fst kv \<noteq> []" using w store_kv_ok [OF tx(1)] by fastforce
  have "(3 * (h + length ?kvs) + 4) * length ?kvs \<le> kv_room db" "h + length ?kvs \<le> fuel" using room fuel by simp_all
  from KV_Set_all_store [OF db ok this] obtain db1 where
    S: "KV_Set_all fuel db ?kvs = Some db1" "kv_store db1 (h + length worder) (M ++ P)"
    "kv_room db \<le> kv_room db1 + (3 * (h + length worder) + 4) * length worder" using map_of_entries [OF w] by auto
  have cw: "Commit_writes fuel db tx worder = Some db1" using Commit_writes_all [OF tx(1) fuel(2), of worder] w S(1) by simp
  then have ord': "set order = dom (updates db1)" using ord by blast
  have room1: "0 < kv_room db1" using S(3) room by linarith
  obtain db2 e where u: "updateFile sys order db1 = (db2, e)" by fastforce
  show ?thesis
  proof (cases e)
    case None
    have "Commit fuel sys order worder [] db tx = Some (db2, None)" using cw u None by (simp add: Commit_def)
    moreover from KV_durable [OF S(2) room1 u [unfolded None] ord' _ _ fuel(1)]
    have D: "\<exists>db3. Open sys' (KV_zero (kv_file db2)) = Some (Inr db3) \<and>
        (\<forall>k. k \<noteq> [] \<longrightarrow> KV_Get fuel db2 k = Some ((M ++ P) k) \<and> KV_Get fuel db3 k = Some ((M ++ P) k))"
      if "sys_create sys' = None" "sys_mmap sys' = None" for sys' using that by blast
    moreover have "\<forall>k. k \<noteq> [] \<longrightarrow> KV_Get fuel db2 k = Some ((M ++ P) k)" using D [OF Sys_ok_create] by blast
    ultimately show ?thesis by (intro exI [of _ db2] exI [of _ None]) blast
  next
    case (Some err)
    then show ?thesis using cw u Abort_Begin [OF tx(2), of db2] by (intro exI) (auto simp: Commit_def)
  qed
qed

section \<open>Properties\<close>



text \<open>C18: Deleting a key that the transaction has not written reports true, also when the key does not
  exist, and hides the key from the transaction; a second deletion reports false and changes nothing.\<close>

theorem KVTX_Del_view:
  assumes "tx_holds tx h P" "k \<notin> dom P" "\<not> Set_Has (delSet tx) k"
  shows "\<exists>tx'. KVTX_Del fuel tx k = Some (tx', True) \<and> tx_holds tx' h P \<and> tx_view tx' P S = (tx_view tx P S)(k := None) \<and>
     KVTX_Del fuel tx' k = Some (tx', False)"
proof -
  let ?tx = "tx\<lparr>delSet := fst (Set_Set (delSet tx) k), deletes := insert k (deletes tx)\<rparr>"
  have "KVTX_Del fuel tx k = Some (?tx, True)" using assms by (simp add: KVTX_Del_def tx_holds_def Let_def)
  moreover have "KVTX_Del fuel ?tx k = Some (?tx, False)" by (simp add: KVTX_Del_def util_set.has_ins)
  ultimately show ?thesis using KVTX_Del_unwritten [OF assms, of fuel S] by auto
qed



text \<open>C33: A transaction object cannot be used for a second transaction after it has written: \<open>Begin\<close> replaces
  the pages of the pending tree but keeps its root, and the next read of a key or write aborts on the
  missing root page.\<close>

theorem Begin_stale_root:
  assumes "pending_Root tx \<noteq> 0"
  shows "KVTX_Set fuel (Begin db tx) k v = None \<and> KVTX_Get fuel db (Begin db tx) k = None"
proof -
  have g: "pending_get pending_init (pending_Root tx) = Some []" by (simp add: pending_get_def pending_init_def)
  have "GetVal fuel (pending_tree (pending_Root tx)) pending_init k = None"
    using assms g by (cases fuel) (simp_all add: GetVal_def btype_def Uint16_at_def)
  moreover have "treeInsert fuel (pending_tree (pending_Root tx)) pending_init [] k v = None"
    by (cases fuel) (simp_all add: nodeLookupLE_def nkeys_def Uint16_at_def)
  then have "Insert fuel (pending_tree (pending_Root tx)) pending_init k v = None"
    using assms g by (simp add: Insert_def)
  moreover have "\<not> Set_Has NewSet k" by (rule util_set.has_new)
  ultimately show ?thesis by (simp add: KVTX_Set_def KVTX_Get_def Begin_def)
qed

section \<open>Witnesses\<close>

lemma demo_begin: "tx_holds (Begin (KV_zero []) NewKVTX) 0 Map.empty" "store (kv_tree 0) (\<lambda>s. UNIV) (KV_zero []) 0 Map.empty"
  "pending_room (pending_store (Begin (KV_zero []) NewKVTX)) = 2 ^ 64 - 1"
proof -
  show "tx_holds (Begin (KV_zero []) NewKVTX) 0 Map.empty" by (rule tx_holds_Begin) (simp add: NewKVTX_def)
qed (simp_all add: store_def Begin_def pending_room_def pending_init_def)



theorem KVTX_Del_view_witness:
  "\<exists>tx'. KVTX_Del 1 (Begin (KV_zero []) NewKVTX) [7] = Some (tx', True) \<and> tx_view tx' Map.empty [[7] \<mapsto> [1]] [7] = None"
proof -
  have "\<not> Set_Has (delSet (Begin (KV_zero []) NewKVTX)) [7]" using util_set.has_new by (simp add: Begin_def)
  from KVTX_Del_view [OF demo_begin(1) _ this, of 1 "[[7] \<mapsto> [1]]"] show ?thesis by auto
qed


theorem Begin_stale_root_witness:
  "KVTX_Set 5 (Begin (KV_zero []) (NewKVTX\<lparr>pending_Root := 1\<rparr>)) [7] [1] = None"
  using Begin_stale_root [of "NewKVTX\<lparr>pending_Root := 1\<rparr>" 5 "KV_zero []"] by simp


end

