(* ===== verification/Schema.thy ===== *)
theory Schema
  imports Prelude
begin

text \<open>
  The model of \<^verbatim>\<open>types/schema.go\<close>: values, records, table definitions, and the codec that turns
  the values of a key into bytes whose lexicographic order is the order of the values.
  A Go \<open>int64\<close> is a 64-bit word read with \<open>sint\<close>. A position \<open>bytePtr\<close> into a key is
  represented by the bytes that are left from it on.
\<close>

section \<open>Values, records, table definitions\<close>

abbreviation TYPE_BYTES :: u32 where "TYPE_BYTES \<equiv> 1"
abbreviation TYPE_INT64 :: u32 where "TYPE_INT64 \<equiv> 2"

record Value =
  v_Type :: u32
  v_I64 :: i64
  v_Str :: bytes

record Record =
  r_Cols :: "gostring list"
  r_Vals :: "Value list"

record TableDef =
  td_Name :: gostring
  td_Cols :: "gostring list"
  td_Types :: "u32 list"
  td_Pkeys :: nat
  td_Prefixes :: "u32 list"
  td_Indexes :: "gostring list list"

definition BytesValue :: "bytes \<Rightarrow> Value" where
  "BytesValue s = \<lparr>v_Type = TYPE_BYTES, v_I64 = 0, v_Str = s\<rparr>"

definition IntValue :: "i64 \<Rightarrow> Value" where
  "IntValue n = \<lparr>v_Type = TYPE_INT64, v_I64 = n, v_Str = []\<rparr>"

definition EmptyRecord :: Record where
  "EmptyRecord = \<lparr>r_Cols = [], r_Vals = []\<rparr>"

definition AddStr :: "Record \<Rightarrow> gostring \<Rightarrow> bytes \<Rightarrow> Record" where
  "AddStr r col val = \<lparr>r_Cols = r_Cols r @ [col], r_Vals = r_Vals r @ [BytesValue val]\<rparr>"

definition AddI64 :: "Record \<Rightarrow> gostring \<Rightarrow> i64 \<Rightarrow> Record" where
  "AddI64 r col val = \<lparr>r_Cols = r_Cols r @ [col], r_Vals = r_Vals r @ [IntValue val]\<rparr>"

text \<open>
  \<open>Get\<close> returns a pointer into \<open>r.Vals\<close>: the model returns the index it points to, \<open>Some None\<close>
  for the nil pointer and \<open>None\<close> for the panic of \<open>r.Vals[i]\<close>.
\<close>

fun find_col :: "gostring list \<Rightarrow> gostring \<Rightarrow> nat option" where
  "find_col [] col = None"
| "find_col (c # cs) col = (if c = col then Some 0 else map_option Suc (find_col cs col))"

definition Record_Get :: "Record \<Rightarrow> gostring \<Rightarrow> nat option option" where
  "Record_Get r col =
     (case find_col (r_Cols r) col of
        None \<Rightarrow> Some None
      | Some i \<Rightarrow> if i < length (r_Vals r) then Some (Some i) else None)"

text \<open>\<open>fmt.Sprintf("%d", n)\<close>.\<close>

fun dec_digits :: "nat \<Rightarrow> bytes" where
  "dec_digits n = (if n < 10 then [of_nat (48 + n)] else dec_digits (n div 10) @ [of_nat (48 + n mod 10)])"

declare dec_digits.simps [simp del]

definition Sprintf_d :: "i64 \<Rightarrow> gostring" where
  "Sprintf_d n = (if sint n < 0 then str ''-'' @ dec_digits (nat (- sint n)) else dec_digits (nat (sint n)))"

definition Record_ToString :: "Record \<Rightarrow> gostring list" where
  "Record_ToString r =
     map (\<lambda>v. if v_Type v = TYPE_BYTES then v_Str v else Sprintf_d (v_I64 v)) (r_Vals r)"

definition TDEF_TABLE :: TableDef where
  "TDEF_TABLE = \<lparr>td_Name = str ''@table'', td_Cols = [str ''name'', str ''def''],
     td_Types = [TYPE_BYTES, TYPE_BYTES], td_Pkeys = 1, td_Prefixes = [2],
     td_Indexes = [[str ''name'']]\<rparr>"

definition TDEF_META :: TableDef where
  "TDEF_META = \<lparr>td_Name = str ''@meta'', td_Cols = [str ''key'', str ''value''],
     td_Types = [TYPE_BYTES, TYPE_BYTES], td_Pkeys = 1, td_Prefixes = [1],
     td_Indexes = [[str ''key'']]\<rparr>"

section \<open>The key codec\<close>

fun SerializeBytes :: "bytes \<Rightarrow> bytes" where
  "SerializeBytes [] = []"
| "SerializeBytes (b # s) =
     (if b = 0 then [1, 1] else if b = 1 then [1, 2] else [b]) @ SerializeBytes s"

text \<open>The loop of \<open>DeserializeBytes\<close> with its \<open>escape\<close> flag and \<open>decodedBytes\<close>.\<close>

fun DeserializeBytes_loop :: "bool \<Rightarrow> bytes \<Rightarrow> bytes \<Rightarrow> bytes option" where
  "DeserializeBytes_loop escape decoded [] = Some decoded"
| "DeserializeBytes_loop escape decoded (b # bs) =
     (if b = 1 \<and> \<not> escape then DeserializeBytes_loop True decoded bs
      else if escape then
        (if b = 1 then DeserializeBytes_loop False (decoded @ [0]) bs
         else if b = 2 then DeserializeBytes_loop False (decoded @ [1]) bs
         else None)
      else DeserializeBytes_loop False (decoded @ [b]) bs)"

definition DeserializeBytes :: "bytes \<Rightarrow> bytes option" where
  "DeserializeBytes encoded = DeserializeBytes_loop False [] encoded"

definition SerializeInt :: "i64 \<Rightarrow> bytes option" where
  "SerializeInt num =
     (if sint num = - 9223372036854775808 then None else Some (be64 (num XOR push_bit 63 1)))"

definition DeserializeInt :: "bytes \<Rightarrow> i64 option" where
  "DeserializeInt encodedNum =
     (if length encodedNum < 8 then None
      else Some (of_nat (be_val (take 8 encodedNum)) XOR push_bit 63 1))"

fun EncodeKey_loop :: "bytes \<Rightarrow> Value list \<Rightarrow> bytes option" where
  "EncodeKey_loop key [] = Some key"
| "EncodeKey_loop key (val # pks) =
     (if v_Type val = TYPE_BYTES then EncodeKey_loop (key @ SerializeBytes (v_Str val) @ [0]) pks
      else if v_Type val = TYPE_INT64 then
        do { n \<leftarrow> SerializeInt (v_I64 val); EncodeKey_loop (key @ n) pks }
      else None)"

definition EncodeKey :: "u32 \<Rightarrow> Value list \<Rightarrow> bytes option" where
  "EncodeKey prefix pks = EncodeKey_loop (be32 prefix) pks"

text \<open>
  \<open>split_delim\<close> is the inner loop of \<open>DecodeKey\<close> on a bytes column: it collects up to the
  delimiter and panics when the key ends first.
\<close>

fun split_delim :: "bytes \<Rightarrow> (bytes \<times> bytes) option" where
  "split_delim [] = None"
| "split_delim (b # bs) =
     (if b = 0 then Some ([], bs)
      else do { (key, rest) \<leftarrow> split_delim bs; Some (b # key, rest) })"

fun DecodeKey_split :: "u32 list \<Rightarrow> bytes \<Rightarrow> bytes list option" where
  "DecodeKey_split [] bs = Some []"
| "DecodeKey_split (keyType # ts) bs =
     (if keyType = TYPE_BYTES then
        do { (key, rest) \<leftarrow> split_delim bs; pks \<leftarrow> DecodeKey_split ts rest; Some (key # pks) }
      else if keyType = TYPE_INT64 then
        do { key \<leftarrow> go_upto bs 8; pks \<leftarrow> DecodeKey_split ts (drop 8 bs); Some (key # pks) }
      else None)"

fun DecodeKey_vals :: "u32 list \<Rightarrow> bytes list \<Rightarrow> Value list option" where
  "DecodeKey_vals (keyType # ts) (pk # pks) =
     (if keyType = TYPE_INT64 then
        do { n \<leftarrow> DeserializeInt pk; vals \<leftarrow> DecodeKey_vals ts pks; Some (IntValue n # vals) }
      else if keyType = TYPE_BYTES then
        do { s \<leftarrow> DeserializeBytes pk; vals \<leftarrow> DecodeKey_vals ts pks; Some (BytesValue s # vals) }
      else do { vals \<leftarrow> DecodeKey_vals ts pks; Some (\<lparr>v_Type = 0, v_I64 = 0, v_Str = []\<rparr> # vals) })"
| "DecodeKey_vals ts pks = Some []"

definition DecodeKey :: "bytes \<Rightarrow> TableDef \<Rightarrow> Value list option" where
  "DecodeKey encodedBytes tdef =
     do { bs \<leftarrow> go_from encodedBytes 4;
          ts \<leftarrow> (if td_Pkeys tdef \<le> length (td_Types tdef)
                then Some (take (td_Pkeys tdef) (td_Types tdef)) else None);
          pks \<leftarrow> DecodeKey_split ts bs;
          DecodeKey_vals ts pks }"

section \<open>Projections of a record\<close>

fun GetPKs_loop :: "Record \<Rightarrow> Record \<Rightarrow> nat \<Rightarrow> nat \<Rightarrow> Record option" where
  "GetPKs_loop rec newRec i 0 = Some newRec"
| "GetPKs_loop rec newRec i (Suc n) =
     (if \<not> i < length (r_Vals rec) then None
      else
        let v = r_Vals rec ! i in
        if v_Type v = TYPE_BYTES then
          (if i < length (r_Cols rec)
           then GetPKs_loop rec (AddStr newRec (r_Cols rec ! i) (v_Str v)) (Suc i) n else None)
        else if v_Type v = TYPE_INT64 then
          (if i < length (r_Cols rec)
           then GetPKs_loop rec (AddI64 newRec (r_Cols rec ! i) (v_I64 v)) (Suc i) n else None)
        else GetPKs_loop rec newRec (Suc i) n)"

definition GetPKs :: "Record \<Rightarrow> nat \<Rightarrow> Record option" where
  "GetPKs rec Pkeys = GetPKs_loop rec EmptyRecord 0 Pkeys"

definition GetRecordVals :: "TableDef \<Rightarrow> Record \<Rightarrow> nat \<Rightarrow> gostring + Value list" where
  "GetRecordVals tdef rec n =
     (if length (r_Cols rec) < n \<or> n \<noteq> td_Pkeys tdef
      then Inl (str ''invalid number of columns in record'') else Inr (r_Vals rec))"

section \<open>What the codec promises\<close>

text \<open>
  The order of key values: the values of a column compare as byte strings or as signed integers,
  tuples lexicographically, a proper prefix first. \<open>key_value\<close> holds of the values that
  \<open>AddStr\<close> and \<open>AddI64\<close> build.
\<close>

fun val_less :: "Value \<Rightarrow> Value \<Rightarrow> bool" where
  "val_less v w = (if v_Type v = TYPE_BYTES then v_Str v < v_Str w else sint (v_I64 v) < sint (v_I64 w))"

fun val_same :: "Value \<Rightarrow> Value \<Rightarrow> bool" where
  "val_same v w = (if v_Type v = TYPE_BYTES then v_Str v = v_Str w else v_I64 v = v_I64 w)"

fun vals_less :: "Value list \<Rightarrow> Value list \<Rightarrow> bool" where
  "vals_less vs [] = False"
| "vals_less [] (w # ws) = True"
| "vals_less (v # vs) (w # ws) = (val_less v w \<or> val_same v w \<and> vals_less vs ws)"

fun same_types :: "Value list \<Rightarrow> Value list \<Rightarrow> bool" where
  "same_types (v # vs) (w # ws) = (v_Type v = v_Type w \<and> same_types vs ws)"
| "same_types vs ws = True"

definition key_value :: "Value \<Rightarrow> bool" where
  "key_value v \<longleftrightarrow> v = BytesValue (v_Str v) \<or> v = IntValue (v_I64 v)"

section \<open>Properties of the codec\<close>

lemma SerializeBytes_no_delim: "0 \<notin> set (SerializeBytes s)"
  by (induction s) auto

lemma split_delim_append: "0 \<notin> set k \<Longrightarrow> split_delim (k @ 0 # rest) = Some (k, rest)"
  by (induction k) auto

lemma DeserializeBytes_loop_Serialize:
  "DeserializeBytes_loop False acc (SerializeBytes s) = Some (acc @ s)"
  by (induction s arbitrary: acc) auto

lemma byte_gt_1: "(d :: byte) \<noteq> 0 \<Longrightarrow> d \<noteq> 1 \<Longrightarrow> 1 < d"
  by (metis linorder_less_linear word_less_1 )

lemma byte_01 [simp]: "\<not> (1 :: byte) < 0" "(0 :: byte) < 1" "(1::byte) < 2"
  by simp_all

lemma escape_less_iff:
  "(if c = 0 then [1, 1] else if c = 1 then [1, 2] else [c :: byte]) @ x
     < (if d = 0 then [1, 1] else if d = 1 then [1, 2] else [d]) @ y
   \<longleftrightarrow> c < d \<or> c = d \<and> x < y"
  using byte_gt_1 [of c] byte_gt_1 [of d] by (auto simp: word_gt_0 dest: order.asym)

lemma SerializeBytes_less_iff:
  "SerializeBytes a @ 0 # x < SerializeBytes b @ 0 # y \<longleftrightarrow> a < b \<or> a = b \<and> x < y"
proof (induction a arbitrary: b)
  case Nil
  then show ?case by (cases b) (auto simp: word_gt_0)
next
  case (Cons c a)
  show ?case
  proof (cases b)
    case Nil
    then show ?thesis by simp
  next
    case (Cons d b')
    with Cons.IH [of b'] escape_less_iff [of c "SerializeBytes a @ 0 # x" d "SerializeBytes b' @ 0 # y"]
    show ?thesis by (auto simp del: append.simps)
  qed
qed

lemma SerializeBytes_inj: "SerializeBytes a = SerializeBytes b \<longleftrightarrow> a = b"
  by (metis DeserializeBytes_loop_Serialize append_Nil option.inject)

lemma EncodeKey_loop_acc:
  "EncodeKey_loop key pks = map_option ((@) key) (EncodeKey_loop [] pks)"
proof (induction pks arbitrary: key)
  case Nil
  then show ?case by simp
next
  case (Cons v pks)
  have acc: "EncodeKey_loop (key @ n) pks = map_option ((@) key) (EncodeKey_loop n pks)" for n
    by (subst (1 2) Cons) (cases "EncodeKey_loop [] pks"; simp)
  show ?case
    by (cases "SerializeInt (v_I64 v)") (simp_all add: acc)
qed

lemma EncodeKey_loop_Cons:
  "EncodeKey_loop [] (v # pks) =
     (if v_Type v = TYPE_BYTES then map_option (\<lambda>b. SerializeBytes (v_Str v) @ 0 # b) (EncodeKey_loop [] pks)
      else if v_Type v = TYPE_INT64 then
        do { n \<leftarrow> SerializeInt (v_I64 v); b \<leftarrow> EncodeKey_loop [] pks; Some (n @ b) }
      else None)"
proof -
  have "EncodeKey_loop n pks = do { b \<leftarrow> EncodeKey_loop [] pks; Some (n @ b) }" for n
    by (subst EncodeKey_loop_acc) (cases "EncodeKey_loop [] pks"; simp)
  then show ?thesis
    by (cases "EncodeKey_loop [] pks") simp_all
qed

lemma EncodeKey_loop_ConsE:
  assumes "EncodeKey_loop [] (v # vs) = Some a"
  obtains (bytes) a' where "v_Type v = TYPE_BYTES" "EncodeKey_loop [] vs = Some a'"
      "a = SerializeBytes (v_Str v) @ 0 # a'"
    | (int) n a' where "v_Type v = TYPE_INT64" "SerializeInt (v_I64 v) = Some n"
      "EncodeKey_loop [] vs = Some a'" "a = n @ a'"
  using assms unfolding EncodeKey_loop_Cons by (auto split: if_splits bind_splits)

lemma SerializeInt_Some: "SerializeInt n = Some b \<Longrightarrow> b = be64 (n XOR 9223372036854775808)"
  by (auto simp: SerializeInt_def split: if_splits)

lemma EncodeKey_loop_eq_Nil: "EncodeKey_loop [] vs = Some [] \<Longrightarrow> vs = []"
  by (cases vs) (auto elim!: EncodeKey_loop_ConsE dest!: SerializeInt_Some
      simp del: EncodeKey_loop.simps(2))

lemma SerializeInt_less_iff:
  "SerializeInt m = Some a \<Longrightarrow> SerializeInt n = Some b \<Longrightarrow>
   a @ x < b @ y \<longleftrightarrow> sint m < sint n \<or> m = n \<and> x < y"
  by (auto dest!: SerializeInt_Some simp: lex_append_less be64_less_iff xor_top_less_iff)

lemma EncodeKey_loop_less_iff:
  assumes "EncodeKey_loop [] vs = Some a" "EncodeKey_loop [] ws = Some b" "same_types vs ws"
  shows "a < b \<longleftrightarrow> vals_less vs ws"
  using assms
proof (induction vs ws arbitrary: a b rule: vals_less.induct)
  case (1 vs)
  then show ?case by simp
next
  case (2 w ws)
  then show ?case using EncodeKey_loop_eq_Nil [of "w # ws"] by (cases b) auto
next
  case (3 v vs w ws)
  from "3.prems"(3) have t: "v_Type v = v_Type w" "same_types vs ws" by simp_all
  from "3.prems"(1) show ?case
  proof (cases rule: EncodeKey_loop_ConsE)
    case (bytes a')
    from "3.prems"(2) bytes t "3.IH" show ?thesis
      by (cases rule: EncodeKey_loop_ConsE) (auto simp: SerializeBytes_less_iff)
  next
    case (int n a')
    from "3.prems"(2) int t "3.IH" show ?thesis
      by (cases rule: EncodeKey_loop_ConsE) (auto simp: SerializeInt_less_iff)
  qed
qed


lemma DeserializeInt_Serialize: "SerializeInt n = Some b \<Longrightarrow> DeserializeInt b = Some n"
  by (auto dest!: SerializeInt_Some simp: DeserializeInt_def)

lemma DeserializeBytes_Serialize: "DeserializeBytes (SerializeBytes s) = Some s"
  by (simp add: DeserializeBytes_def DeserializeBytes_loop_Serialize)

lemma key_value_cases:
  "key_value v \<Longrightarrow> v_Type v = TYPE_BYTES \<Longrightarrow> v = BytesValue (v_Str v)"
  "key_value v \<Longrightarrow> v_Type v = TYPE_INT64 \<Longrightarrow> v = IntValue (v_I64 v)"
  by (cases v; auto simp: key_value_def BytesValue_def IntValue_def)+

lemma DecodeKey_split_Encode:
  assumes "EncodeKey_loop [] vs = Some a" "\<forall>v \<in> set vs. key_value v"
  shows "\<exists>pks. DecodeKey_split (map v_Type vs) (a @ rest) = Some pks \<and>
           DecodeKey_vals (map v_Type vs) pks = Some vs"
  using assms
proof (induction vs arbitrary: a)
  case Nil
  then show ?case by simp
next
  case (Cons v vs)
  from Cons.prems(1) show ?case
  proof (cases rule: EncodeKey_loop_ConsE)
    case (bytes a')
    from Cons.IH [OF bytes(2)] Cons.prems(2) obtain pks where
      "DecodeKey_split (map v_Type vs) (a' @ rest) = Some pks"
      "DecodeKey_vals (map v_Type vs) pks = Some vs" by auto
    moreover have "v = BytesValue (v_Str v)"
      using Cons.prems(2) bytes(1) by (auto intro: key_value_cases)
    ultimately show ?thesis
      using bytes by (simp add: split_delim_append SerializeBytes_no_delim DeserializeBytes_Serialize)
  next
    case (int n a')
    from Cons.IH [OF int(3)] Cons.prems(2) obtain pks where
      "DecodeKey_split (map v_Type vs) (a' @ rest) = Some pks"
      "DecodeKey_vals (map v_Type vs) pks = Some vs" by auto
    moreover have "v = IntValue (v_I64 v)"
      using Cons.prems(2) int(1) by (auto intro: key_value_cases)
    moreover have "length n = 8" using int(2) by (auto dest: SerializeInt_Some)
    ultimately show ?thesis
      using int by (simp add: go_upto_def DeserializeInt_Serialize)
  qed
qed

lemma EncodeKey_eq: "EncodeKey p vs = map_option ((@) (be32 p)) (EncodeKey_loop [] vs)"
  by (simp add: EncodeKey_def EncodeKey_loop_acc [of "be32 p"])

text \<open>C12: The encoding of keys keeps their order: two keys of one table whose columns agree in type compare as
  bytes exactly as their values do, strings by their bytes and integers by their sign and size.\<close>

theorem EncodeKey_order:
  assumes "EncodeKey p vs = Some a" "EncodeKey p ws = Some b" "same_types vs ws"
  shows "a < b \<longleftrightarrow> vals_less vs ws"
  using assms EncodeKey_loop_less_iff by (auto simp: EncodeKey_eq)

text \<open>C28: The keys of a table or index come before all keys of a table or index with a higher prefix.\<close>

theorem EncodeKey_prefix_order:
  assumes "EncodeKey p vs = Some a" "EncodeKey q ws = Some b" "p < q"
  shows "a < b"
  using assms by (auto simp: EncodeKey_eq lex_append_less be32_less_iff)

lemma EncodeKey_loop_append:
  "EncodeKey_loop [] (vs @ ws) =
     do { a \<leftarrow> EncodeKey_loop [] vs; b \<leftarrow> EncodeKey_loop [] ws; Some (a @ b) }"
proof (induction vs)
  case Nil
  then show ?case by simp
next
  case (Cons v vs)
  then show ?case
    unfolding append_Cons EncodeKey_loop_Cons
    by (cases "EncodeKey_loop [] vs"; cases "EncodeKey_loop [] ws"; cases "SerializeInt (v_I64 v)")
       simp_all
qed

text \<open>C13: Decoding the key of a record gives back its primary key values, whatever follows them in the key,
  when the values are of the types the table declares.\<close>

theorem DecodeKey_EncodeKey:
  assumes "EncodeKey p (vs @ ws) = Some a" "\<forall>v \<in> set vs. key_value v"
    and "td_Pkeys tdef = length vs" "take (length vs) (td_Types tdef) = map v_Type vs"
    and "length vs \<le> length (td_Types tdef)"
  shows "DecodeKey a tdef = Some vs"
proof -
  from assms(1) obtain k r where "EncodeKey_loop [] vs = Some k" "a = be32 p @ k @ r"
    by (auto simp: EncodeKey_eq EncodeKey_loop_append split: bind_splits)
  with assms DecodeKey_split_Encode [of vs k r] show ?thesis
    by (auto simp: DecodeKey_def go_from_def)
qed

section \<open>Witnesses\<close>

definition demo_key :: "i64 \<Rightarrow> bytes \<Rightarrow> Value list" where
  "demo_key n s = [IntValue n, BytesValue s]"

lemma demo_key_encodes: "sint n \<noteq> - 9223372036854775808 \<Longrightarrow> \<exists>a. EncodeKey p (demo_key n s) = Some a"
  by (auto simp: demo_key_def EncodeKey_def SerializeInt_def IntValue_def BytesValue_def)

lemma demo_key_types: "same_types (demo_key m s) (demo_key n t)"
  by (simp add: demo_key_def IntValue_def BytesValue_def)

theorem EncodeKey_order_witness:
  "\<exists>a b. EncodeKey 3 (demo_key (- 1) [0]) = Some a \<and> EncodeKey 3 (demo_key 2 []) = Some b \<and> a < b"
proof -
  obtain a b where ab: "EncodeKey 3 (demo_key (- 1) [0]) = Some a" "EncodeKey 3 (demo_key 2 []) = Some b"
    using demo_key_encodes [of "- 1" 3 "[0]"] demo_key_encodes [of 2 3 "[]"] by auto
  have "vals_less (demo_key (- 1) [0]) (demo_key 2 [])" by (simp add: demo_key_def IntValue_def)
  then show ?thesis using EncodeKey_order [OF ab demo_key_types] ab by blast
qed

theorem EncodeKey_prefix_order_witness:
  "\<exists>a b. EncodeKey 3 (demo_key 9 [7]) = Some a \<and> EncodeKey 4 (demo_key (- 2) []) = Some b \<and> a < b"
proof -
  obtain a b where ab: "EncodeKey 3 (demo_key 9 [7]) = Some a" "EncodeKey 4 (demo_key (- 2) []) = Some b"
    using demo_key_encodes [of 9 3 "[7]"] demo_key_encodes [of "- 2" 4 "[]"] by auto
  then show ?thesis using EncodeKey_prefix_order [OF ab] by simp
qed

theorem DecodeKey_EncodeKey_witness:
  "\<exists>a. EncodeKey 3 (demo_key 5 [0, 1] @ []) = Some a \<and>
     DecodeKey a \<lparr>td_Name = [], td_Cols = [], td_Types = [TYPE_INT64, TYPE_BYTES], td_Pkeys = 2, td_Prefixes = [3], td_Indexes = []\<rparr> =
       Some (demo_key 5 [0, 1])"
proof -
  obtain a where a: "EncodeKey 3 (demo_key 5 [0, 1] @ []) = Some a" using demo_key_encodes [of 5 3 "[0, 1]"] by auto
  have "\<forall>v \<in> set (demo_key 5 [0, 1]). key_value v" by (simp add: demo_key_def key_value_def IntValue_def BytesValue_def)
  from DecodeKey_EncodeKey [OF a this] a show ?thesis by (simp add: demo_key_def IntValue_def BytesValue_def)
qed

end
