(* ===== verification/Secondary_Index.thy ===== *)
theory Secondary_Index
  imports Schema
begin

text \<open>
  The model of \<^verbatim>\<open>index/secondary.go\<close>: the keys that a record has in the secondary indexes of its table,
  and the primary key that such a key carries. The pointer that \<open>rec.Get\<close> returns points into the values of
  the caller's record, so the update of an empty value is an update of that record, which the model
  returns with the keys.
\<close>

section \<open>From a record to its index keys\<close>

fun sec_vals :: "Record \<Rightarrow> Value list \<Rightarrow> gostring list \<Rightarrow> (Record \<times> Value list) option" where
  "sec_vals rec pks [] = Some (rec, pks)"
| "sec_vals rec pks (col # cols) = do {
     val \<leftarrow> Record_Get rec col;
     i \<leftarrow> val;
     let rec = (if v_Type (r_Vals rec ! i) = TYPE_BYTES \<and> v_Str (r_Vals rec ! i) = []
                then rec\<lparr>r_Vals := (r_Vals rec)[i := (r_Vals rec ! i)\<lparr>v_Str := [0xff]\<rparr>]\<rparr> else rec);
     sec_vals rec (pks @ [r_Vals rec ! i]) cols }"

fun sec_keys :: "TableDef \<Rightarrow> Record \<Rightarrow> nat \<Rightarrow> bytes list \<Rightarrow> gostring list list \<Rightarrow> (Record \<times> bytes list) option" where
  "sec_keys tdef rec i keys [] = Some (rec, keys)"
| "sec_keys tdef rec i keys (idx # idxs) = do {
     (rec, pks) \<leftarrow> sec_vals rec [] idx;
     if td_Pkeys tdef \<le> length (r_Vals rec) \<and> i + 1 < length (td_Prefixes tdef) then do {
       key \<leftarrow> EncodeKey (td_Prefixes tdef ! (i + 1)) (pks @ take (td_Pkeys tdef) (r_Vals rec));
       sec_keys tdef rec (i + 1) (keys @ [key]) idxs }
     else None }"

definition GetSecondaryIndexesKeys :: "TableDef \<Rightarrow> Record \<Rightarrow> (Record \<times> bytes list) option" where
  "GetSecondaryIndexesKeys tdef rec =
     (if td_Indexes tdef = [] then None else sec_keys tdef rec 0 [] (drop 1 (td_Indexes tdef)))"

section \<open>From an index key to the primary key\<close>

fun sec_types :: "TableDef \<Rightarrow> gostring list \<Rightarrow> u32 list option" where
  "sec_types tdef [] = Some []"
| "sec_types tdef (col # cols) =
     (case find_col (td_Cols tdef) col of
        None \<Rightarrow> sec_types tdef cols
      | Some i \<Rightarrow>
          if i < length (td_Types tdef) then map_option ((#) (td_Types tdef ! i)) (sec_types tdef cols) else None)"

text \<open>The loop over the indexed values advances \<open>bytePtr\<close>; the bytes left from it on are returned.\<close>

fun sec_skip :: "u32 list \<Rightarrow> bytes \<Rightarrow> bytes option" where
  "sec_skip [] key = Some key"
| "sec_skip (keyType # ts) key =
     (if keyType = TYPE_BYTES then do { (v, rest) \<leftarrow> split_delim key; sec_skip ts rest }
      else if keyType = TYPE_INT64 then sec_skip ts (drop 8 key)
      else None)"

fun sec_split :: "u32 list \<Rightarrow> bytes \<Rightarrow> bytes list option" where
  "sec_split [] key = Some []"
| "sec_split (keyType # ts) key =
     (if keyType = TYPE_BYTES then do { (pk, rest) \<leftarrow> split_delim key; pks \<leftarrow> sec_split ts rest; Some (pk # pks) }
      else if keyType = TYPE_INT64 then do { pk \<leftarrow> go_upto key 8; pks \<leftarrow> sec_split ts (drop 8 key); Some (pk # pks) }
      else None)"

fun sec_record :: "TableDef \<Rightarrow> Record \<Rightarrow> nat \<Rightarrow> u32 list \<Rightarrow> bytes list \<Rightarrow> Record option" where
  "sec_record tdef rec i [] pks = Some rec"
| "sec_record tdef rec i (keyType # ts) pks =
     (if i < length pks \<and> i < length (td_Cols tdef) then
        if keyType = TYPE_INT64 then
          do { val \<leftarrow> DeserializeInt (pks ! i); sec_record tdef (AddI64 rec (td_Cols tdef ! i) val) (i + 1) ts pks }
        else if keyType = TYPE_BYTES then
          do { val \<leftarrow> DeserializeBytes (pks ! i); sec_record tdef (AddStr rec (td_Cols tdef ! i) val) (i + 1) ts pks }
        else sec_record tdef rec (i + 1) ts pks
      else None)"

definition GetPKFromSecKey :: "TableDef \<Rightarrow> bytes \<Rightarrow> nat \<Rightarrow> Record option" where
  "GetPKFromSecKey tdef key idx = do {
     key \<leftarrow> go_from key 4;
     cols \<leftarrow> (if idx < length (td_Indexes tdef) then Some (td_Indexes tdef ! idx) else None);
     valueTypes \<leftarrow> sec_types tdef cols;
     key \<leftarrow> sec_skip valueTypes key;
     ts \<leftarrow> (if td_Pkeys tdef \<le> length (td_Types tdef) then Some (take (td_Pkeys tdef) (td_Types tdef)) else None);
     pks \<leftarrow> sec_split ts key;
     sec_record tdef EmptyRecord 0 ts pks }"

section \<open>Lemmas\<close>

lemma sec_split_DecodeKey: "sec_split ts key = DecodeKey_split ts key"
  by (induction ts arbitrary: key) simp_all

lemma sec_skip_Encode:
  "EncodeKey_loop [] vs = Some a \<Longrightarrow> sec_skip (map v_Type vs) (a @ rest) = Some rest"
proof (induction vs arbitrary: a)
  case (Cons v vs)
  from Cons.prems show ?case
  proof (cases rule: EncodeKey_loop_ConsE)
    case (bytes a')
    then show ?thesis using Cons.IH by (simp add: split_delim_append SerializeBytes_no_delim)
  next
    case (int n a')
    then have "length n = 8" by (auto dest: SerializeInt_Some)
    then show ?thesis using int Cons.IH by simp
  qed
qed simp

lemma sec_record_vals:
  assumes "DecodeKey_vals ts pks' = Some vs" "length pks' = length ts" "\<forall>t \<in> set ts. t = TYPE_BYTES \<or> t = TYPE_INT64"
    and "drop i pks = pks'" "i + length ts \<le> length (td_Cols tdef)"
  shows "sec_record tdef rec i ts pks = Some \<lparr>r_Cols = r_Cols rec @ take (length ts) (drop i (td_Cols tdef)), r_Vals = r_Vals rec @ vs\<rparr>"
  using assms
proof (induction ts arbitrary: pks' i rec vs)
  case Nil
  then show ?case by simp
next
  case (Cons t ts)
  then obtain pk pks2 where p: "pks' = pk # pks2" by (cases pks') auto
  have i: "i < length pks" "pks ! i = pk" "drop (Suc i) pks = pks2" "i < length (td_Cols tdef)"
    using Cons.prems(4,5) p
    by (auto simp: nth_via_drop) (metis drop_all linorder_not_le list.distinct(1), metis drop_Suc list.sel(3) tl_drop)
  have c: "drop i (td_Cols tdef) = td_Cols tdef ! i # drop (Suc i) (td_Cols tdef)" using i(4) by (simp add: Cons_nth_drop_Suc)
  show ?case
  proof (cases "t = TYPE_INT64")
    case True
    then obtain n ws where n: "DeserializeInt pk = Some n" "DecodeKey_vals ts pks2 = Some ws" "vs = IntValue n # ws"
      using Cons.prems(1) p by (auto split: bind_splits)
    have "sec_record tdef (AddI64 rec (td_Cols tdef ! i) n) (i + 1) ts pks = Some \<lparr>r_Cols = r_Cols (AddI64 rec (td_Cols tdef ! i) n)
        @ take (length ts) (drop (i + 1) (td_Cols tdef)), r_Vals = r_Vals (AddI64 rec (td_Cols tdef ! i) n) @ ws\<rparr>"
      using Cons.prems p i n(2) by (intro Cons.IH [of pks2]) auto
    then show ?thesis using True n i c by (simp add: AddI64_def)
  next
    case False
    then have t: "t = TYPE_BYTES" using Cons.prems(3) by auto
    then obtain n ws where n: "DeserializeBytes pk = Some n" "DecodeKey_vals ts pks2 = Some ws" "vs = BytesValue n # ws"
      using Cons.prems(1) p by (auto split: bind_splits)
    have "sec_record tdef (AddStr rec (td_Cols tdef ! i) n) (i + 1) ts pks = Some \<lparr>r_Cols = r_Cols (AddStr rec (td_Cols tdef ! i) n)
        @ take (length ts) (drop (i + 1) (td_Cols tdef)), r_Vals = r_Vals (AddStr rec (td_Cols tdef ! i) n) @ ws\<rparr>"
      using Cons.prems p i n(2) by (intro Cons.IH [of pks2]) auto
    then show ?thesis using t n i c by (simp add: AddStr_def)
  qed
qed

lemma EncodeKey_types: "EncodeKey_loop [] vs = Some a \<Longrightarrow> v \<in> set vs \<Longrightarrow> v_Type v = TYPE_BYTES \<or> v_Type v = TYPE_INT64"
proof (induction vs arbitrary: a)
  case (Cons w vs)
  from Cons.prems(1) show ?case by (cases rule: EncodeKey_loop_ConsE) (use Cons in auto)
qed simp

lemma DecodeKey_split_length: "DecodeKey_split ts b = Some pks \<Longrightarrow> length pks = length ts"
  by (induction ts arbitrary: b pks) (auto split: if_splits bind_splits)

lemma GetPKFromSecKey_Encode:
  assumes "EncodeKey p (ivs @ pvs) = Some key" "idx < length (td_Indexes tdef)"
    and "sec_types tdef (td_Indexes tdef ! idx) = Some (map v_Type ivs)" "take (td_Pkeys tdef) (td_Types tdef) = map v_Type pvs"
    and "td_Pkeys tdef \<le> length (td_Types tdef)" "td_Pkeys tdef \<le> length (td_Cols tdef)" "\<forall>v \<in> set pvs. key_value v"
  shows "GetPKFromSecKey tdef key idx = Some \<lparr>r_Cols = take (td_Pkeys tdef) (td_Cols tdef), r_Vals = pvs\<rparr>"
proof -
  from assms(1) obtain a b where ab: "EncodeKey_loop [] ivs = Some a" "EncodeKey_loop [] pvs = Some b" "key = be32 p @ a @ b"
    by (auto simp: EncodeKey_eq EncodeKey_loop_append split: bind_splits)
  from DecodeKey_split_Encode [OF ab(2) assms(7), of "[]"] obtain pks where
    pks: "DecodeKey_split (map v_Type pvs) b = Some pks" "DecodeKey_vals (map v_Type pvs) pks = Some pvs" by auto
  have len: "td_Pkeys tdef = length pvs" using arg_cong [OF assms(4), of length] assms(5) by simp
  have "sec_record tdef EmptyRecord 0 (map v_Type pvs) pks =
      Some \<lparr>r_Cols = take (length pvs) (td_Cols tdef), r_Vals = pvs\<rparr>"
    using sec_record_vals [OF pks(2) _ _ _ , of 0 pks tdef EmptyRecord] DecodeKey_split_length [OF pks(1)]
      EncodeKey_types [OF ab(2)] assms(6) len by (auto simp: EmptyRecord_def)
  then show ?thesis
    using assms(2-5) ab sec_skip_Encode [OF ab(1), of b] pks(1) len
    by (simp add: GetPKFromSecKey_def go_from_def sec_split_DecodeKey)
qed

text \<open>Without an empty value under an indexed column the record does not change.\<close>

definition col_val :: "Record \<Rightarrow> gostring \<Rightarrow> Value" where
  "col_val rec col = r_Vals rec ! the (find_col (r_Cols rec) col)"

definition col_ok :: "Record \<Rightarrow> gostring \<Rightarrow> bool" where
  "col_ok rec col \<longleftrightarrow> (case find_col (r_Cols rec) col of None \<Rightarrow> False
     | Some i \<Rightarrow> i < length (r_Vals rec) \<and> (v_Type (r_Vals rec ! i) = TYPE_BYTES \<longrightarrow> v_Str (r_Vals rec ! i) \<noteq> []))"

lemma sec_vals_plain: "\<forall>c \<in> set cols. col_ok rec c \<Longrightarrow> sec_vals rec pks cols = Some (rec, pks @ map (col_val rec) cols)"
  by (induction cols arbitrary: pks) (auto simp: col_ok_def col_val_def Record_Get_def Let_def split: option.splits)

lemma sec_keys_plain:
  assumes "\<forall>idx \<in> set idxs. \<forall>c \<in> set idx. col_ok rec c" "sec_keys tdef rec i keys idxs = Some (rec', keys')"
  shows "rec' = rec \<and> length keys' = length keys + length idxs \<and> take (length keys) keys' = keys \<and>
     (\<forall>j < length idxs. EncodeKey (td_Prefixes tdef ! (i + j + 1)) (map (col_val rec) (idxs ! j) @ take (td_Pkeys tdef) (r_Vals rec)) =
        Some (keys' ! (length keys + j)))"
  using assms
proof (induction idxs arbitrary: i keys)
  case (Cons idx idxs)
  have "sec_vals rec [] idx = Some (rec, map (col_val rec) idx)" using Cons.prems(1) sec_vals_plain by simp
  with Cons.prems(2) obtain key where key: "EncodeKey (td_Prefixes tdef ! (i + 1)) (map (col_val rec) idx @ take (td_Pkeys tdef) (r_Vals rec)) = Some key"
    "sec_keys tdef rec (i + 1) (keys @ [key]) idxs = Some (rec', keys')" by (auto split: bind_splits if_splits)
  note IH = Cons.IH [OF _ key(2)] Cons.prems(1)
  then have t: "take (Suc (length keys)) keys' = keys @ [key]" "length keys' = length keys + Suc (length idxs)" by auto
  then have "keys' ! length keys = key" by (metis lessI nth_append_length nth_take)
  moreover have "take (length keys) keys' = keys" using t(1) by (metis append_eq_conv_conj length_append_singleton min.absorb1 n_not_Suc_n nat_le_linear not_less_eq_eq take_take butlast_take diff_Suc_1 butlast_snoc t(2) le_add1 add_Suc_right)
  ultimately show ?case using IH t(2) key(1) by (auto simp: less_Suc_eq_0_disj nth_Cons split: nat.split)
qed simp

lemma sec_types_vals:
  assumes "r_Cols rec = td_Cols tdef" "map v_Type (r_Vals rec) = td_Types tdef" "\<forall>c \<in> set cols. col_ok rec c"
  shows "sec_types tdef cols = Some (map v_Type (map (col_val rec) cols))"
  using assms(3)
proof (induction cols)
  case (Cons c cols)
  then obtain i where i: "find_col (td_Cols tdef) c = Some i" "i < length (r_Vals rec)"
    using assms(1) by (auto simp: col_ok_def split: option.splits)
  have "td_Types tdef ! i = v_Type (r_Vals rec ! i)" "i < length (td_Types tdef)"
    using i(2) unfolding assms(2) [symmetric] by simp_all
  then show ?case using Cons i assms(1) by (simp add: col_val_def)
qed simp

section \<open>Properties\<close>

text \<open>C15: Every secondary index key of a record leads back to its primary key: for a record of the table whose
  values are of the declared types and not empty in the indexed columns, decoding the key of each index
  gives the primary key columns with their values, and the record is not changed.\<close>

theorem GetPKFromSecKey_roundtrip:
  assumes "GetSecondaryIndexesKeys tdef rec = Some (rec', keys)" "r_Cols rec = td_Cols tdef" "map v_Type (r_Vals rec) = td_Types tdef"
    and "length (td_Cols tdef) = length (td_Types tdef)" "td_Pkeys tdef \<le> length (td_Types tdef)" "\<forall>v \<in> set (r_Vals rec). key_value v"
    and "\<forall>idx \<in> set (tl (td_Indexes tdef)). \<forall>c \<in> set idx. col_ok rec c" "j < length keys"
  shows "rec' = rec \<and> length keys = length (tl (td_Indexes tdef)) \<and>
     GetPKFromSecKey tdef (keys ! j) (Suc j) = Some \<lparr>r_Cols = take (td_Pkeys tdef) (td_Cols tdef), r_Vals = take (td_Pkeys tdef) (r_Vals rec)\<rparr>"
proof -
  let ?idxs = "tl (td_Indexes tdef)"
  have ne: "td_Indexes tdef \<noteq> []" using assms(1) by (auto simp: GetSecondaryIndexesKeys_def split: if_splits)
  then have "sec_keys tdef rec 0 [] ?idxs = Some (rec', keys)" using assms(1) by (simp add: GetSecondaryIndexesKeys_def drop_Suc)
  note K = sec_keys_plain [OF assms(7) this]
  then have j: "j < length ?idxs" using assms(8) by simp
  then have nth: "td_Indexes tdef ! Suc j = ?idxs ! j" "Suc j < length (td_Indexes tdef)" using ne by (simp_all add: nth_tl)
  have enc: "EncodeKey (td_Prefixes tdef ! (j + 1)) (map (col_val rec) (?idxs ! j) @ take (td_Pkeys tdef) (r_Vals rec)) = Some (keys ! j)"
    using K j by simp
  have "sec_types tdef (td_Indexes tdef ! Suc j) = Some (map v_Type (map (col_val rec) (?idxs ! j)))"
    unfolding nth(1) using assms(7) j by (intro sec_types_vals [OF assms(2,3)]) auto
  from GetPKFromSecKey_Encode [OF enc nth(2) this _ assms(5)] assms(3-6)
  show ?thesis using K by (auto simp: take_map [symmetric] dest: in_set_takeD)
qed

definition demo_tdef :: TableDef where
  "demo_tdef = \<lparr>td_Name = str ''t'', td_Cols = [str ''id'', str ''name''], td_Types = [TYPE_INT64, TYPE_BYTES], td_Pkeys = 1,
     td_Prefixes = [3, 4], td_Indexes = [[str ''id''], [str ''name'']]\<rparr>"

definition demo_rec :: "bytes \<Rightarrow> Record" where
  "demo_rec name = AddStr (AddI64 EmptyRecord (str ''id'') 5) (str ''name'') name"

theorem GetPKFromSecKey_roundtrip_witness:
  "\<exists>key. GetSecondaryIndexesKeys demo_tdef (demo_rec [65, 0, 66]) = Some (demo_rec [65, 0, 66], [key]) \<and>
     GetPKFromSecKey demo_tdef key 1 = Some \<lparr>r_Cols = [str ''id''], r_Vals = [IntValue 5]\<rparr>"
proof -
  have ids: "str ''id'' \<noteq> str ''name''" by (simp add: str_def)
  obtain key where key: "GetSecondaryIndexesKeys demo_tdef (demo_rec [65, 0, 66]) = Some (demo_rec [65, 0, 66], [key])"
    by (simp add: GetSecondaryIndexesKeys_def demo_tdef_def demo_rec_def Record_Get_def ids AddStr_def AddI64_def EmptyRecord_def Let_def
        BytesValue_def IntValue_def EncodeKey_def SerializeInt_def)
  from GetPKFromSecKey_roundtrip [OF this, of 0] ids have "GetPKFromSecKey demo_tdef key 1 = Some \<lparr>r_Cols = [str ''id''], r_Vals = [IntValue 5]\<rparr>"
    by (auto simp: demo_tdef_def demo_rec_def AddStr_def AddI64_def EmptyRecord_def BytesValue_def IntValue_def key_value_def col_ok_def)
  then show ?thesis using key by blast
qed

text \<open>C34: An empty value under an indexed column is replaced in the record of the caller: computing the index
  keys of a table with one secondary index on one column changes the value to the byte 0xff, and the
  key is that of the changed record.\<close>

theorem GetSecondaryIndexesKeys_clobbers:
  assumes "td_Indexes tdef = [i0, [col]]" "find_col (r_Cols rec) col = Some i" "i < length (r_Vals rec)"
    and "r_Vals rec ! i = BytesValue []" "GetSecondaryIndexesKeys tdef rec = Some (rec', keys)"
  shows "r_Vals rec' = (r_Vals rec)[i := BytesValue [0xff]] \<and>
     EncodeKey (td_Prefixes tdef ! 1) (BytesValue [0xff] # take (td_Pkeys tdef) (r_Vals rec')) = Some (hd keys)"
  using assms by (auto simp: GetSecondaryIndexesKeys_def Record_Get_def Let_def BytesValue_def split: bind_splits if_splits)

theorem GetSecondaryIndexesKeys_clobbers_witness:
  "\<exists>rec' keys. GetSecondaryIndexesKeys demo_tdef (demo_rec []) = Some (rec', keys) \<and> rec' = demo_rec [0xff]"
proof -
  have ids: "str ''id'' \<noteq> str ''name''" by (simp add: str_def)
  obtain rec' keys where k: "GetSecondaryIndexesKeys demo_tdef (demo_rec []) = Some (rec', keys)" "r_Cols rec' = r_Cols (demo_rec [])"
    by (simp add: GetSecondaryIndexesKeys_def demo_tdef_def demo_rec_def Record_Get_def ids AddStr_def AddI64_def EmptyRecord_def Let_def
        BytesValue_def IntValue_def EncodeKey_def SerializeInt_def)
  from GetSecondaryIndexesKeys_clobbers [OF _ _ _ _ k(1), of "[str ''id'']" "str ''name''" 1] ids
  have "r_Vals rec' = (r_Vals (demo_rec []))[1 := BytesValue [0xff]]"
    by (auto simp: demo_tdef_def demo_rec_def AddStr_def AddI64_def EmptyRecord_def)
  then show ?thesis using k by (intro exI [of _ rec'] exI [of _ keys]) (simp add: demo_rec_def AddStr_def AddI64_def EmptyRecord_def)
qed

end
