(* ===== verification/Lexer.thy ===== *)
theory Lexer
  imports Schema
begin

text \<open>
  The tokens of the query language (\<^verbatim>\<open>parser/lexer.go\<close>) and the syntax tree they build (the types of
  \<^verbatim>\<open>parser/parser.go\<close>). A parser is its input, the capacity of the slice behind it (the bytes between its
  length and its capacity are zero), the index of the next byte, and the error so far, as its message.

  A byte is classified as the rune of the same number, so only Latin-1 matters. \<open>EqualFold\<close> and \<open>ToLower\<close>
  are applied to input of the length of an ASCII keyword, or to bytes that are letters and digits of
  Latin-1: none of these is the encoding of a rune that folds to an ASCII letter, so that the comparison
  is the one of ASCII letters.
\<close>

section \<open>The syntax tree\<close>

abbreviation QL_UINT :: u32 where "QL_UINT \<equiv> 0"
abbreviation QL_STR :: u32 where "QL_STR \<equiv> TYPE_BYTES"
abbreviation QL_I64 :: u32 where "QL_I64 \<equiv> TYPE_INT64"
abbreviation QL_SYM :: u32 where "QL_SYM \<equiv> 3"
abbreviation QL_CMP_GE :: u32 where "QL_CMP_GE \<equiv> 10"
abbreviation QL_CMP_GT :: u32 where "QL_CMP_GT \<equiv> 11"
abbreviation QL_CMP_LE :: u32 where "QL_CMP_LE \<equiv> 12"
abbreviation QL_CMP_LT :: u32 where "QL_CMP_LT \<equiv> 13"
abbreviation QL_OR :: u32 where "QL_OR \<equiv> 14"
abbreviation QL_AND :: u32 where "QL_AND \<equiv> 15"
abbreviation QL_ADD :: u32 where "QL_ADD \<equiv> 16"
abbreviation QL_SUB :: u32 where "QL_SUB \<equiv> 17"
abbreviation QL_MOD :: u32 where "QL_MOD \<equiv> 18"
abbreviation QL_MUL :: u32 where "QL_MUL \<equiv> 19"
abbreviation QL_DIV :: u32 where "QL_DIV \<equiv> 20"
abbreviation QL_BOOL :: u32 where "QL_BOOL \<equiv> 21"
abbreviation QL_CMP_EQ :: u32 where "QL_CMP_EQ \<equiv> 22"
abbreviation QL_NEG :: u32 where "QL_NEG \<equiv> 30"
abbreviation QL_TUP :: u32 where "QL_TUP \<equiv> 40"

definition valWithType :: "u32 \<Rightarrow> Value" where
  "valWithType t = \<lparr>v_Type = t, v_I64 = 0, v_Str = []\<rparr>"

datatype QLNode = QLNode (node_val: Value) (Kids: "QLNode list")

definition node_zero :: QLNode where
  "node_zero = QLNode (valWithType 0) []"

section \<open>Characters and keywords\<close>

definition IsSpace :: "byte \<Rightarrow> bool" where
  "IsSpace c \<longleftrightarrow> 9 \<le> c \<and> c \<le> 13 \<or> c = 32 \<or> c = 0x85 \<or> c = 0xA0"

definition IsLetter :: "byte \<Rightarrow> bool" where
  "IsLetter c \<longleftrightarrow> 65 \<le> c \<and> c \<le> 90 \<or> 97 \<le> c \<and> c \<le> 122 \<or> c = 0xAA \<or> c = 0xB5 \<or> c = 0xBA \<or>
     0xC0 \<le> c \<and> c \<noteq> 0xD7 \<and> c \<noteq> 0xF7"

definition IsNumber :: "byte \<Rightarrow> bool" where
  "IsNumber c \<longleftrightarrow> 48 \<le> c \<and> c \<le> 57 \<or> c = 0xB2 \<or> c = 0xB3 \<or> c = 0xB9 \<or> 0xBC \<le> c \<and> c \<le> 0xBE"

definition fold_byte :: "byte \<Rightarrow> byte" where
  "fold_byte c = (if 65 \<le> c \<and> c \<le> 90 then c + 32 else c)"

definition EqualFold :: "gostring \<Rightarrow> gostring \<Rightarrow> bool" where
  "EqualFold s t \<longleftrightarrow> map fold_byte s = map fold_byte t"

definition ToLower :: "gostring \<Rightarrow> gostring" where
  "ToLower s = map fold_byte s"

definition KeyWords :: "gostring list" where
  "KeyWords = map str [
     ''create'', ''table'', ''select'', ''index'', ''by'', ''upsert'',
     ''insert'', ''filter'', ''into'', ''delete'', ''from'', ''update'', '','',
     ''('', '')'', ''-'', ''as'', ''or'', ''and'', ''+'', ''*'', ''/'', ''%'', '';'',
     ''>='', ''<='', ''=='', ''='', ''>'', ''<'', ''offset'', ''limit'', ''primary'', ''key'',
     ''values'', ''set'']"

definition isValidKeyword :: "gostring \<Rightarrow> bool" where
  "isValidKeyword s \<longleftrightarrow> (\<exists>tkn \<in> set KeyWords. EqualFold s tkn)"

definition isSym :: "byte \<Rightarrow> bool" where "isSym ch \<longleftrightarrow> IsLetter ch \<or> IsNumber ch \<or> ch = 95"
definition isSymStart :: "byte \<Rightarrow> bool" where "isSymStart ch \<longleftrightarrow> ch = 64"
definition isStr :: "byte \<Rightarrow> bool" where "isStr ch \<longleftrightarrow> IsLetter ch \<or> IsNumber ch"
definition isNum :: "byte \<Rightarrow> bool" where "isNum ch \<longleftrightarrow> IsNumber ch"

section \<open>The parser\<close>

record Parser =
  p_Input :: bytes
  p_Cap :: nat
  p_Idx :: nat
  p_Err :: "gostring option"

text \<open>The bytes that are left, and the index after the longest run of bytes of a class.\<close>

definition rest :: "Parser \<Rightarrow> bytes" where
  "rest p = drop (p_Idx p) (p_Input p)"

definition skipSpace :: "Parser \<Rightarrow> Parser" where
  "skipSpace p = p\<lparr>p_Idx := p_Idx p + length (takeWhile IsSpace (rest p))\<rparr>"

text \<open>The token is at least one byte long, also at the end of the input.\<close>

definition peekNextToken :: "Parser \<Rightarrow> (Parser \<times> gostring) option" where
  "peekNextToken p =
     (let p = skipSpace p;
          tail = takeWhile (\<lambda>c. isStr c \<or> isNum c) (drop (p_Idx p + 1) (p_Input p)) in
      if p_Idx p + 1 \<le> max (length (p_Input p)) (p_Cap p)
      then Some (p, (if p_Idx p < length (p_Input p) then [p_Input p ! p_Idx p] else [0]) @ tail) else None)"

fun pkeyword_loop :: "nat \<Rightarrow> Parser \<Rightarrow> gostring list \<Rightarrow> Parser \<times> bool" where
  "pkeyword_loop save p [] = (p, True)"
| "pkeyword_loop save p (kw # kwds) =
     (let p = skipSpace p; start = p_Idx p; end' = start + length kw in
      if end' > length (p_Input p) then (p\<lparr>p_Idx := save\<rparr>, False)
      else if \<not> EqualFold (slice start (length kw) (p_Input p)) kw \<or> \<not> isValidKeyword (ToLower kw)
      then (p\<lparr>p_Idx := save\<rparr>, False)
      else pkeyword_loop save (p\<lparr>p_Idx := end'\<rparr>) kwds)"

definition pkeyword :: "Parser \<Rightarrow> gostring list \<Rightarrow> Parser \<times> bool" where
  "pkeyword p kwds = pkeyword_loop (p_Idx p) p kwds"

text \<open>\<open>strconv.Atoi\<close>: decimal digits whose value fits an \<open>int64\<close>; the callers pass no sign.\<close>

fun dec_val :: "nat \<Rightarrow> bytes \<Rightarrow> nat" where
  "dec_val n [] = n"
| "dec_val n (c # cs) = dec_val (n * 10 + (unat c - 48)) cs"

definition Atoi :: "gostring \<Rightarrow> i64 option" where
  "Atoi s =
     (if s = [] \<or> (\<exists>c \<in> set s. \<not> (48 \<le> c \<and> c \<le> 57)) then None
      else if dec_val 0 s < 2 ^ 63 then Some (of_nat (dec_val 0 s)) else None)"

text \<open>The token functions return the parser, the node they were given as they leave it, and their result.\<close>

definition pNum :: "Parser \<Rightarrow> QLNode \<Rightarrow> Parser \<times> QLNode \<times> bool" where
  "pNum p node =
     (let p = skipSpace p in
      if p_Idx p \<ge> length (p_Input p) then (p, node, False)
      else
        let s = takeWhile isNum (rest p);
            node = QLNode ((node_val node)\<lparr>v_Type := QL_I64\<rparr>) (Kids node) in
        case Atoi s of
          None \<Rightarrow> (p, node, False)
        | Some num \<Rightarrow> (p\<lparr>p_Idx := p_Idx p + length s\<rparr>, QLNode ((node_val node)\<lparr>v_I64 := num\<rparr>) (Kids node), True))"

definition pStr :: "Parser \<Rightarrow> QLNode \<Rightarrow> Parser \<times> QLNode \<times> bool" where
  "pStr p node =
     (let p = skipSpace p in
      if p_Idx p \<ge> length (p_Input p) then (p, node, False)
      else
        let s = takeWhile isStr (rest p) in
        if isValidKeyword (ToLower s) then (p, node, False)
        else (p\<lparr>p_Idx := p_Idx p + length s\<rparr>, QLNode ((node_val node)\<lparr>v_Type := QL_STR, v_Str := s\<rparr>) (Kids node), True))"

definition pSym :: "Parser \<Rightarrow> QLNode \<Rightarrow> Parser \<times> QLNode \<times> bool" where
  "pSym p node =
     (let p = skipSpace p in
      if p_Idx p \<ge> length (p_Input p) \<or> \<not> isSymStart (p_Input p ! p_Idx p) then (p, node, False)
      else
        let p = p\<lparr>p_Idx := p_Idx p + 1\<rparr>; s = takeWhile isSym (rest p) in
        if isValidKeyword (ToLower s) then (p, node, False)
        else (p\<lparr>p_Idx := p_Idx p + length s\<rparr>, QLNode ((node_val node)\<lparr>v_Type := QL_SYM, v_Str := s\<rparr>) (Kids node), True))"

definition pMustSym :: "Parser \<Rightarrow> Parser \<times> gostring" where
  "pMustSym p =
     (let p = skipSpace p in
      if p_Idx p \<ge> length (p_Input p) then (p, [])
      else let s = takeWhile isSym (rest p) in (p\<lparr>p_Idx := p_Idx p + length s\<rparr>, s))"

definition pErr :: "Parser \<Rightarrow> string \<Rightarrow> Parser" where
  "pErr p msg =
     p\<lparr>p_Err := Some (case p_Err p of None \<Rightarrow> str msg | Some e \<Rightarrow> e @ str '': '' @ str msg)\<rparr>"

section \<open>The index stays in the input\<close>

text \<open>\<open>advances p q\<close>: \<open>q\<close> is \<open>p\<close> with the index moved forward inside the input, and possibly an error more.\<close>

definition advances :: "Parser \<Rightarrow> Parser \<Rightarrow> bool" where
  "advances p q \<longleftrightarrow> p_Input q = p_Input p \<and> p_Cap q = p_Cap p \<and> p_Idx p \<le> p_Idx q \<and> p_Idx q \<le> length (p_Input p)"

abbreviation in_range :: "Parser \<Rightarrow> bool" where
  "in_range p \<equiv> p_Idx p \<le> length (p_Input p)"

lemma advances_trans [trans]: "advances p q \<Longrightarrow> advances q r \<Longrightarrow> advances p r"
  by (auto simp: advances_def)

lemma advances_range: "advances p q \<Longrightarrow> in_range q"
  by (simp add: advances_def)

lemma skipSpace_advances: "in_range p \<Longrightarrow> advances p (skipSpace p)"
  using length_takeWhile_le [of IsSpace "rest p"] by (simp add: advances_def skipSpace_def rest_def)

lemma pErr_advances: "in_range p \<Longrightarrow> advances p (pErr p msg)"
  by (simp add: pErr_def advances_def)

lemma advances_run: "in_range p \<Longrightarrow> advances p (p\<lparr>p_Idx := p_Idx p + length (takeWhile P (rest p))\<rparr>)"
  using length_takeWhile_le [of P "rest p"] by (simp add: advances_def rest_def)

lemma pkeyword_loop_advances:
  assumes "pkeyword_loop save p kwds = (q, b)" "in_range p" "save \<le> p_Idx p"
  shows "p_Input q = p_Input p \<and> p_Cap q = p_Cap p \<and> p_Err q = p_Err p \<and> in_range q \<and>
     (if b then p_Idx p + length (concat kwds) \<le> p_Idx q else p_Idx q = save)"
  using assms
proof (induction kwds arbitrary: p)
  case (Cons kw kwds)
  note sk = skipSpace_advances [OF Cons.prems(2)]
  let ?p = "skipSpace p"
  show ?case
  proof (cases "p_Idx ?p + length kw > length (p_Input p) \<or> \<not> EqualFold (slice (p_Idx ?p) (length kw) (p_Input p)) kw \<or> \<not> isValidKeyword (ToLower kw)")
    case True
    then show ?thesis using Cons.prems sk by (auto simp: Let_def advances_def skipSpace_def split: if_splits)
  next
    case False
    let ?q = "?p\<lparr>p_Idx := p_Idx ?p + length kw\<rparr>"
    have "pkeyword_loop save ?q kwds = (q, b)" using False Cons.prems(1) sk by (auto simp: Let_def advances_def)
    from Cons.IH [OF this] show ?thesis using False Cons.prems(3) sk
      by (auto simp: advances_def skipSpace_def split: if_splits)
  qed
qed auto

lemma pkeyword_advances:
  assumes "in_range p" "pkeyword p kwds = (q, b)"
  shows "advances p q" "b \<Longrightarrow> p_Idx p + length (concat kwds) \<le> p_Idx q" "\<not> b \<Longrightarrow> q = p"
proof -
  have K: "p_Input q = p_Input p" "p_Cap q = p_Cap p" "p_Err q = p_Err p" "p_Idx q \<le> length (p_Input q)"
    "if b then p_Idx p + length (concat kwds) \<le> p_Idx q else p_Idx q = p_Idx p"
    using pkeyword_loop_advances [of "p_Idx p" p kwds q b] assms by (auto simp: pkeyword_def)
  then show "advances p q" by (cases b) (simp_all add: advances_def)
  show "b \<Longrightarrow> p_Idx p + length (concat kwds) \<le> p_Idx q" using K(5) by simp
  show "\<not> b \<Longrightarrow> q = p" using K by simp
qed

lemma pNum_advances: "in_range p \<Longrightarrow> pNum p nd = (q, nd', b) \<Longrightarrow> advances p q"
  using skipSpace_advances [of p] advances_run [of "skipSpace p" isNum]
  by (auto simp: pNum_def Let_def split: if_splits option.splits intro: advances_trans dest: advances_range)

lemma pStr_advances: "in_range p \<Longrightarrow> pStr p nd = (q, nd', b) \<Longrightarrow> advances p q"
  using skipSpace_advances [of p] advances_run [of "skipSpace p" isStr]
  by (auto simp: pStr_def Let_def split: if_splits intro: advances_trans dest: advances_range)

lemma pSym_advances: "in_range p \<Longrightarrow> pSym p nd = (q, nd', b) \<Longrightarrow> advances p q"
  using skipSpace_advances [of p] length_takeWhile_le [of isSym "rest ((skipSpace p)\<lparr>p_Idx := p_Idx (skipSpace p) + 1\<rparr>)"]
  by (auto simp: pSym_def Let_def advances_def rest_def split: if_splits)

lemma pMustSym_advances: "in_range p \<Longrightarrow> pMustSym p = (q, s) \<Longrightarrow> advances p q"
  using skipSpace_advances [of p] advances_run [of "skipSpace p" isSym]
  by (auto simp: pMustSym_def Let_def split: if_splits intro: advances_trans dest: advances_range)

end
