(* ===== verification/Query_Parser.thy ===== *)
theory Query_Parser
  imports Lexer
begin

text \<open>
  The recursive-descent parser of \<^verbatim>\<open>parser/parser.go\<close>. A parse function takes the parser and returns it
  advanced, with the node it built. The depth of nested parentheses and the number of rounds of each
  loop are bounded by a fuel; a fuel above the number of bytes left is always enough for expressions and
  for the select, insert, update and delete statements (see the section on termination), because each
  round of a loop and each parenthesis consumes a byte. The loops of \<open>pCreateTable\<close> may run forever; then
  no fuel is enough.
\<close>

record QLScan =
  sc_Table :: gostring
  sc_Key1 :: "QLNode option"
  sc_Key2 :: "QLNode option"
  sc_Filter :: "QLNode option"
  sc_Offset :: i64
  sc_Limit :: i64

record QLSelect =
  sel_Scan :: QLScan
  sel_Name :: "gostring list"
  sel_Output :: "QLNode list"

record QLUpdate =
  upd_Scan :: QLScan
  upd_Name :: "gostring list"
  upd_Values :: "QLNode list"

record QLInsert =
  ins_Table :: gostring
  ins_Name :: "gostring list"
  ins_Values :: "QLNode list"
  ins_IsUpsert :: bool

record QLDelete =
  del_Scan :: QLScan

record QLCreateTable =
  crt_Def :: TableDef

text \<open>The result of \<open>PStmt\<close>: a pointer to a statement, which may be nil, in an interface that may be nil.\<close>

datatype QLStmt =
    StmtCreateTable "QLCreateTable option"
  | StmtSelect "QLSelect option"
  | StmtInsert QLInsert
  | StmtUpdate "QLUpdate option"
  | StmtDelete "QLDelete option"
  | StmtNil

type_synonym 'a parse = "(Parser \<times> 'a) option"

text \<open>\<open>if !pkeyword(p, kw) { pErr(p, nil, msg) }\<close>\<close>

definition expect :: "Parser \<Rightarrow> string list \<Rightarrow> string \<Rightarrow> Parser" where
  "expect p kwds msg = (case pkeyword p (map str kwds) of (p, True) \<Rightarrow> p | (p, False) \<Rightarrow> pErr p msg)"

section \<open>Expressions\<close>

fun try_ops :: "Parser \<Rightarrow> (string \<times> u32) list \<Rightarrow> (Parser \<times> u32) option" where
  "try_ops p [] = None"
| "try_ops p ((kw, t) # ops) = (case pkeyword p [str kw] of (p, True) \<Rightarrow> Some (p, t) | (p, False) \<Rightarrow> try_ops p ops)"

fun pExprBinOp_loop :: "nat \<Rightarrow> (string \<times> u32) list \<Rightarrow> (Parser \<Rightarrow> QLNode parse) \<Rightarrow> Parser \<Rightarrow> QLNode \<Rightarrow> QLNode parse" where
  "pExprBinOp_loop 0 ops next p left = None"
| "pExprBinOp_loop (Suc n) ops next p left =
     (case try_ops p ops of
        None \<Rightarrow> Some (p, left)
      | Some (p, t) \<Rightarrow> do {
          (p, right) \<leftarrow> next p;
          pExprBinOp_loop n ops next p (QLNode (valWithType t) [left, right]) })"

definition pExprBinOp :: "nat \<Rightarrow> (string \<times> u32) list \<Rightarrow> (Parser \<Rightarrow> QLNode parse) \<Rightarrow> Parser \<Rightarrow> QLNode parse" where
  "pExprBinOp n ops next p = do { (p, left) \<leftarrow> next p; pExprBinOp_loop n ops next p left }"

definition pExprUnOp :: "(Parser \<Rightarrow> QLNode parse) \<Rightarrow> Parser \<Rightarrow> QLNode parse" where
  "pExprUnOp atom p =
     (case pkeyword p [str ''-''] of
        (p, True) \<Rightarrow> do { (p, kid) \<leftarrow> atom p; Some (p, QLNode (valWithType QL_NEG) [kid]) }
      | (p, False) \<Rightarrow> atom p)"

definition mul_ops :: "(string \<times> u32) list" where
  "mul_ops = [(''*'', QL_MUL), (''/'', QL_DIV), (''%'', QL_MOD)]"

definition add_ops :: "(string \<times> u32) list" where
  "add_ops = [(''+'', QL_ADD), (''-'', QL_SUB)]"

definition cmp_ops :: "(string \<times> u32) list" where
  "cmp_ops = [(''<='', QL_CMP_LE), (''>='', QL_CMP_GE), (''=='', QL_CMP_EQ), (''<'', QL_CMP_LT), (''>'', QL_CMP_GT)]"

definition pExprMul :: "nat \<Rightarrow> (Parser \<Rightarrow> QLNode parse) \<Rightarrow> Parser \<Rightarrow> QLNode parse" where
  "pExprMul n atom = pExprBinOp n mul_ops (pExprUnOp atom)"

definition pExprAdd :: "nat \<Rightarrow> (Parser \<Rightarrow> QLNode parse) \<Rightarrow> Parser \<Rightarrow> QLNode parse" where
  "pExprAdd n atom = pExprBinOp n add_ops (pExprMul n atom)"

definition pExprCmp :: "nat \<Rightarrow> (Parser \<Rightarrow> QLNode parse) \<Rightarrow> Parser \<Rightarrow> QLNode parse" where
  "pExprCmp n atom = pExprBinOp n cmp_ops (pExprAdd n atom)"

definition pExprAnd :: "nat \<Rightarrow> (Parser \<Rightarrow> QLNode parse) \<Rightarrow> Parser \<Rightarrow> QLNode parse" where
  "pExprAnd n atom = pExprBinOp n [(''and'', QL_AND)] (pExprCmp n atom)"

definition pExprOr :: "nat \<Rightarrow> (Parser \<Rightarrow> QLNode parse) \<Rightarrow> Parser \<Rightarrow> QLNode parse" where
  "pExprOr n atom = pExprBinOp n [(''or'', QL_OR)] (pExprAnd n atom)"

fun pExprTuple_loop :: "nat \<Rightarrow> (Parser \<Rightarrow> QLNode parse) \<Rightarrow> Parser \<Rightarrow> QLNode list \<Rightarrow> (QLNode list) parse" where
  "pExprTuple_loop 0 next p kids = None"
| "pExprTuple_loop (Suc n) next p kids =
     (case pkeyword p [str '',''] of
        (p, True) \<Rightarrow> do { (p, kid) \<leftarrow> next p; pExprTuple_loop n next p (kids @ [kid]) }
      | (p, False) \<Rightarrow> Some (p, kids))"

definition pExprTuple :: "nat \<Rightarrow> (Parser \<Rightarrow> QLNode parse) \<Rightarrow> Parser \<Rightarrow> QLNode parse" where
  "pExprTuple n atom p = do {
     (p, kid) \<leftarrow> pExprOr n atom p;
     (p, kids) \<leftarrow> pExprTuple_loop n (pExprOr n atom) p [kid];
     Some (p, if length kids > 1 then QLNode (valWithType QL_TUP) kids else kids ! 0) }"

primrec pExprAtom :: "nat \<Rightarrow> Parser \<Rightarrow> QLNode parse" where
  "pExprAtom 0 = (\<lambda>p. None)"
| "pExprAtom (Suc n) = (\<lambda>p.
     (case pkeyword p [str ''(''] of
        (p, True) \<Rightarrow> do {
          (p, node) \<leftarrow> pExprTuple n (pExprAtom n) p;
          Some (expect p ['')''] ''unclosed paranthesis'', node) }
      | (p, False) \<Rightarrow>
          (case pSym p node_zero of
             (p, node, True) \<Rightarrow> Some (p, node)
           | (p, node, False) \<Rightarrow>
               (case pNum p node of
                  (p, node, True) \<Rightarrow> Some (p, node)
                | (p, node, False) \<Rightarrow>
                    (case pStr p node of
                       (p, node, True) \<Rightarrow> Some (p, node)
                     | (p, node, False) \<Rightarrow> Some (pErr p ''expected symbol, number or string'', node))))))"

abbreviation expr_or :: "nat \<Rightarrow> Parser \<Rightarrow> QLNode parse" where
  "expr_or n \<equiv> pExprOr n (pExprAtom n)"

abbreviation expr_cmp :: "nat \<Rightarrow> Parser \<Rightarrow> QLNode parse" where
  "expr_cmp n \<equiv> pExprCmp n (pExprAtom n)"

abbreviation expr_tuple :: "nat \<Rightarrow> Parser \<Rightarrow> QLNode parse" where
  "expr_tuple n \<equiv> pExprTuple n (pExprAtom n)"

section \<open>The scan clauses\<close>

fun pIndexBy_loop :: "nat \<Rightarrow> Parser \<Rightarrow> QLNode list \<Rightarrow> nat \<Rightarrow> (QLNode list) parse" where
  "pIndexBy_loop 0 p conditions n = None"
| "pIndexBy_loop (Suc m) p conditions n =
     (case pkeyword p [str ''and''] of
        (p, True) \<Rightarrow> do { (p, new) \<leftarrow> expr_cmp n p; pIndexBy_loop m p (conditions @ [new]) n }
      | (p, False) \<Rightarrow> Some (p, conditions))"

definition pIndexBy :: "nat \<Rightarrow> Parser \<Rightarrow> QLScan \<Rightarrow> QLScan parse" where
  "pIndexBy n p node =
     (case pkeyword p [str ''(''] of
        (p, True) \<Rightarrow> do {
          (p, cond) \<leftarrow> expr_tuple n p;
          Some (expect p ['')''] ''tuple is not closed'', node\<lparr>sc_Key1 := Some cond, sc_Key2 := None\<rparr>) }
      | (p, False) \<Rightarrow> do {
          (p, cond) \<leftarrow> expr_cmp n p;
          (p, conditions) \<leftarrow> pIndexBy_loop n p [cond] n;
          let p = (if length conditions > 2 then pErr p ''more than two conditions'' else p);
          if length conditions = 1 then Some (p, node\<lparr>sc_Key1 := Some (conditions ! 0), sc_Key2 := None\<rparr>)
          else Some (p, node\<lparr>sc_Key1 := Some (conditions ! 0), sc_Key2 := Some (conditions ! 1)\<rparr>) })"

definition pOffset :: "Parser \<Rightarrow> QLScan \<Rightarrow> Parser \<times> QLScan" where
  "pOffset p node =
     (case pNum (skipSpace p) node_zero of
        (p, res, ok) \<Rightarrow> (if ok then p else pErr p ''expected number after offset'', node\<lparr>sc_Offset := v_I64 (node_val res)\<rparr>))"

definition pLimit :: "Parser \<Rightarrow> QLScan \<Rightarrow> Parser \<times> QLScan" where
  "pLimit p node =
     (case pNum (skipSpace p) node_zero of
        (p, res, ok) \<Rightarrow> (if ok then p else pErr p ''expected number after limit'', node\<lparr>sc_Limit := v_I64 (node_val res)\<rparr>))"

definition pScan :: "nat \<Rightarrow> Parser \<Rightarrow> QLScan \<Rightarrow> QLScan parse" where
  "pScan n p node = do {
     (p, node) \<leftarrow> (case pkeyword p [str ''index'', str ''by''] of (p, True) \<Rightarrow> pIndexBy n p node | (p, False) \<Rightarrow> Some (p, node));
     (p, node) \<leftarrow> (case pkeyword p [str ''filter''] of
        (p, True) \<Rightarrow> do { (p, f) \<leftarrow> expr_or n p; Some (p, node\<lparr>sc_Filter := Some f\<rparr>) }
      | (p, False) \<Rightarrow> Some (p, node));
     let node = node\<lparr>sc_Offset := 0, sc_Limit := 9223372036854775807\<rparr>;
     let (p, node) = (case pkeyword p [str ''offset''] of (p, True) \<Rightarrow> pOffset p node | (p, False) \<Rightarrow> (p, node));
     let (p, node) = (case pkeyword p [str ''limit''] of (p, True) \<Rightarrow> pLimit p node | (p, False) \<Rightarrow> (p, node));
     Some (p, node) }"

definition scan_zero :: QLScan where
  "scan_zero = \<lparr>sc_Table = [], sc_Key1 = None, sc_Key2 = None, sc_Filter = None, sc_Offset = 0, sc_Limit = 0\<rparr>"

section \<open>Statements\<close>

definition pSelectExpr :: "nat \<Rightarrow> Parser \<Rightarrow> QLSelect \<Rightarrow> QLSelect parse" where
  "pSelectExpr n p node = do {
     (p, expr) \<leftarrow> expr_or n p;
     let (p, name) = (case pkeyword p [str ''as''] of (p, True) \<Rightarrow> pMustSym p | (p, False) \<Rightarrow> (p, []));
     Some (p, node\<lparr>sel_Name := sel_Name node @ [name], sel_Output := sel_Output node @ [expr]\<rparr>) }"

fun pSelectExprList_loop :: "nat \<Rightarrow> nat \<Rightarrow> Parser \<Rightarrow> QLSelect \<Rightarrow> QLSelect parse" where
  "pSelectExprList_loop 0 n p stmt = None"
| "pSelectExprList_loop (Suc m) n p stmt =
     (case pkeyword p [str '',''] of
        (p, True) \<Rightarrow> do { (p, stmt) \<leftarrow> pSelectExpr n p stmt; pSelectExprList_loop m n p stmt }
      | (p, False) \<Rightarrow> Some (p, stmt))"

definition pSelectExprList :: "nat \<Rightarrow> Parser \<Rightarrow> QLSelect \<Rightarrow> QLSelect parse" where
  "pSelectExprList n p stmt = do { (p, stmt) \<leftarrow> pSelectExpr n p stmt; pSelectExprList_loop n n p stmt }"

definition pUpdateExpr :: "nat \<Rightarrow> Parser \<Rightarrow> QLUpdate \<Rightarrow> QLUpdate parse" where
  "pUpdateExpr n p stmt =
     (case pSym p node_zero of (p, col, ok) \<Rightarrow> do {
        (p, expr) \<leftarrow> expr_or n (expect p [''=''] ''invalid update query syntax expected '=' '');
        Some (p, stmt\<lparr>upd_Name := upd_Name stmt @ [v_Str (node_val col)], upd_Values := upd_Values stmt @ [expr]\<rparr>) })"

fun pUpdateExprList_loop :: "nat \<Rightarrow> nat \<Rightarrow> Parser \<Rightarrow> QLUpdate \<Rightarrow> QLUpdate parse" where
  "pUpdateExprList_loop 0 n p stmt = None"
| "pUpdateExprList_loop (Suc m) n p stmt =
     (case pkeyword p [str '',''] of
        (p, True) \<Rightarrow> do { (p, stmt) \<leftarrow> pUpdateExpr n p stmt; pUpdateExprList_loop m n p stmt }
      | (p, False) \<Rightarrow> Some (p, stmt))"

definition pUpdateExprList :: "nat \<Rightarrow> Parser \<Rightarrow> QLUpdate \<Rightarrow> QLUpdate parse" where
  "pUpdateExprList n p stmt = do { (p, stmt) \<leftarrow> pUpdateExpr n p stmt; pUpdateExprList_loop n n p stmt }"

definition pSelect :: "nat \<Rightarrow> Parser \<Rightarrow> (QLSelect option) parse" where
  "pSelect n p = do {
     let stmt = \<lparr>sel_Scan = scan_zero, sel_Name = [], sel_Output = []\<rparr>;
     (p, stmt) \<leftarrow> (case pkeyword p [str ''*''] of
        (p, True) \<Rightarrow> Some (p, stmt\<lparr>sel_Name := [str ''*'']\<rparr>)
      | (p, False) \<Rightarrow> pSelectExprList n p stmt);
     let p = expect p [''from''] ''expected `from` table'';
     let (p, table) = pMustSym p;
     (p, scan) \<leftarrow> pScan n p ((sel_Scan stmt)\<lparr>sc_Table := table\<rparr>);
     if p_Err p \<noteq> None then Some (p, None)
     else Some (expect p ['';''] ''invalid select query syntax'', Some (stmt\<lparr>sel_Scan := scan\<rparr>)) }"

definition pInsert :: "nat \<Rightarrow> Parser \<Rightarrow> QLInsert parse" where
  "pInsert n p = do {
     let (p, table) = pMustSym p;
     (p, colNames) \<leftarrow> expr_tuple n (expect p [''(''] ''invalid insert query syntax'');
     let p = expect p ['')''] ''invalid insert query syntax'';
     let p = expect p [''values''] ''invalid insert query syntax'';
     let p = expect p [''(''] ''invalid insert query syntax'';
     (p, vals) \<leftarrow> expr_tuple n p;
     let p = expect p ['')''] ''invalid insert query syntax'';
     let p = expect p ['';''] ''invalid insert query syntax'';
     Some (p, \<lparr>ins_Table = table, ins_Name = map (\<lambda>name. v_Str (node_val name)) (Kids colNames), ins_Values = Kids vals,
       ins_IsUpsert = False\<rparr>) }"

definition pUpsert :: "nat \<Rightarrow> Parser \<Rightarrow> QLInsert parse" where
  "pUpsert n p = do { (p, stmt) \<leftarrow> pInsert n p; Some (p, stmt\<lparr>ins_IsUpsert := True\<rparr>) }"

definition pUpdate :: "nat \<Rightarrow> Parser \<Rightarrow> (QLUpdate option) parse" where
  "pUpdate n p = do {
     let (p, table) = pMustSym p;
     let p = expect p [''set''] ''invalid update query syntax expected 'set' '';
     (p, stmt) \<leftarrow> pUpdateExprList n p \<lparr>upd_Scan = scan_zero\<lparr>sc_Table := table\<rparr>, upd_Name = [], upd_Values = []\<rparr>;
     (p, scan) \<leftarrow> pScan n p (upd_Scan stmt);
     if p_Err p \<noteq> None then Some (p, None)
     else Some (expect p ['';''] ''invalid update query syntax'', Some (stmt\<lparr>upd_Scan := scan\<rparr>)) }"

definition pDelete :: "nat \<Rightarrow> Parser \<Rightarrow> (QLDelete option) parse" where
  "pDelete n p = do {
     let p = expect p [''from''] ''expected `from` table'';
     let (p, table) = pMustSym p;
     (p, scan) \<leftarrow> pScan n p (scan_zero\<lparr>sc_Table := table\<rparr>);
     if p_Err p \<noteq> None then Some (p, None)
     else Some (expect p ['';''] ''invalid delete query syntax'', Some \<lparr>del_Scan = scan\<rparr>) }"

section \<open>Create table\<close>

fun pCreateTable_cols :: "nat \<Rightarrow> Parser \<Rightarrow> gostring \<Rightarrow> (gostring \<times> gostring) list \<Rightarrow> (gostring \<times> (gostring \<times> gostring) list) parse" where
  "pCreateTable_cols 0 p nexttkn cols = None"
| "pCreateTable_cols (Suc n) p nexttkn cols =
     (if nexttkn \<noteq> str ''index'' \<and> nexttkn \<noteq> str ''primary'' then
        case pStr p node_zero of (p, nameNode, _) \<Rightarrow>
        case pStr p node_zero of (p, typeNode, _) \<Rightarrow> do {
          let cols = cols @ [(v_Str (node_val nameNode), v_Str (node_val typeNode))];
          (p, nexttkn) \<leftarrow> peekNextToken (expect p ['',''] ''invalid create table syntax'');
          pCreateTable_cols n p nexttkn cols }
      else Some (p, nexttkn, cols))"

definition tuple_names :: "QLNode \<Rightarrow> gostring list" where
  "tuple_names idx = (if Kids idx = [] then [v_Str (node_val idx)] else map (\<lambda>kid. v_Str (node_val kid)) (Kids idx))"

fun pCreateTable_indexes :: "nat \<Rightarrow> nat \<Rightarrow> Parser \<Rightarrow> gostring \<Rightarrow> gostring list list \<Rightarrow> (gostring list list) parse" where
  "pCreateTable_indexes 0 n p nexttkn indexes = None"
| "pCreateTable_indexes (Suc m) n p nexttkn indexes =
     (if nexttkn \<noteq> str ''primary'' then do {
        let p = fst (pkeyword p [str ''index'']);
        (p, idx) \<leftarrow> expr_tuple n (expect p [''(''] ''invalid create table syntax (declaring index)'');
        let p = expect p ['')''] ''invalid create table syntax (declaring index)'';
        let p = expect p ['',''] ''invalid create table syntax (declaring index)'';
        (p, nexttkn) \<leftarrow> peekNextToken p;
        pCreateTable_indexes m n p nexttkn (indexes @ [tuple_names idx]) }
      else Some (p, indexes))"

text \<open>The last loop gives the columns their types; an unknown type is an error and leaves the zero type.\<close>

fun pCreateTable_types :: "Parser \<Rightarrow> (gostring \<times> gostring) list \<Rightarrow> Parser \<times> u32 list" where
  "pCreateTable_types p [] = (p, [])"
| "pCreateTable_types p ((name, ty) # cols) =
     (let (p, colType) =
        (if ty = str ''int'' then (p, TYPE_INT64)
         else if ty = str ''bytes'' \<or> ty = str ''string'' then (p, TYPE_BYTES)
         else (pErr p ''invalid type'', 0));
        (p, types) = pCreateTable_types p cols
      in (p, colType # types))"

definition pCreateTable :: "nat \<Rightarrow> Parser \<Rightarrow> (QLCreateTable option) parse" where
  "pCreateTable n p =
     (case pStr p node_zero of (p, nd, _) \<Rightarrow>
      case pkeyword p [str ''(''] of
        (p, False) \<Rightarrow> Some (pErr p ''invalid create table syntax'', None)
      | (p, True) \<Rightarrow> do {
          (p, nexttkn) \<leftarrow> peekNextToken p;
          (p, nexttkn, cols) \<leftarrow> pCreateTable_cols n p nexttkn [];
          (p, indexes) \<leftarrow> pCreateTable_indexes n n p nexttkn [];
          let p = expect p [''primary'', ''key''] ''invalid syntax, primary keys declaration'';
          (p, idx) \<leftarrow> expr_tuple n (expect p [''(''] ''no primary key'');
          let p = expect p ['')''] ''invalid create table syntax'';
          let p = expect p ['')''] ''invalid create table syntax'';
          let p = expect p ['';''] ''invalid create table syntax'';
          let pks = tuple_names idx;
          let (p, types) = pCreateTable_types p cols;
          Some (p, Some \<lparr>crt_Def = \<lparr>td_Name = v_Str (node_val nd), td_Cols = map fst cols, td_Types = types, td_Pkeys = length pks,
            td_Prefixes = [], td_Indexes = pks # indexes\<rparr>\<rparr>) })"

definition PStmt :: "nat \<Rightarrow> Parser \<Rightarrow> QLStmt parse" where
  "PStmt n p =
     (case pkeyword p [str ''create'', str ''table''] of (p, True) \<Rightarrow> map_option (map_prod id StmtCreateTable) (pCreateTable n p)
      | (p, False) \<Rightarrow> case pkeyword p [str ''select''] of (p, True) \<Rightarrow> map_option (map_prod id StmtSelect) (pSelect n p)
      | (p, False) \<Rightarrow> case pkeyword p [str ''insert'', str ''into''] of (p, True) \<Rightarrow> map_option (map_prod id StmtInsert) (pInsert n p)
      | (p, False) \<Rightarrow> case pkeyword p [str ''upsert'', str ''into''] of (p, True) \<Rightarrow> map_option (map_prod id StmtInsert) (pUpsert n p)
      | (p, False) \<Rightarrow> case pkeyword p [str ''update''] of (p, True) \<Rightarrow> map_option (map_prod id StmtUpdate) (pUpdate n p)
      | (p, False) \<Rightarrow> case pkeyword p [str ''delete''] of (p, True) \<Rightarrow> map_option (map_prod id StmtDelete) (pDelete n p)
      | (p, False) \<Rightarrow> Some (p, StmtNil))"

end
