(* ===== verification/Eval.thy ===== *)
theory Eval
  imports Query_Parser
begin

text \<open>
  The expression evaluator of \<^verbatim>\<open>engine/executor.go\<close>. The evaluation context is the environment, which does not
  change, and the pair of the value and the error so far. An error is the list of what went wrong: the
  messages of the source also print nodes and values, which the model keeps as data. \<open>None\<close> is a run-time
  panic: a missing operand, a division by zero, a record whose columns and values disagree.
\<close>

datatype eval_error =
    UnknownColumn bytes
  | NegTypeError
  | InvalidKids Value "Value option"
  | InvalidNodeType u32
  | EvaluatingNode QLNode "eval_error list"
  | DifferentTypes u32 u32
  | InvalidOutputType u32
  | InvalidType u32
  | NotBoolean
  | FilterFalse

record QLEvalContext =
  ctx_out :: Value
  ctx_err :: "eval_error list"

definition ctx_zero :: QLEvalContext where
  "ctx_zero = \<lparr>ctx_out = valWithType 0, ctx_err = []\<rparr>"

definition qlErr :: "QLEvalContext \<Rightarrow> eval_error \<Rightarrow> QLEvalContext" where
  "qlErr ctx e = ctx\<lparr>ctx_err := ctx_err ctx @ [e]\<rparr>"

type_synonym evaluator = "QLEvalContext \<Rightarrow> QLNode \<Rightarrow> QLEvalContext option"

text \<open>The two operands, or nothing after an error has been recorded. The error of the right operand is
  reported with the (nil) error of the left one.\<close>

definition evalLeftRightKids :: "evaluator \<Rightarrow> QLEvalContext \<Rightarrow> QLNode list \<Rightarrow> (QLEvalContext \<times> (Value \<times> Value option) option) option" where
  "evalLeftRightKids ev ctx kids =
     (case kids of
        [] \<Rightarrow> None
      | kid0 # kids' \<Rightarrow> do {
          ctxLeft \<leftarrow> ev ctx_zero kid0;
          if ctx_err ctxLeft \<noteq> [] then Some (qlErr ctx (EvaluatingNode kid0 (ctx_err ctxLeft)), None)
          else case kids' of
            [] \<Rightarrow> Some (ctx, Some (ctx_out ctxLeft, None))
          | kid1 # _ \<Rightarrow> do {
              ctxRight \<leftarrow> ev ctx_zero kid1;
              if ctx_err ctxRight \<noteq> [] then Some (qlErr ctx (EvaluatingNode kid1 (ctx_err ctxLeft)), None)
              else if v_Type (ctx_out ctxLeft) \<noteq> v_Type (ctx_out ctxRight)
              then Some (qlErr ctx (DifferentTypes (v_Type (ctx_out ctxLeft)) (v_Type (ctx_out ctxRight))), None)
              else Some (ctx, Some (ctx_out ctxLeft, Some (ctx_out ctxRight))) } })"

text \<open>Division of Go's \<open>int64\<close>: truncated, a run-time panic on zero, wrapping for the least number by -1.\<close>

definition go_div :: "i64 \<Rightarrow> i64 \<Rightarrow> i64 option" where
  "go_div a b = (if b = 0 then None
     else Some (word_of_int (sgn (sint a) * sgn (sint b) * (\<bar>sint a\<bar> div \<bar>sint b\<bar>))))"

definition go_mod :: "i64 \<Rightarrow> i64 \<Rightarrow> i64 option" where
  "go_mod a b = (if b = 0 then None else Some (word_of_int (sgn (sint a) * (\<bar>sint a\<bar> mod \<bar>sint b\<bar>))))"

definition qlNumeric :: "evaluator \<Rightarrow> QLEvalContext \<Rightarrow> QLNode list \<Rightarrow> u32 \<Rightarrow> QLEvalContext option" where
  "qlNumeric ev ctx kids ntype = do {
     (ctx, ops) \<leftarrow> evalLeftRightKids ev ctx kids;
     case ops of
       None \<Rightarrow> Some ctx
     | Some (left, right) \<Rightarrow>
         let right = (case right of None \<Rightarrow> valWithType 0 | Some r \<Rightarrow> r) in
         if v_Type left \<noteq> QL_I64 then Some (qlErr ctx (InvalidKids left (Some right)))
         else
           let a = v_I64 left; b = v_I64 right in
           if ntype = QL_ADD then Some (ctx\<lparr>ctx_out := IntValue (a + b)\<rparr>)
           else if ntype = QL_SUB then Some (ctx\<lparr>ctx_out := IntValue (a - b)\<rparr>)
           else if ntype = QL_MUL then Some (ctx\<lparr>ctx_out := IntValue (a * b)\<rparr>)
           else if ntype = QL_DIV then do { q \<leftarrow> go_div a b; Some (ctx\<lparr>ctx_out := IntValue q\<rparr>) }
           else if ntype = QL_MOD then do { r \<leftarrow> go_mod a b; Some (ctx\<lparr>ctx_out := IntValue r\<rparr>) }
           else if ntype = QL_NEG then Some (ctx\<lparr>ctx_out := IntValue (- a)\<rparr>)
           else Some (qlErr ctx (InvalidNodeType ntype)) }"

definition BoolValue :: "bool \<Rightarrow> Value" where
  "BoolValue b = \<lparr>v_Type = QL_BOOL, v_I64 = (if b then 1 else 0), v_Str = []\<rparr>"

definition qlOrAnd :: "evaluator \<Rightarrow> QLEvalContext \<Rightarrow> QLNode list \<Rightarrow> u32 \<Rightarrow> QLEvalContext option" where
  "qlOrAnd ev ctx kids cmp = do {
     (ctx, ops) \<leftarrow> evalLeftRightKids ev ctx kids;
     case ops of
       None \<Rightarrow> Some ctx
     | Some (left, right) \<Rightarrow>
         if v_Type left \<noteq> QL_BOOL then Some (qlErr ctx (InvalidKids left right))
         else do {
           right \<leftarrow> right;
           let a = (v_I64 left = 1);
           let b = (v_I64 right = 1);
           Some (ctx\<lparr>ctx_out := BoolValue (if cmp = QL_OR then a \<or> b else if cmp = QL_AND then a \<and> b else False)\<rparr>) } }"

definition qlCmp :: "evaluator \<Rightarrow> QLEvalContext \<Rightarrow> QLNode list \<Rightarrow> u32 \<Rightarrow> QLEvalContext option" where
  "qlCmp ev ctx kids cmp = do {
     (ctx, ops) \<leftarrow> evalLeftRightKids ev ctx kids;
     case ops of
       None \<Rightarrow> Some ctx
     | Some (left, right) \<Rightarrow>
         if v_Type left \<noteq> QL_I64 \<and> v_Type left \<noteq> QL_STR then Some (qlErr ctx (InvalidKids left right))
         else do {
           right \<leftarrow> right;
           if v_Type left = QL_I64 then
             let a = sint (v_I64 left); b = sint (v_I64 right) in
             Some (ctx\<lparr>ctx_out := BoolValue
               (if cmp = QL_CMP_EQ then a = b
                else if cmp = QL_CMP_GE then a = b \<or> a > b
                else if cmp = QL_CMP_LE then a = b \<or> a < b
                else if cmp = QL_CMP_GT then a > b
                else if cmp = QL_CMP_LT then a < b else False)\<rparr>)
           else
             let c = bytes_Compare (v_Str left) (v_Str right) in
             Some (ctx\<lparr>ctx_out := BoolValue
               (if cmp = QL_CMP_EQ then c = 0
                else if cmp = QL_CMP_GE then c = 0 \<or> c = 1
                else if cmp = QL_CMP_LE then c = 0 \<or> c = - 1
                else if cmp = QL_CMP_GT then c = 1
                else if cmp = QL_CMP_LT then c = - 1 else False)\<rparr>) } }"

lemma evalLeftRightKids_cong [fundef_cong]:
  "ctx = ctx' \<Longrightarrow> kids = kids' \<Longrightarrow> (\<And>c k. k \<in> set kids' \<Longrightarrow> ev c k = ev' c k) \<Longrightarrow>
   evalLeftRightKids ev ctx kids = evalLeftRightKids ev' ctx' kids'"
  by (auto simp: evalLeftRightKids_def split: list.split intro!: Option.bind_cong)

lemma ql_cong [fundef_cong]:
  assumes "ctx = ctx'" "kids = kids'" "cmp = cmp'" "\<And>c k. k \<in> set kids' \<Longrightarrow> ev c k = ev' c k"
  shows "qlNumeric ev ctx kids cmp = qlNumeric ev' ctx' kids' cmp'" "qlOrAnd ev ctx kids cmp = qlOrAnd ev' ctx' kids' cmp'"
    "qlCmp ev ctx kids cmp = qlCmp ev' ctx' kids' cmp'"
  using evalLeftRightKids_cong [OF assms(1,2,4)] assms(3) by (simp_all add: qlNumeric_def qlOrAnd_def qlCmp_def)

fun qlEval :: "Record \<Rightarrow> QLEvalContext \<Rightarrow> QLNode \<Rightarrow> QLEvalContext option" where
  "qlEval env ctx (QLNode val kids) =
     (let t = v_Type val in
      if t = QL_STR \<or> t = QL_I64 then Some (ctx\<lparr>ctx_out := val\<rparr>)
      else if t = QL_SYM then do {
        v \<leftarrow> Record_Get env (v_Str val);
        Some (case v of Some i \<Rightarrow> ctx\<lparr>ctx_out := r_Vals env ! i\<rparr> | None \<Rightarrow> qlErr ctx (UnknownColumn (v_Str val))) }
      else if t = QL_CMP_GE \<or> t = QL_CMP_LE \<or> t = QL_CMP_LT \<or> t = QL_CMP_GT \<or> t = QL_CMP_EQ then
        qlCmp (\<lambda>c k. qlEval env c k) ctx kids t
      else if t = QL_OR \<or> t = QL_AND then qlOrAnd (\<lambda>c k. qlEval env c k) ctx kids t
      else if t = QL_ADD \<or> t = QL_SUB \<or> t = QL_MUL \<or> t = QL_DIV \<or> t = QL_MOD then
        qlNumeric (\<lambda>c k. qlEval env c k) ctx kids t
      else if t = QL_NEG then
        (case kids of
           [] \<Rightarrow> None
         | kid # _ \<Rightarrow> do {
             ctx \<leftarrow> qlEval env ctx kid;
             Some (if v_Type (ctx_out ctx) = QL_I64 then ctx\<lparr>ctx_out := (ctx_out ctx)\<lparr>v_I64 := - v_I64 (ctx_out ctx)\<rparr>\<rparr>
                   else qlErr ctx NegTypeError) })
      else Some ctx)"

section \<open>Records\<close>

fun QLEvalOutput_loop :: "Record \<Rightarrow> gostring list \<Rightarrow> nat \<Rightarrow> Record \<Rightarrow> QLNode list \<Rightarrow> (eval_error list + Record) option" where
  "QLEvalOutput_loop rec names i out [] = Some (Inr out)"
| "QLEvalOutput_loop rec names i out (expr # exprs) = do {
     ctx \<leftarrow> qlEval rec ctx_zero expr;
     if ctx_err ctx \<noteq> [] then Some (Inl (ctx_err ctx))
     else
       let t = v_Type (ctx_out ctx) in
       if t = QL_BOOL \<or> t = QL_I64 then
         (if i < length names then QLEvalOutput_loop rec names (i + 1) (AddI64 out (names ! i) (v_I64 (ctx_out ctx))) exprs else None)
       else if t = QL_STR then
         (if i < length names then QLEvalOutput_loop rec names (i + 1) (AddStr out (names ! i) (v_Str (ctx_out ctx))) exprs else None)
       else Some (Inl [InvalidOutputType t]) }"

definition QLEvalOutput :: "Record \<Rightarrow> QLNode list \<Rightarrow> gostring list \<Rightarrow> (eval_error list + Record) option" where
  "QLEvalOutput rec exprs names =
     (if names \<noteq> [] \<and> names ! 0 = str ''*'' then Some (Inr rec)
      else QLEvalOutput_loop rec names 0 EmptyRecord exprs)"

definition QLEvalRecordBool :: "Record \<Rightarrow> QLNode \<Rightarrow> (eval_error list) option" where
  "QLEvalRecordBool rec expr = do {
     ctx \<leftarrow> qlEval rec ctx_zero expr;
     if v_Type (ctx_out ctx) \<noteq> QL_BOOL then Some [NotBoolean]
     else if v_I64 (ctx_out ctx) = 0 then Some [FilterFalse] else Some [] }"

fun populateRecord_loop :: "Record \<Rightarrow> gostring list \<Rightarrow> nat \<Rightarrow> QLNode list \<Rightarrow> (Record \<times> eval_error list) option" where
  "populateRecord_loop rec names i [] = Some (rec, [])"
| "populateRecord_loop rec names i (val # vals) =
     (let t = v_Type (node_val val) in
      if t = QL_STR then
        (if i < length names then populateRecord_loop (AddStr rec (names ! i) (v_Str (node_val val))) names (i + 1) vals else None)
      else if t = QL_I64 then
        (if i < length names then populateRecord_loop (AddI64 rec (names ! i) (v_I64 (node_val val))) names (i + 1) vals else None)
      else Some (rec, [InvalidType t]))"

definition populateRecord :: "Record \<Rightarrow> QLNode list \<Rightarrow> gostring list \<Rightarrow> (Record \<times> eval_error list) option" where
  "populateRecord rec vals names = populateRecord_loop rec names 0 vals"

end
