(* ===== verification/Parser_Total.thy ===== *)
theory Parser_Total
  imports Query_Parser
begin

text \<open>
  The parser of queries always returns: a fuel above the number of bytes left is enough for every
  expression and for every statement but create table, whose first loop never ends once the input does.
\<close>

definition left_bytes :: "Parser \<Rightarrow> nat" where
  "left_bytes p = length (p_Input p) - p_Idx p"

definition total_parse :: "nat \<Rightarrow> (Parser \<Rightarrow> 'a parse) \<Rightarrow> bool" where
  "total_parse n f \<longleftrightarrow> (\<forall>p. in_range p \<longrightarrow> left_bytes p < n \<longrightarrow> (\<exists>q x. f p = Some (q, x) \<and> advances p q))"

lemma total_parseD: "total_parse n f \<Longrightarrow> in_range p \<Longrightarrow> left_bytes p < n \<Longrightarrow> \<exists>q x. f p = Some (q, x) \<and> advances p q"
  by (simp add: total_parse_def)

lemma advances_left: "advances p q \<Longrightarrow> left_bytes q \<le> left_bytes p"
  by (auto simp: advances_def left_bytes_def intro: diff_le_mono2)

lemma advances_refl: "in_range p \<Longrightarrow> advances p p"
  by (simp add: advances_def)

lemma pkeyword_yes:
  assumes "in_range p" "pkeyword p kwds = (q, True)" "concat kwds \<noteq> []"
  shows "advances p q \<and> left_bytes q < left_bytes p"
proof -
  have "0 < length (concat kwds)" using assms(3) by (rule length_greater_0_conv [THEN iffD2])
  then have "p_Idx p < p_Idx q" using pkeyword_advances(2) [OF assms(1,2) TrueI] by linarith
  then show ?thesis using pkeyword_advances(1) [OF assms(1,2)] by (auto simp: advances_def left_bytes_def)
qed

lemma pkeyword_no: "in_range p \<Longrightarrow> pkeyword p kwds = (q, False) \<Longrightarrow> q = p"
  using pkeyword_advances(3) by blast

lemma str_Nil [simp]: "str s = [] \<longleftrightarrow> s = []"
  by (simp add: str_def)

lemma expect_advances: "in_range p \<Longrightarrow> advances p (expect p kwds msg)"
  using pkeyword_advances(1) [of p "map str kwds"] pErr_advances [of "fst (pkeyword p (map str kwds))" msg]
  by (cases "pkeyword p (map str kwds)") (auto simp: expect_def split: bool.split intro: advances_trans dest: advances_range)

section \<open>Expressions\<close>

lemma try_ops_yes:
  "in_range p \<Longrightarrow> \<forall>(kw, t) \<in> set ops. kw \<noteq> [] \<Longrightarrow> try_ops p ops = Some (q, t) \<Longrightarrow> advances p q \<and> left_bytes q < left_bytes p"
proof (induction ops)
  case (Cons op ops)
  obtain kw t' where op: "op = (kw, t')" by (cases op)
  obtain p' b where k: "pkeyword p [str kw] = (p', b)" by fastforce
  show ?case
  proof (cases b)
    case True
    then show ?thesis using Cons.prems k op pkeyword_yes [of p "[str kw]" p'] by auto
  next
    case False
    then have "p' = p" using pkeyword_no Cons.prems(1) k by simp
    then show ?thesis using Cons k op False by auto
  qed
qed simp

lemma BinOp_loop_total:
  assumes "total_parse n next" "\<forall>(kw, t) \<in> set ops. kw \<noteq> []"
  shows "in_range p \<Longrightarrow> left_bytes p < n \<Longrightarrow> left_bytes p < m \<Longrightarrow> \<exists>q x. pExprBinOp_loop m ops next p e = Some (q, x) \<and> advances p q"
proof (induction m arbitrary: p e)
  case (Suc m)
  show ?case
  proof (cases "try_ops p ops")
    case None
    then show ?thesis using Suc.prems advances_refl by auto
  next
    case (Some a)
    obtain p1 t where a: "a = (p1, t)" by (cases a)
    have 1: "advances p p1" "left_bytes p1 < left_bytes p" using try_ops_yes [OF Suc.prems(1) assms(2)] Some a by auto
    obtain p2 x where 2: "next p1 = Some (p2, x)" "advances p1 p2"
      using total_parseD [OF assms(1), of p1] 1 Suc.prems(2) advances_range by fastforce
    have "left_bytes p2 < n" "left_bytes p2 < m" using advances_left [OF 2(2)] 1(2) Suc.prems(2,3) by simp_all
    from Suc.IH [OF advances_range [OF 2(2)] this, of "QLNode (valWithType t) [e, x]"] show ?thesis
      using Some a 2 1(1) by auto (blast intro: advances_trans)
  qed
qed simp

lemma BinOp_total:
  assumes "total_parse n next" "\<forall>(kw, t) \<in> set ops. kw \<noteq> []" "n \<le> m"
  shows "total_parse n (pExprBinOp m ops next)"
  unfolding total_parse_def
proof (intro allI impI)
  fix p
  assume p: "in_range p" "left_bytes p < n"
  obtain p1 x where 1: "next p = Some (p1, x)" "advances p p1" using total_parseD [OF assms(1) p] by blast
  have "left_bytes p1 < n" using advances_left [OF 1(2)] p(2) by simp
  from BinOp_loop_total [OF assms(1,2) advances_range [OF 1(2)] this, of m x] this assms(3)
  obtain q y where "pExprBinOp_loop m ops next p1 x = Some (q, y)" "advances p1 q" by auto
  then show "\<exists>q x. pExprBinOp m ops next p = Some (q, x) \<and> advances p q"
    using 1 by (auto simp: pExprBinOp_def intro: advances_trans)
qed

lemma UnOp_total:
  assumes "total_parse n atom"
  shows "total_parse n (pExprUnOp atom)"
  unfolding total_parse_def
proof (intro allI impI)
  fix p
  assume p: "in_range p" "left_bytes p < n"
  obtain p1 b where k: "pkeyword p [str ''-''] = (p1, b)" by fastforce
  have 1: "advances p p1" using pkeyword_advances(1) [OF p(1) k] .
  then have "left_bytes p1 < n" using advances_left p(2) by fastforce
  from total_parseD [OF assms advances_range [OF 1] this] obtain q x where "atom p1 = Some (q, x)" "advances p1 q" by blast
  then show "\<exists>q x. pExprUnOp atom p = Some (q, x) \<and> advances p q"
    using k 1 by (cases b) (auto simp: pExprUnOp_def intro: advances_trans)
qed

lemma ops_nonempty: "\<forall>(kw, t) \<in> set mul_ops. kw \<noteq> []" "\<forall>(kw, t) \<in> set add_ops. kw \<noteq> []" "\<forall>(kw, t) \<in> set cmp_ops. kw \<noteq> []"
  by (simp_all add: mul_ops_def add_ops_def cmp_ops_def)

lemma Cmp_total: "total_parse n atom \<Longrightarrow> n \<le> m \<Longrightarrow> total_parse n (pExprCmp m atom)"
  unfolding pExprCmp_def [abs_def] pExprAdd_def [abs_def] pExprMul_def [abs_def]
  by (intro BinOp_total UnOp_total ops_nonempty)

lemma Or_total: "total_parse n atom \<Longrightarrow> n \<le> m \<Longrightarrow> total_parse n (pExprOr m atom)"
  unfolding pExprOr_def [abs_def] pExprAnd_def [abs_def]
  by (intro BinOp_total Cmp_total) auto

lemma Tuple_loop_total:
  assumes "total_parse n next"
  shows "in_range p \<Longrightarrow> left_bytes p < n \<Longrightarrow> left_bytes p < m \<Longrightarrow> \<exists>q x. pExprTuple_loop m next p kids = Some (q, x) \<and> advances p q"
proof (induction m arbitrary: p kids)
  case (Suc m)
  obtain p1 b where k: "pkeyword p [str '',''] = (p1, b)" by fastforce
  show ?case
  proof (cases b)
    case True
    then have 1: "advances p p1" "left_bytes p1 < left_bytes p" using pkeyword_yes [of p "[str '','']" p1] Suc.prems(1) k by auto
    obtain p2 x where 2: "next p1 = Some (p2, x)" "advances p1 p2"
      using total_parseD [OF assms, of p1] 1 Suc.prems(2) advances_range by fastforce
    have "left_bytes p2 < n" "left_bytes p2 < m" using advances_left [OF 2(2)] 1(2) Suc.prems(2,3) by simp_all
    from Suc.IH [OF advances_range [OF 2(2)] this, of "kids @ [x]"] show ?thesis
      using k True 2 1(1) by auto (blast intro: advances_trans)
  next
    case False
    then show ?thesis using k pkeyword_no [OF Suc.prems(1)] advances_refl [OF Suc.prems(1)] by auto
  qed
qed simp

lemma Tuple_total:
  assumes "total_parse n atom" "n \<le> m"
  shows "total_parse n (pExprTuple m atom)"
  unfolding total_parse_def
proof (intro allI impI)
  fix p
  assume p: "in_range p" "left_bytes p < n"
  note ot = Or_total [OF assms]
  obtain p1 x where 1: "pExprOr m atom p = Some (p1, x)" "advances p p1" using total_parseD [OF ot p] by blast
  have l: "left_bytes p1 < n" "left_bytes p1 < m" using advances_left [OF 1(2)] p(2) assms(2) by simp_all
  from Tuple_loop_total [OF ot advances_range [OF 1(2)] l, of "[x]"] 1
  show "\<exists>q x. pExprTuple m atom p = Some (q, x) \<and> advances p q"
    by (auto simp: pExprTuple_def intro: advances_trans)
qed

lemma Atom_total: "total_parse n (pExprAtom n)"
proof (induction n)
  case 0
  then show ?case by (simp add: total_parse_def)
next
  case (Suc n)
  show ?case
    unfolding total_parse_def
  proof (intro allI impI)
    fix p
    assume p: "in_range p" "left_bytes p < Suc n"
    obtain p1 b where k: "pkeyword p [str ''(''] = (p1, b)" by fastforce
    show "\<exists>q x. pExprAtom (Suc n) p = Some (q, x) \<and> advances p q"
    proof (cases b)
      case True
      then have 1: "advances p p1" "left_bytes p1 < left_bytes p" using pkeyword_yes [of p "[str ''('']" p1] p(1) k by auto
      then obtain p2 x where 2: "pExprTuple n (pExprAtom n) p1 = Some (p2, x)" "advances p1 p2"
        using total_parseD [OF Tuple_total [OF Suc.IH order_refl], of p1] p(2) advances_range by fastforce
      have "advances p (expect p2 ['')''] ''unclosed paranthesis'')"
        using 1(1) 2(2) expect_advances advances_range by (blast intro: advances_trans)
      then show ?thesis using k True 2(1) by simp
    next
      case False
      then have p1: "p1 = p" using pkeyword_no k p(1) by simp
      obtain p2 n2 b2 where s: "pSym p node_zero = (p2, n2, b2)" by (metis prod_cases3)
      obtain p3 n3 b3 where nm: "pNum p2 n2 = (p3, n3, b3)" by (metis prod_cases3)
      obtain p4 n4 b4 where st: "pStr p3 n3 = (p4, n4, b4)" by (metis prod_cases3)
      have 2: "advances p p2" using pSym_advances [OF p(1) s] .
      then have 3: "advances p p3" using pNum_advances [OF _ nm] advances_range by (blast intro: advances_trans)
      then have 4: "advances p p4" using pStr_advances [OF _ st] advances_range by (blast intro: advances_trans)
      then have 5: "advances p (pErr p4 ''expected symbol, number or string'')"
        using pErr_advances advances_range by (blast intro: advances_trans)
      show ?thesis using k False p1 s nm st 2 3 4 5 by (cases b2; cases b3; cases b4) simp_all
    qed
  qed
qed

lemma expr_total: "total_parse n (expr_or n)" "total_parse n (expr_cmp n)" "total_parse n (expr_tuple n)"
  using Or_total Cmp_total Tuple_total Atom_total by blast+

section \<open>Statements\<close>

text \<open>Chaining: a step that advances keeps the parser in range and within the fuel.\<close>

lemma step_total:
  assumes "total_parse n f" "advances p0 p" "left_bytes p0 < n"
  shows "\<exists>q x. f p = Some (q, x) \<and> advances p0 q"
proof -
  have "left_bytes p < n" using advances_left [OF assms(2)] assms(3) by simp
  from total_parseD [OF assms(1) advances_range [OF assms(2)] this] show ?thesis
    using assms(2) by (blast intro: advances_trans)
qed

lemma step_expect: "advances p0 p \<Longrightarrow> advances p0 (expect p kwds msg)"
  by (blast intro: advances_trans expect_advances advances_range)

lemma step_keyword: "advances p0 p \<Longrightarrow> pkeyword p kwds = (q, b) \<Longrightarrow> advances p0 q"
  by (blast intro: advances_trans pkeyword_advances(1) advances_range)

lemma step_err: "advances p0 p \<Longrightarrow> advances p0 (pErr p msg)"
  by (blast intro: advances_trans pErr_advances advances_range)

lemma step_sym: "advances p0 p \<Longrightarrow> pMustSym p = (q, s) \<Longrightarrow> advances p0 q"
  by (blast intro: advances_trans pMustSym_advances advances_range)

lemma total_parseI:
  assumes "\<And>p. in_range p \<Longrightarrow> left_bytes p < n \<Longrightarrow> advances p p \<Longrightarrow> \<exists>q x. f p = Some (q, x) \<and> advances p q"
  shows "total_parse n f"
  using assms advances_refl by (auto simp: total_parse_def)

text \<open>A loop that starts each round with a keyword.\<close>

lemma keyword_loop_total:
  assumes step: "\<And>x. total_parse n (\<lambda>p. f p x)" and kw: "kw \<noteq> []"
    and loop: "\<And>m p x. loop (Suc m) p x = (case pkeyword p [str kw] of
        (p, True) \<Rightarrow> do { (p, x) \<leftarrow> f p x; loop m p x } | (p, False) \<Rightarrow> Some (p, x))"
  shows "in_range p \<Longrightarrow> left_bytes p < n \<Longrightarrow> left_bytes p < m \<Longrightarrow> \<exists>q y. loop m p x = Some (q, y) \<and> advances p q"
proof (induction m arbitrary: p x)
  case (Suc m)
  obtain p1 b where k: "pkeyword p [str kw] = (p1, b)" by fastforce
  show ?case
  proof (cases b)
    case True
    then have 1: "advances p p1" "left_bytes p1 < left_bytes p" using pkeyword_yes [of p "[str kw]" p1] Suc.prems(1) k kw by auto
    obtain p2 y where 2: "f p1 x = Some (p2, y)" "advances p1 p2"
      using total_parseD [OF step, of p1] 1 Suc.prems(2) advances_range by fastforce
    have "left_bytes p2 < n" "left_bytes p2 < m" using advances_left [OF 2(2)] 1(2) Suc.prems(2,3) by simp_all
    from Suc.IH [OF advances_range [OF 2(2)] this, of y] obtain q z where "loop m p2 y = Some (q, z)" "advances p2 q" by blast
    then show ?thesis using k True 2 1(1) by (auto simp: loop) (blast intro: advances_trans)
  next
    case False
    then show ?thesis using k pkeyword_no [OF Suc.prems(1)] advances_refl [OF Suc.prems(1)] by (auto simp: loop)
  qed
qed simp

definition index_step :: "nat \<Rightarrow> Parser \<Rightarrow> QLNode list \<Rightarrow> (QLNode list) parse" where
  "index_step n p conds = do { (p, new) \<leftarrow> expr_cmp n p; Some (p, conds @ [new]) }"

lemma index_step_total: "total_parse n (\<lambda>p. index_step n p conds)"
proof (rule total_parseI)
  fix p
  assume p: "in_range p" "left_bytes p < n" "advances p p"
  from step_total [OF expr_total(2) p(3,2)] show "\<exists>q x. index_step n p conds = Some (q, x) \<and> advances p q"
    by (auto simp: index_step_def)
qed

lemma IndexBy_loop_total:
  "in_range p \<Longrightarrow> left_bytes p < n \<Longrightarrow> \<exists>q y. pIndexBy_loop n p conds n = Some (q, y) \<and> advances p q"
  by (rule keyword_loop_total [where loop = "\<lambda>m p x. pIndexBy_loop m p x n" and f = "index_step n" and kw = "''and''", OF index_step_total])
    (simp_all add: index_step_def split_def split: prod.split bool.split)

lemma IndexBy_total: "total_parse n (\<lambda>p. pIndexBy n p node)"
proof (rule total_parseI)
  fix p
  assume p: "in_range p" "left_bytes p < n" "advances p p"
  obtain p1 b where k: "pkeyword p [str ''(''] = (p1, b)" by fastforce
  note 1 = step_keyword [OF p(3) k]
  show "\<exists>q x. pIndexBy n p node = Some (q, x) \<and> advances p q"
  proof (cases b)
    case True
    from step_total [OF expr_total(3) 1 p(2)] obtain p2 x where 2: "expr_tuple n p1 = Some (p2, x)" "advances p p2" by blast
    then show ?thesis using k True step_expect by (auto simp: pIndexBy_def)
  next
    case False
    from step_total [OF expr_total(2) 1 p(2)] obtain p2 x where 2: "expr_cmp n p1 = Some (p2, x)" "advances p p2" by blast
    have "left_bytes p2 < n" using advances_left [OF 2(2)] p(2) by simp
    from IndexBy_loop_total [OF advances_range [OF 2(2)] this, of "[x]"] obtain p3 xs where
      3: "pIndexBy_loop n p2 [x] n = Some (p3, xs)" "advances p2 p3" by blast
    have 4: "advances p p3" using 2(2) 3(2) by (rule advances_trans)
    show ?thesis using k False 2(1) 3(1) 4 step_err [OF 4] by (simp add: pIndexBy_def Let_def)
  qed
qed

lemma pOffset_advances: "advances p0 p \<Longrightarrow> advances p0 (fst (pOffset p node))" "advances p0 p \<Longrightarrow> advances p0 (fst (pLimit p node))"
proof -
  assume p: "advances p0 p"
  then have 1: "advances p0 (skipSpace p)" by (blast intro: advances_trans skipSpace_advances advances_range)
  obtain p2 nd b where n: "pNum (skipSpace p) node_zero = (p2, nd, b)" by (metis prod_cases3)
  then have 2: "advances p0 p2" using 1 by (blast intro: advances_trans pNum_advances advances_range)
  then show "advances p0 (fst (pOffset p node))" "advances p0 (fst (pLimit p node))"
    using n step_err by (simp_all add: pOffset_def pLimit_def)
qed

lemma Scan_total: "total_parse n (\<lambda>p. pScan n p node)"
proof (rule total_parseI)
  fix p
  assume p: "in_range p" "left_bytes p < n" "advances p p"
  let ?A = "case pkeyword p [str ''index'', str ''by''] of (p, True) \<Rightarrow> pIndexBy n p node | (p, False) \<Rightarrow> Some (p, node)"
  obtain p1 n1 where 1: "?A = Some (p1, n1)" "advances p p1"
  proof -
    obtain q b where k: "pkeyword p [str ''index'', str ''by''] = (q, b)" by fastforce
    note q = step_keyword [OF p(3) k]
    show thesis
      using step_total [OF IndexBy_total q p(2), of node] q k that by (cases b) auto
  qed
  let ?B = "case pkeyword p1 [str ''filter''] of
      (p, True) \<Rightarrow> do { (p, f) \<leftarrow> expr_or n p; Some (p, n1\<lparr>sc_Filter := Some f\<rparr>) } | (p, False) \<Rightarrow> Some (p, n1)"
  obtain p2 n2 where 2: "?B = Some (p2, n2)" "advances p p2"
  proof -
    obtain q b where k: "pkeyword p1 [str ''filter''] = (q, b)" by fastforce
    note q = step_keyword [OF 1(2) k]
    show thesis
      using step_total [OF expr_total(1) q p(2)] q k that by (cases b) auto
  qed
  let ?n2 = "n2\<lparr>sc_Offset := 0, sc_Limit := 9223372036854775807\<rparr>"
  obtain p3 n3 where 3: "(case pkeyword p2 [str ''offset''] of (p, True) \<Rightarrow> pOffset p ?n2 | (p, False) \<Rightarrow> (p, ?n2)) = (p3, n3)"
    by fastforce
  have a3: "advances p p3"
  proof -
    obtain q b where k: "pkeyword p2 [str ''offset''] = (q, b)" by fastforce
    note q = step_keyword [OF 2(2) k]
    show ?thesis using pOffset_advances(1) [OF q, of ?n2] q k 3 by (cases b) auto
  qed
  obtain p4 n4 where 4: "(case pkeyword p3 [str ''limit''] of (p, True) \<Rightarrow> pLimit p n3 | (p, False) \<Rightarrow> (p, n3)) = (p4, n4)"
    by fastforce
  have a4: "advances p p4"
  proof -
    obtain q b where k: "pkeyword p3 [str ''limit''] = (q, b)" by fastforce
    note q = step_keyword [OF a3 k]
    show ?thesis using pOffset_advances(2) [OF q, of n3] q k 4 by (cases b) auto
  qed
  have "pScan n p node = Some (p4, n4)"
    unfolding pScan_def by (simp only: 1(1) 2(1) bind.bind_lunit prod.case Let_def 3 4)
  then show "\<exists>q x. pScan n p node = Some (q, x) \<and> advances p q" using a4 by blast
qed

section \<open>Lists of expressions\<close>

lemma SelectExpr_total: "total_parse n (\<lambda>p. pSelectExpr n p stmt)"
proof (rule total_parseI)
  fix p
  assume p: "in_range p" "left_bytes p < n" "advances p p"
  from step_total [OF expr_total(1) p(3,2)] obtain p1 e where 1: "expr_or n p = Some (p1, e)" "advances p p1" by blast
  obtain q b where k: "pkeyword p1 [str ''as''] = (q, b)" by fastforce
  note q = step_keyword [OF 1(2) k]
  obtain q2 s where m: "pMustSym q = (q2, s)" by fastforce
  show "\<exists>q x. pSelectExpr n p stmt = Some (q, x) \<and> advances p q"
    using 1(1) k q m step_sym [OF q m] by (cases b) (simp_all add: pSelectExpr_def Let_def)
qed

lemma SelectExprList_total: "total_parse n (\<lambda>p. pSelectExprList n p stmt)"
proof (rule total_parseI)
  fix p
  assume p: "in_range p" "left_bytes p < n" "advances p p"
  from step_total [OF SelectExpr_total p(3,2)] obtain p1 e where 1: "pSelectExpr n p stmt = Some (p1, e)" "advances p p1" by blast
  have l: "left_bytes p1 < n" using advances_left [OF 1(2)] p(2) by simp
  have "\<exists>q y. pSelectExprList_loop n n p1 e = Some (q, y) \<and> advances p1 q"
    by (rule keyword_loop_total [where loop = "\<lambda>m p x. pSelectExprList_loop m n p x" and f = "pSelectExpr n" and kw = "'',''",
          OF SelectExpr_total _ _ advances_range [OF 1(2)] l l]) simp_all
  then show "\<exists>q x. pSelectExprList n p stmt = Some (q, x) \<and> advances p q"
    using 1 by (auto simp: pSelectExprList_def intro: advances_trans)
qed

lemma UpdateExpr_total: "total_parse n (\<lambda>p. pUpdateExpr n p stmt)"
proof (rule total_parseI)
  fix p
  assume p: "in_range p" "left_bytes p < n" "advances p p"
  obtain q nd b where s: "pSym p node_zero = (q, nd, b)" by (metis prod_cases3)
  have "advances p q" using pSym_advances [OF p(1) s] .
  from step_expect [OF this] have 1: "advances p (expect q [''=''] ''invalid update query syntax expected '=' '')" .
  from step_total [OF expr_total(1) 1 p(2)] show "\<exists>q x. pUpdateExpr n p stmt = Some (q, x) \<and> advances p q"
    using s by (auto simp: pUpdateExpr_def)
qed

lemma UpdateExprList_total: "total_parse n (\<lambda>p. pUpdateExprList n p stmt)"
proof (rule total_parseI)
  fix p
  assume p: "in_range p" "left_bytes p < n" "advances p p"
  from step_total [OF UpdateExpr_total p(3,2)] obtain p1 e where 1: "pUpdateExpr n p stmt = Some (p1, e)" "advances p p1" by blast
  have l: "left_bytes p1 < n" using advances_left [OF 1(2)] p(2) by simp
  have "\<exists>q y. pUpdateExprList_loop n n p1 e = Some (q, y) \<and> advances p1 q"
    by (rule keyword_loop_total [where loop = "\<lambda>m p x. pUpdateExprList_loop m n p x" and f = "pUpdateExpr n" and kw = "'',''",
          OF UpdateExpr_total _ _ advances_range [OF 1(2)] l l]) simp_all
  then show "\<exists>q x. pUpdateExprList n p stmt = Some (q, x) \<and> advances p q"
    using 1 by (auto simp: pUpdateExprList_def intro: advances_trans)
qed

section \<open>The four statements\<close>

lemma Select_total: "total_parse n (pSelect n)"
proof (rule total_parseI)
  fix p
  assume p: "in_range p" "left_bytes p < n" "advances p p"
  let ?s = "\<lparr>sel_Scan = scan_zero, sel_Name = [], sel_Output = []\<rparr>"
  obtain p1 s1 where 1: "(case pkeyword p [str ''*''] of (p, True) \<Rightarrow> Some (p, ?s\<lparr>sel_Name := [str ''*'']\<rparr>)
      | (p, False) \<Rightarrow> pSelectExprList n p ?s) = Some (p1, s1)" "advances p p1"
  proof -
    obtain q b where k: "pkeyword p [str ''*''] = (q, b)" by fastforce
    note q = step_keyword [OF p(3) k]
    show thesis using step_total [OF SelectExprList_total q p(2), of ?s] q k that by (cases b) auto
  qed
  let ?p2 = "expect p1 [''from''] ''expected `from` table''"
  obtain p3 tb where 3: "pMustSym ?p2 = (p3, tb)" by fastforce
  have a3: "advances p p3" using step_sym [OF step_expect [OF 1(2)] 3] .
  from step_total [OF Scan_total a3 p(2), of "(sel_Scan s1)\<lparr>sc_Table := tb\<rparr>"] obtain p4 sc where
    4: "pScan n p3 ((sel_Scan s1)\<lparr>sc_Table := tb\<rparr>) = Some (p4, sc)" "advances p p4" by blast
  have "pSelect n p = (if p_Err p4 \<noteq> None then Some (p4, None)
     else Some (expect p4 ['';''] ''invalid select query syntax'', Some (s1\<lparr>sel_Scan := sc\<rparr>)))"
    unfolding pSelect_def by (simp only: 1(1) 3 4(1) bind.bind_lunit prod.case Let_def)
  then show "\<exists>q x. pSelect n p = Some (q, x) \<and> advances p q" using 4(2) step_expect by auto
qed

lemma Insert_total: "total_parse n (pInsert n)"
proof (rule total_parseI)
  fix p
  assume p: "in_range p" "left_bytes p < n" "advances p p"
  obtain p1 tb where 1: "pMustSym p = (p1, tb)" by fastforce
  have "advances p (expect p1 [''(''] ''invalid insert query syntax'')" using step_expect [OF step_sym [OF p(3) 1]] .
  from step_total [OF expr_total(3) this p(2)] obtain p2 cn where
    2: "expr_tuple n (expect p1 [''(''] ''invalid insert query syntax'') = Some (p2, cn)" "advances p p2" by blast
  let ?p3 = "expect (expect (expect p2 ['')''] ''invalid insert query syntax'') [''values''] ''invalid insert query syntax'') [''(''] ''invalid insert query syntax''"
  have "advances p ?p3" using step_expect [OF step_expect [OF step_expect [OF 2(2)]]] .
  from step_total [OF expr_total(3) this p(2)] obtain p4 vs where 4: "expr_tuple n ?p3 = Some (p4, vs)" "advances p p4" by blast
  show "\<exists>q x. pInsert n p = Some (q, x) \<and> advances p q"
    unfolding pInsert_def using 1 2(1) 4(1) step_expect [OF step_expect [OF 4(2)]] by (simp add: Let_def)
qed

lemma Update_total: "total_parse n (pUpdate n)"
proof (rule total_parseI)
  fix p
  assume p: "in_range p" "left_bytes p < n" "advances p p"
  obtain p1 tb where 1: "pMustSym p = (p1, tb)" by fastforce
  let ?p2 = "expect p1 [''set''] ''invalid update query syntax expected 'set' ''"
  let ?s = "\<lparr>upd_Scan = scan_zero\<lparr>sc_Table := tb\<rparr>, upd_Name = [], upd_Values = []\<rparr>"
  have "advances p ?p2" using step_expect [OF step_sym [OF p(3) 1]] .
  from step_total [OF UpdateExprList_total this p(2), of ?s] obtain p3 s3 where
    3: "pUpdateExprList n ?p2 ?s = Some (p3, s3)" "advances p p3" by blast
  from step_total [OF Scan_total 3(2) p(2), of "upd_Scan s3"] obtain p4 sc where
    4: "pScan n p3 (upd_Scan s3) = Some (p4, sc)" "advances p p4" by blast
  have "pUpdate n p = (if p_Err p4 \<noteq> None then Some (p4, None)
     else Some (expect p4 ['';''] ''invalid update query syntax'', Some (s3\<lparr>upd_Scan := sc\<rparr>)))"
    unfolding pUpdate_def by (simp only: 1 3(1) 4(1) bind.bind_lunit prod.case Let_def)
  then show "\<exists>q x. pUpdate n p = Some (q, x) \<and> advances p q" using 4(2) step_expect by auto
qed

lemma Delete_total: "total_parse n (pDelete n)"
proof (rule total_parseI)
  fix p
  assume p: "in_range p" "left_bytes p < n" "advances p p"
  let ?p1 = "expect p [''from''] ''expected `from` table''"
  obtain p2 tb where 2: "pMustSym ?p1 = (p2, tb)" by fastforce
  have "advances p p2" using step_sym [OF step_expect [OF p(3)] 2] .
  from step_total [OF Scan_total this p(2), of "scan_zero\<lparr>sc_Table := tb\<rparr>"] obtain p4 sc where
    4: "pScan n p2 (scan_zero\<lparr>sc_Table := tb\<rparr>) = Some (p4, sc)" "advances p p4" by blast
  have "pDelete n p = (if p_Err p4 \<noteq> None then Some (p4, None)
     else Some (expect p4 ['';''] ''invalid delete query syntax'', Some \<lparr>del_Scan = sc\<rparr>))"
    unfolding pDelete_def by (simp only: 2 4(1) bind.bind_lunit prod.case Let_def)
  then show "\<exists>q x. pDelete n p = Some (q, x) \<and> advances p q" using 4(2) step_expect by auto
qed

section \<open>Properties\<close>

text \<open>C9: The parser terminates on every input that is not a create table statement: with a fuel above the
  number of bytes left it returns a statement (or nil) and a parser over the same input whose index has
  not moved back and is still inside the input.\<close>

theorem PStmt_total:
  assumes "in_range p" "left_bytes p < n" "\<not> snd (pkeyword p [str ''create'', str ''table''])"
  shows "\<exists>q s. PStmt n p = Some (q, s) \<and> advances p q"
proof -
  note a = advances_refl [OF assms(1)]
  obtain c0 where 0: "pkeyword p [str ''create'', str ''table''] = (c0, False)" using assms(3) by (cases "pkeyword p [str ''create'', str ''table'']") auto
  note q0 = pkeyword_no [OF assms(1) 0]
  have U: "total_parse n (pUpsert n)"
    using Insert_total [of n] by (fastforce simp: total_parse_def pUpsert_def)
  obtain q1 b1 where 1: "pkeyword p [str ''select''] = (q1, b1)" by fastforce
  obtain q2 b2 where 2: "pkeyword p [str ''insert'', str ''into''] = (q2, b2)" by fastforce
  obtain q3 b3 where 3: "pkeyword p [str ''upsert'', str ''into''] = (q3, b3)" by fastforce
  obtain q4 b4 where 4: "pkeyword p [str ''update''] = (q4, b4)" by fastforce
  obtain q5 b5 where 5: "pkeyword p [str ''delete''] = (q5, b5)" by fastforce
  note st = step_total [OF _ step_keyword [OF a] assms(2)]
  have N: "\<not> b1 \<Longrightarrow> q1 = p" "\<not> b2 \<Longrightarrow> q2 = p" "\<not> b3 \<Longrightarrow> q3 = p" "\<not> b4 \<Longrightarrow> q4 = p" "\<not> b5 \<Longrightarrow> q5 = p"
    using pkeyword_advances(3) [OF assms(1)] 1 2 3 4 5 by blast+
  have A: "\<exists>r s. map_option (map_prod id StmtSelect) (pSelect n q1) = Some (r, s) \<and> advances p r"
    "\<exists>r s. map_option (map_prod id StmtInsert) (pInsert n q2) = Some (r, s) \<and> advances p r"
    "\<exists>r s. map_option (map_prod id StmtInsert) (pUpsert n q3) = Some (r, s) \<and> advances p r"
    "\<exists>r s. map_option (map_prod id StmtUpdate) (pUpdate n q4) = Some (r, s) \<and> advances p r"
    "\<exists>r s. map_option (map_prod id StmtDelete) (pDelete n q5) = Some (r, s) \<and> advances p r"
    using st [OF Select_total 1] st [OF Insert_total 2] st [OF U 3] st [OF Update_total 4] st [OF Delete_total 5] by auto
  show ?thesis
    using A N a by (cases b1; cases b2; cases b3; cases b4; cases b5; simp only: PStmt_def 0 q0 1 2 3 4 5 prod.case bool.case simp_thms)
      blast+
qed

lemma skipSpace_end:
  assumes "in_range p" "\<forall>c \<in> set (rest p). IsSpace c"
  shows "skipSpace p = p\<lparr>p_Idx := length (p_Input p)\<rparr>"
proof -
  have "length (takeWhile IsSpace (rest p)) = length (rest p)" using assms(2) takeWhile_eq_all_conv by metis
  moreover have "p_Idx p + length (rest p) = length (p_Input p)" using assms(1) by (simp add: rest_def)
  ultimately have "p_Idx p + length (takeWhile IsSpace (rest p)) = length (p_Input p)" by linarith
  then show ?thesis unfolding skipSpace_def by simp
qed


section \<open>Witnesses\<close>

definition parser_of :: "string \<Rightarrow> Parser" where
  "parser_of s = \<lparr>p_Input = str s, p_Cap = length s, p_Idx = 0, p_Err = None\<rparr>"

theorem PStmt_total_witness:
  "\<exists>q s. PStmt 20 (parser_of ''select * from t;'') = Some (q, s) \<and> advances (parser_of ''select * from t;'') q"
proof (rule PStmt_total)
  show "\<not> snd (pkeyword (parser_of ''select * from t;'') [str ''create'', str ''table''])" by code_simp
qed (simp_all add: parser_of_def left_bytes_def str_def)


end
