(* ===== verification/Eval_Correct.thy ===== *)
theory Eval_Correct
  imports Eval Parser_Total
begin

text \<open>
  The evaluator agrees with a reference semantics of expressions that never mentions contexts or types
  of nodes: integers, strings and booleans, an outcome that is a value, an error, or a panic.
\<close>

datatype sval = SInt i64 | SStr bytes | SBool bool | SNone
datatype outcome = Ok sval | Fail | Panic

section \<open>The reference semantics\<close>

fun sem_cmp :: "u32 \<Rightarrow> 'a \<Rightarrow> 'a \<Rightarrow> ('a \<Rightarrow> 'a \<Rightarrow> bool) \<Rightarrow> bool" where
  "sem_cmp t a b lt =
     (if t = QL_CMP_LT then lt a b else if t = QL_CMP_GT then lt b a else if t = QL_CMP_LE then a = b \<or> lt a b
      else if t = QL_CMP_GE then a = b \<or> lt b a else a = b)"

definition cmp_types :: "u32 set" where "cmp_types = {QL_CMP_GE, QL_CMP_GT, QL_CMP_LE, QL_CMP_LT, QL_CMP_EQ}"
definition num_types :: "u32 set" where "num_types = {QL_ADD, QL_SUB, QL_MUL, QL_DIV, QL_MOD}"

definition sem_num :: "u32 \<Rightarrow> i64 \<Rightarrow> i64 \<Rightarrow> outcome" where
  "sem_num t a b =
     (if t = QL_ADD then Ok (SInt (a + b)) else if t = QL_SUB then Ok (SInt (a - b)) else if t = QL_MUL then Ok (SInt (a * b))
      else if b = 0 then Panic
      else if t = QL_DIV then Ok (SInt (the (go_div a b))) else Ok (SInt (the (go_mod a b))))"

fun sem_bin :: "u32 \<Rightarrow> sval \<Rightarrow> sval \<Rightarrow> outcome" where
  "sem_bin t (SInt a) (SInt b) =
     (if t \<in> num_types then sem_num t a b
      else if t \<in> cmp_types then Ok (SBool (sem_cmp t (sint a) (sint b) (<))) else Fail)"
| "sem_bin t (SStr a) (SStr b) = (if t \<in> cmp_types then Ok (SBool (sem_cmp t a b (<))) else Fail)"
| "sem_bin t (SBool a) (SBool b) =
     (if t = QL_OR then Ok (SBool (a \<or> b)) else if t = QL_AND then Ok (SBool (a \<and> b)) else Fail)"
| "sem_bin t v w = Fail"

fun sem_seq :: "u32 \<Rightarrow> outcome \<Rightarrow> outcome \<Rightarrow> outcome" where
  "sem_seq t Panic r = Panic"
| "sem_seq t Fail r = Fail"
| "sem_seq t (Ok v) Panic = Panic"
| "sem_seq t (Ok v) Fail = Fail"
| "sem_seq t (Ok v) (Ok w) = sem_bin t v w"

fun sem_val :: "Value \<Rightarrow> sval" where
  "sem_val v = (if v_Type v = QL_I64 then SInt (v_I64 v) else if v_Type v = QL_STR then SStr (v_Str v) else SNone)"

fun sem :: "Record \<Rightarrow> QLNode \<Rightarrow> outcome" where
  "sem env (QLNode val kids) =
     (if v_Type val = QL_STR then Ok (SStr (v_Str val))
      else if v_Type val = QL_I64 then Ok (SInt (v_I64 val))
      else if v_Type val = QL_SYM then
        (case find_col (r_Cols env) (v_Str val) of None \<Rightarrow> Fail | Some i \<Rightarrow> Ok (sem_val (r_Vals env ! i)))
      else if v_Type val = QL_NEG then
        (case kids of [k] \<Rightarrow> (case sem env k of Ok (SInt n) \<Rightarrow> Ok (SInt (- n)) | Panic \<Rightarrow> Panic | _ \<Rightarrow> Fail) | _ \<Rightarrow> Fail)
      else if v_Type val \<in> num_types \<union> cmp_types \<union> {QL_OR, QL_AND} then
        (case kids of [k0, k1] \<Rightarrow> sem_seq (v_Type val) (sem env k0) (sem env k1) | _ \<Rightarrow> Fail)
      else Ok SNone)"

text \<open>Expressions as the parser builds them, and records as the tables hold them.\<close>

definition binary_type :: "u32 \<Rightarrow> bool" where
  "binary_type t \<longleftrightarrow> t \<in> num_types \<union> cmp_types \<union> {QL_OR, QL_AND}"

fun wf_expr :: "QLNode \<Rightarrow> bool" where
  "wf_expr (QLNode val kids) \<longleftrightarrow> (\<forall>k \<in> set kids. wf_expr k) \<and>
     (v_Type val \<in> {QL_STR, QL_I64} \<longrightarrow> key_value val) \<and>
     (v_Type val = QL_NEG \<longrightarrow> length kids = 1) \<and> (binary_type (v_Type val) \<longrightarrow> length kids = 2)"

definition env_ok :: "Record \<Rightarrow> bool" where
  "env_ok env \<longleftrightarrow> length (r_Cols env) \<le> length (r_Vals env) \<and> (\<forall>v \<in> set (r_Vals env). key_value v)"

section \<open>Agreement\<close>

fun enc :: "sval \<Rightarrow> Value" where
  "enc (SInt n) = IntValue n"
| "enc (SStr s) = BytesValue s"
| "enc (SBool b) = BoolValue b"
| "enc SNone = valWithType 0"

fun agrees :: "QLEvalContext option \<Rightarrow> outcome \<Rightarrow> bool" where
  "agrees r Panic = (r = None)"
| "agrees r (Ok v) = (r = Some \<lparr>ctx_out = enc v, ctx_err = []\<rparr>)"
| "agrees r Fail = (\<exists>c. r = Some c \<and> ctx_err c \<noteq> [] \<and> v_Type (ctx_out c) \<noteq> QL_I64)"

lemma enc_simps [simp]:
  "v_Type (IntValue n) = QL_I64" "v_I64 (IntValue n) = n" "v_Type (BytesValue s) = QL_STR" "v_Str (BytesValue s) = s"
  "v_Type (BoolValue b) = QL_BOOL" "v_I64 (BoolValue b) = 1 \<longleftrightarrow> b" "v_Type (valWithType t) = t"
  "(IntValue n)\<lparr>v_I64 := m\<rparr> = IntValue m"
  by (simp_all add: IntValue_def BytesValue_def BoolValue_def valWithType_def)

lemma bytes_Compare_cases:
  "bytes_Compare a b = 0 \<longleftrightarrow> a = b" "bytes_Compare a b = - 1 \<longleftrightarrow> a < b" "bytes_Compare a b = 1 \<longleftrightarrow> b < a"
  by (auto simp: bytes_Compare_def)

lemma kids_agree:
  assumes "agrees (ev ctx_zero k0) o0" "agrees (ev ctx_zero k1) o1"
  shows "(case (o0, o1) of
      (Panic, _) \<Rightarrow> evalLeftRightKids ev ctx_zero [k0, k1] = None
    | (Fail, _) \<Rightarrow> \<exists>e. evalLeftRightKids ev ctx_zero [k0, k1] = Some (qlErr ctx_zero e, None)
    | (Ok v, Panic) \<Rightarrow> evalLeftRightKids ev ctx_zero [k0, k1] = None
    | (Ok v, Fail) \<Rightarrow> \<exists>e. evalLeftRightKids ev ctx_zero [k0, k1] = Some (qlErr ctx_zero e, None)
    | (Ok v, Ok w) \<Rightarrow>
        (if v_Type (enc v) = v_Type (enc w) then evalLeftRightKids ev ctx_zero [k0, k1] = Some (ctx_zero, Some (enc v, Some (enc w)))
         else \<exists>e. evalLeftRightKids ev ctx_zero [k0, k1] = Some (qlErr ctx_zero e, None)))"
  using assms by (cases o0; cases o1) (auto simp: evalLeftRightKids_def)

lemma qlErr_agrees [simp]: "agrees (Some (qlErr ctx_zero e)) Fail"
  by (simp add: qlErr_def ctx_zero_def)

lemma numeric_agrees:
  assumes "agrees (ev ctx_zero k0) o0" "agrees (ev ctx_zero k1) o1" "t \<in> num_types"
  shows "agrees (qlNumeric ev ctx_zero [k0, k1] t) (sem_seq t o0 o1)"
proof -
  have c: "t \<notin> cmp_types" "t \<noteq> QL_OR" "t \<noteq> QL_AND" using assms(3) by (auto simp: num_types_def cmp_types_def)
  show ?thesis
  proof (cases "\<exists>v w. o0 = Ok v \<and> o1 = Ok w")
    case False
    then show ?thesis using kids_agree [of ev k0 o0 k1 o1, OF assms(1,2)] by (cases o0; cases o1) (auto simp: qlNumeric_def simp del: agrees.simps(3))
  next
    case True
    then obtain v w where vw: "o0 = Ok v" "o1 = Ok w" by blast
    show ?thesis
      using kids_agree [of ev k0 o0 k1 o1, OF assms(1,2)] assms(3) c unfolding vw
      by (cases v; cases w) (auto simp: qlNumeric_def sem_num_def num_types_def go_div_def go_mod_def ctx_zero_def qlErr_def)
  qed
qed

lemma orand_agrees:
  assumes "agrees (ev ctx_zero k0) o0" "agrees (ev ctx_zero k1) o1" "t \<in> {QL_OR, QL_AND}"
  shows "agrees (qlOrAnd ev ctx_zero [k0, k1] t) (sem_seq t o0 o1)"
proof -
  have c: "t \<notin> cmp_types" "t \<notin> num_types" using assms(3) by (auto simp: num_types_def cmp_types_def)
  show ?thesis
  proof (cases "\<exists>v w. o0 = Ok v \<and> o1 = Ok w")
    case False
    then show ?thesis using kids_agree [of ev k0 o0 k1 o1, OF assms(1,2)] by (cases o0; cases o1) (auto simp: qlOrAnd_def simp del: agrees.simps(3))
  next
    case True
    then obtain v w where vw: "o0 = Ok v" "o1 = Ok w" by blast
    show ?thesis
      using kids_agree [of ev k0 o0 k1 o1, OF assms(1,2)] assms(3) c unfolding vw
      by (cases v; cases w) (auto simp: qlOrAnd_def ctx_zero_def qlErr_def)
  qed
qed

lemma cmp_agrees:
  assumes "agrees (ev ctx_zero k0) o0" "agrees (ev ctx_zero k1) o1" "t \<in> cmp_types"
  shows "agrees (qlCmp ev ctx_zero [k0, k1] t) (sem_seq t o0 o1)"
proof -
  have c: "t \<noteq> QL_OR" "t \<noteq> QL_AND" "t \<notin> num_types" using assms(3) by (auto simp: num_types_def cmp_types_def)
  show ?thesis
  proof (cases "\<exists>v w. o0 = Ok v \<and> o1 = Ok w")
    case False
    then show ?thesis using kids_agree [of ev k0 o0 k1 o1, OF assms(1,2)] by (cases o0; cases o1) (auto simp: qlCmp_def simp del: agrees.simps(3))
  next
    case True
    then obtain v w where vw: "o0 = Ok v" "o1 = Ok w" by blast
    show ?thesis
      using kids_agree [of ev k0 o0 k1 o1, OF assms(1,2)] assms(3) c unfolding vw
      by (cases v; cases w)
        (auto simp: qlCmp_def ctx_zero_def qlErr_def cmp_types_def Let_def bytes_Compare_cases BoolValue_def)
  qed
qed

lemma enc_sem_val: "key_value v \<Longrightarrow> enc (sem_val v) = v"
  by (cases v) (auto simp: key_value_def IntValue_def BytesValue_def)

lemma find_col_bound: "find_col cols c = Some i \<Longrightarrow> i < length cols"
  by (induction cols arbitrary: i) (auto split: if_splits)

lemma qlEval_agrees:
  assumes "env_ok env"
  shows "wf_expr e \<Longrightarrow> agrees (qlEval env ctx_zero e) (sem env e)"
proof (induction e)
  case (QLNode val kids)
  let ?t = "v_Type val"
  have IH: "agrees (qlEval env ctx_zero k) (sem env k)" if "k \<in> set kids" for k
    using QLNode that by simp
  consider (lit) "?t = QL_STR \<or> ?t = QL_I64" | (sym) "?t = QL_SYM" | (neg) "?t = QL_NEG" | (bin) "binary_type ?t"
    | (other) "?t \<notin> {QL_STR, QL_I64, QL_SYM, QL_NEG}" "\<not> binary_type ?t" by blast
  then show ?case
  proof cases
    case lit
    then have "val = (if ?t = QL_STR then BytesValue (v_Str val) else IntValue (v_I64 val))"
    proof -
      have "key_value val" using QLNode.prems lit by auto
      then show ?thesis using lit key_value_cases by auto
    qed
    then show ?thesis using lit by (auto simp: ctx_zero_def split: if_splits)
  next
    case sym
    show ?thesis
    proof (cases "find_col (r_Cols env) (v_Str val)")
      case None
      then show ?thesis using sym by (simp add: Record_Get_def qlErr_def ctx_zero_def)
    next
      case (Some i)
      then have i: "i < length (r_Vals env)" using find_col_bound assms by (fastforce simp: env_ok_def)
      then have "key_value (r_Vals env ! i)" using assms by (simp add: env_ok_def)
      then have "enc (sem_val (r_Vals env ! i)) = r_Vals env ! i" by (rule enc_sem_val)
      then show ?thesis using sym Some i by (simp add: Record_Get_def ctx_zero_def del: sem_val.simps)
    qed
  next
    case neg
    then obtain k where k: "kids = [k]" using QLNode.prems by (auto simp: length_Suc_conv)
    then have "agrees (qlEval env ctx_zero k) (sem env k)" using IH by simp
    then show ?thesis using neg k
      by (cases "sem env k" rule: outcome.exhaust) (auto simp: qlErr_def split: sval.split)
  next
    case bin
    then obtain k0 k1 where k: "kids = [k0, k1]" using QLNode.prems by (auto simp: numeral_2_eq_2 length_Suc_conv)
    then have a: "agrees (qlEval env ctx_zero k0) (sem env k0)" "agrees (qlEval env ctx_zero k1) (sem env k1)" using IH by simp_all
    have t: "?t \<noteq> QL_STR" "?t \<noteq> QL_I64" "?t \<noteq> QL_SYM" "?t \<noteq> QL_NEG"
      using bin by (auto simp: binary_type_def num_types_def cmp_types_def)
    then have s: "sem env (QLNode val kids) = sem_seq ?t (sem env k0) (sem env k1)" using bin k by (simp add: binary_type_def)
    consider "?t \<in> num_types" | "?t \<in> cmp_types" | "?t \<in> {QL_OR, QL_AND}" using bin by (auto simp: binary_type_def)
    then show ?thesis
    proof cases
      case 1
      then have "qlEval env ctx_zero (QLNode val kids) = qlNumeric (qlEval env) ctx_zero [k0, k1] ?t"
        using k by (auto simp: num_types_def)
      then show ?thesis using numeric_agrees [of "qlEval env" k0 "sem env k0" k1 "sem env k1", OF a 1] s by simp
    next
      case 2
      then have "qlEval env ctx_zero (QLNode val kids) = qlCmp (qlEval env) ctx_zero [k0, k1] ?t"
        using k by (auto simp: cmp_types_def)
      then show ?thesis using cmp_agrees [of "qlEval env" k0 "sem env k0" k1 "sem env k1", OF a 2] s by simp
    next
      case 3
      then have "qlEval env ctx_zero (QLNode val kids) = qlOrAnd (qlEval env) ctx_zero [k0, k1] ?t"
        using k by auto
      then show ?thesis using orand_agrees [of "qlEval env" k0 "sem env k0" k1 "sem env k1", OF a 3] s by simp
    qed
  next
    case other
    then show ?thesis by (auto simp: ctx_zero_def binary_type_def num_types_def cmp_types_def)
  qed
qed

section \<open>The parser builds well-formed expressions\<close>

definition builds :: "(Parser \<Rightarrow> QLNode parse) \<Rightarrow> bool" where
  "builds f \<longleftrightarrow> (\<forall>p q e. f p = Some (q, e) \<longrightarrow> wf_expr e)"

lemma buildsD: "builds f \<Longrightarrow> f p = Some (q, e) \<Longrightarrow> wf_expr e"
  unfolding builds_def by blast

lemma BinOp_loop_builds:
  assumes "builds next" "\<forall>(kw, t) \<in> set ops. binary_type t"
  shows "pExprBinOp_loop n ops next p e = Some (q, r) \<Longrightarrow> wf_expr e \<Longrightarrow> wf_expr r"
proof (induction n arbitrary: p e)
  case (Suc n)
  have ops: "binary_type t" if "try_ops p ops = Some (p', t)" for p p' t
    using assms(2) that by (induction ops arbitrary: p) (auto split: prod.splits bool.splits)
  show ?case
  proof (cases "try_ops p ops")
    case (Some a)
    then obtain p1 t where a: "try_ops p ops = Some (p1, t)" by (cases a) simp
    with Suc.prems(1) obtain p2 x where 2: "next p1 = Some (p2, x)" "pExprBinOp_loop n ops next p2 (QLNode (valWithType t) [e, x]) = Some (q, r)"
      by (auto split: bind_splits)
    have t: "binary_type t" using ops [OF a] .
    then have "t \<notin> {QL_STR, QL_I64, QL_NEG}" by (auto simp: binary_type_def num_types_def cmp_types_def)
    then have "wf_expr (QLNode (valWithType t) [e, x])" using Suc.prems(2) buildsD [OF assms(1) 2(1)] by simp
    then show ?thesis using Suc.IH [OF 2(2)] by simp
  qed (use Suc in auto)
qed simp

lemma BinOp_builds: "builds next \<Longrightarrow> \<forall>(kw, t) \<in> set ops. binary_type t \<Longrightarrow> builds (pExprBinOp n ops next)"
  unfolding builds_def [of "pExprBinOp n ops next"] pExprBinOp_def
  using BinOp_loop_builds buildsD by (fastforce split: bind_splits)

lemma UnOp_builds: "builds atom \<Longrightarrow> builds (pExprUnOp atom)"
  unfolding builds_def [of "pExprUnOp atom"] pExprUnOp_def
  by (auto simp: binary_type_def num_types_def cmp_types_def dest: buildsD split: prod.splits bool.splits bind_splits)

lemma ops_binary: "\<forall>(kw, t) \<in> set mul_ops. binary_type t" "\<forall>(kw, t) \<in> set add_ops. binary_type t" "\<forall>(kw, t) \<in> set cmp_ops. binary_type t"
  "\<forall>(kw, t) \<in> set [(''and'', QL_AND)]. binary_type t" "\<forall>(kw, t) \<in> set [(''or'', QL_OR)]. binary_type t"
  by (simp_all add: mul_ops_def add_ops_def cmp_ops_def binary_type_def num_types_def cmp_types_def)

lemma Or_builds: "builds atom \<Longrightarrow> builds (pExprOr n atom)"
  unfolding pExprOr_def [abs_def] pExprAnd_def [abs_def] pExprCmp_def [abs_def] pExprAdd_def [abs_def] pExprMul_def [abs_def]
  by (intro BinOp_builds UnOp_builds ops_binary)

lemma Tuple_loop_builds:
  assumes "builds next"
  shows "pExprTuple_loop n next p ks = Some (q, rs) \<Longrightarrow> \<forall>k \<in> set ks. wf_expr k \<Longrightarrow> (\<forall>k \<in> set rs. wf_expr k) \<and> length ks \<le> length rs"
proof (induction n arbitrary: p ks)
  case (Suc n)
  obtain p1 b where k: "pkeyword p [str '',''] = (p1, b)" by fastforce
  show ?case
  proof (cases b)
    case True
    with Suc.prems(1) k obtain p2 x where 2: "next p1 = Some (p2, x)" "pExprTuple_loop n next p2 (ks @ [x]) = Some (q, rs)"
      by (auto split: bind_splits)
    have "\<forall>k \<in> set (ks @ [x]). wf_expr k" using Suc.prems(2) buildsD [OF assms 2(1)] by simp
    from Suc.IH [OF 2(2) this] show ?thesis by simp
  qed (use Suc k in auto)
qed simp

lemma Tuple_builds:
  assumes "builds atom"
  shows "builds (pExprTuple n atom)"
  unfolding builds_def
proof (intro allI impI)
  fix p q e
  assume "pExprTuple n atom p = Some (q, e)"
  then obtain p1 k p2 ks where 1: "pExprOr n atom p = Some (p1, k)" "pExprTuple_loop n (pExprOr n atom) p1 [k] = Some (p2, ks)"
    "e = (if length ks > 1 then QLNode (valWithType QL_TUP) ks else ks ! 0)"
    by (auto simp: pExprTuple_def split: bind_splits)
  have "wf_expr k" using buildsD [OF Or_builds [OF assms] 1(1)] .
  with Tuple_loop_builds [OF Or_builds [OF assms] 1(2)] have ks: "\<forall>k \<in> set ks. wf_expr k" "1 \<le> length ks" by auto
  have "ks ! 0 \<in> set ks" using ks(2) by (cases ks) simp_all
  with ks show "wf_expr e" unfolding 1(3) by (auto simp: binary_type_def num_types_def cmp_types_def)
qed

lemma token_builds:
  assumes "pSym p node_zero = (p1, n1, b1)" "\<not> b1 \<Longrightarrow> pNum p1 n1 = (p2, n2, b2)" "\<not> b1 \<Longrightarrow> \<not> b2 \<Longrightarrow> pStr p2 n2 = (p3, n3, b3)"
  shows "b1 \<Longrightarrow> wf_expr n1" "\<not> b1 \<Longrightarrow> b2 \<Longrightarrow> wf_expr n2" "\<not> b1 \<Longrightarrow> \<not> b2 \<Longrightarrow> wf_expr n3"
proof -
  have zero: "node_zero = QLNode \<lparr>v_Type = 0, v_I64 = 0, v_Str = []\<rparr> []" by (simp add: node_zero_def valWithType_def)
  have sym: "b1 \<Longrightarrow> \<exists>s. n1 = QLNode \<lparr>v_Type = QL_SYM, v_I64 = 0, v_Str = s\<rparr> []" "\<not> b1 \<Longrightarrow> n1 = node_zero"
    using assms(1) by (auto simp: pSym_def zero Let_def split: if_splits)
  then show "b1 \<Longrightarrow> wf_expr n1" by (auto simp: binary_type_def num_types_def cmp_types_def)
  have num: "\<exists>n t. n2 = QLNode \<lparr>v_Type = t, v_I64 = n, v_Str = []\<rparr> [] \<and> (b2 \<longrightarrow> t = QL_I64) \<and> (\<not> b2 \<longrightarrow> n = 0 \<and> t \<in> {0, QL_I64})" if "\<not> b1"
    using assms(2) [OF that] sym(2) [OF that] by (auto simp: pNum_def zero Let_def split: if_splits option.splits)
  then show "\<not> b1 \<Longrightarrow> b2 \<Longrightarrow> wf_expr n2" by (auto simp: binary_type_def num_types_def cmp_types_def key_value_def IntValue_def)
  assume nb: "\<not> b1" "\<not> b2"
  then show "wf_expr n3"
    using assms(3) num
    by (auto simp: pStr_def Let_def binary_type_def num_types_def cmp_types_def key_value_def IntValue_def BytesValue_def split: if_splits)
qed

lemma Atom_builds: "builds (pExprAtom n)"
proof (induction n)
  case 0
  then show ?case by (simp add: builds_def)
next
  case (Suc n)
  note T = buildsD [OF Tuple_builds [OF Suc.IH]]
  show ?case
    unfolding builds_def
  proof (intro allI impI)
    fix p q e
    assume run: "pExprAtom (Suc n) p = Some (q, e)"
    obtain p1 b where k: "pkeyword p [str ''(''] = (p1, b)" by fastforce
    show "wf_expr e"
    proof (cases b)
      case True
      then show ?thesis using run k T by (auto split: bind_splits)
    next
      case False
      obtain p2 n2 b2 where s: "pSym p1 node_zero = (p2, n2, b2)" by (metis prod_cases3)
      obtain p3 n3 b3 where nm: "pNum p2 n2 = (p3, n3, b3)" by (metis prod_cases3)
      obtain p4 n4 b4 where st: "pStr p3 n3 = (p4, n4, b4)" by (metis prod_cases3)
      from token_builds [OF s nm st] show ?thesis using run k False s nm st by (cases b2; cases b3; cases b4) auto
    qed
  qed
qed

lemma kids_fail: "evalLeftRightKids ev ctx kids = Some (c, ops) \<Longrightarrow> ctx_out c = ctx_out ctx \<and> (ops \<noteq> None \<longrightarrow> c = ctx)"
  by (auto simp: evalLeftRightKids_def qlErr_def split: list.splits bind_splits if_splits)

lemma qlEval_fail_out:
  assumes "v_Type (node_val e) \<noteq> QL_NEG" "qlEval env ctx_zero e = Some c" "ctx_err c \<noteq> []"
  shows "v_Type (ctx_out c) = 0"
proof -
  obtain val kids where e: "e = QLNode val kids" by (cases e)
  have z: "v_Type (ctx_out ctx_zero) = 0" "ctx_err ctx_zero = []" by (simp_all add: ctx_zero_def)
  have n: "qlNumeric ev ctx_zero kids t = Some c \<Longrightarrow> v_Type (ctx_out c) = 0" for ev t
    using assms(3) z by (auto simp: qlNumeric_def Let_def qlErr_def dest!: kids_fail split: bind_splits option.splits if_splits)
  have o: "qlOrAnd ev ctx_zero kids t = Some c \<Longrightarrow> v_Type (ctx_out c) = 0" for ev t
    using assms(3) z by (auto simp: qlOrAnd_def Let_def qlErr_def dest!: kids_fail split: bind_splits option.splits if_splits)
  have cm: "qlCmp ev ctx_zero kids t = Some c \<Longrightarrow> v_Type (ctx_out c) = 0" for ev t
    using assms(3) z by (auto simp: qlCmp_def Let_def qlErr_def dest!: kids_fail split: bind_splits option.splits if_splits)
  show ?thesis
    using assms z unfolding e by (auto simp: Let_def qlErr_def dest: n o cm split: if_splits bind_splits option.splits)
qed

section \<open>Properties\<close>

text \<open>C8: The evaluator agrees with the reference semantics: on every well-formed expression and every record
  of integers and strings it panics, reports an error, or returns a value exactly when the semantics does,
  and then the same value. In particular no error of an operand is lost.\<close>

theorem qlEval_sem:
  assumes "env_ok env" "wf_expr e"
  shows "agrees (qlEval env ctx_zero e) (sem env e)"
  using assms by (rule qlEval_agrees)

text \<open>C10: Every expression that the parser returns is well-formed, whatever the input: operators have their two
  operands, a negation has one, and literals are integer or string values.\<close>

theorem pExprOr_wf: "expr_or n p = Some (q, e) \<Longrightarrow> wf_expr e"
  using buildsD [OF Or_builds [OF Atom_builds]] .

text \<open>C11: A record passes the filter of a query exactly when the semantics of the filter is the boolean true,
  and only a division by zero panics, when the filter is not a negation: an expression that fails or is
  not boolean rejects the record.\<close>

theorem QLEvalRecordBool_sem:
  assumes "env_ok rec" "wf_expr e" "v_Type (node_val e) \<noteq> QL_NEG"
  shows "(QLEvalRecordBool rec e = Some [] \<longleftrightarrow> sem rec e = Ok (SBool True)) \<and> (QLEvalRecordBool rec e = None \<longleftrightarrow> sem rec e = Panic)"
proof -
  have a: "agrees (qlEval rec ctx_zero e) (sem rec e)" using qlEval_agrees assms by blast
  have b: "v_I64 (BoolValue x) = 0 \<longleftrightarrow> \<not> x" for x by (simp add: BoolValue_def)
  show ?thesis
  proof (cases "sem rec e")
    case (Ok v)
    then show ?thesis using a by (cases v) (auto simp: QLEvalRecordBool_def b)
  next
    case Fail
    then obtain c where "qlEval rec ctx_zero e = Some c" "ctx_err c \<noteq> []" using a by auto
    with qlEval_fail_out [OF assms(3)] Fail show ?thesis by (auto simp: QLEvalRecordBool_def)
  qed (use a in \<open>auto simp: QLEvalRecordBool_def\<close>)
qed


section \<open>Witnesses\<close>

definition demo_expr :: QLNode where
  "demo_expr = QLNode (valWithType QL_CMP_GT) [QLNode (valWithType QL_ADD)
     [QLNode \<lparr>v_Type = QL_SYM, v_I64 = 0, v_Str = str ''age''\<rparr> [], QLNode (IntValue 1) []], QLNode (IntValue 5) []]"

definition demo_env :: "i64 \<Rightarrow> Record" where
  "demo_env n = AddI64 EmptyRecord (str ''age'') n"

lemma demo_wf: "wf_expr demo_expr" "env_ok (demo_env n)"
  by (simp_all add: demo_expr_def demo_env_def env_ok_def AddI64_def EmptyRecord_def key_value_def binary_type_def num_types_def cmp_types_def)

lemma demo_sem: "sem (demo_env 7) demo_expr = Ok (SBool True)" "sem (demo_env 3) demo_expr = Ok (SBool False)"
  by (simp_all add: demo_expr_def demo_env_def AddI64_def EmptyRecord_def num_types_def cmp_types_def sem_num_def)

theorem qlEval_sem_witness:
  "qlEval (demo_env 7) ctx_zero demo_expr = Some \<lparr>ctx_out = BoolValue True, ctx_err = []\<rparr>"
  using qlEval_sem [OF demo_wf(2,1), of 7] demo_sem(1) by simp

theorem pExprOr_wf_witness: "\<exists>q e. expr_or 10 (parser_of ''a < 1 + b'') = Some (q, e) \<and> wf_expr e"
proof -
  have "in_range (parser_of ''a < 1 + b'')" "left_bytes (parser_of ''a < 1 + b'') < 10" by (simp_all add: parser_of_def left_bytes_def str_def)
  from total_parseD [OF expr_total(1) this] obtain q e where "expr_or 10 (parser_of ''a < 1 + b'') = Some (q, e)" by blast
  then show ?thesis using pExprOr_wf [of 10] by blast
qed

theorem QLEvalRecordBool_sem_witness:
  "QLEvalRecordBool (demo_env 7) demo_expr = Some [] \<and> QLEvalRecordBool (demo_env 3) demo_expr \<noteq> Some []"
  using QLEvalRecordBool_sem [OF demo_wf(2,1), of 7] QLEvalRecordBool_sem [OF demo_wf(2,1), of 3] demo_sem by (simp add: demo_expr_def)

end
