(* ===== verification/Json.thy ===== *)
theory Json
  imports Lexer
begin

text \<open>
  What the program uses of \<^verbatim>\<open>encoding/json\<close>: writing and reading slices of \<open>Value\<close> and table definitions. The
  writers follow \<open>json.Marshal\<close> to the byte (field order, base64 for byte slices, escapes in strings). The
  readers accept exactly the layout that the writers produce, which is all that the program ever reads
  back; any other text is an error. A nil and an empty slice are one list here: the byte slice of an
  integer value, which is always nil, is written as null, as are the columns and types of a table
  without columns.
\<close>

section \<open>Literals, numbers, lists\<close>

fun strip :: "bytes \<Rightarrow> bytes \<Rightarrow> bytes option" where
  "strip [] s = Some s"
| "strip (c # cs) (d # ds) = (if c = d then strip cs ds else None)"
| "strip (c # cs) [] = None"

abbreviation is_digit :: "byte \<Rightarrow> bool" where "is_digit c \<equiv> 48 \<le> c \<and> c \<le> 57"

definition json_nat :: "bytes \<Rightarrow> (nat \<times> bytes) option" where
  "json_nat s = (if takeWhile is_digit s = [] then None else Some (dec_val 0 (takeWhile is_digit s), dropWhile is_digit s))"

definition json_int :: "bytes \<Rightarrow> (i64 \<times> bytes) option" where
  "json_int s =
     (case strip (str ''-'') s of
        Some s \<Rightarrow> do { (n, s) \<leftarrow> json_nat s; if n \<le> 2 ^ 63 then Some (- of_nat n, s) else None }
      | None \<Rightarrow> do { (n, s) \<leftarrow> json_nat s; if n < 2 ^ 63 then Some (of_nat n, s) else None })"

definition json_u32 :: "bytes \<Rightarrow> (u32 \<times> bytes) option" where
  "json_u32 s = do { (n, s) \<leftarrow> json_nat s; if n < 2 ^ 32 then Some (of_nat n, s) else None }"

fun json_join :: "bytes list \<Rightarrow> bytes" where
  "json_join [] = []"
| "json_join [x] = x"
| "json_join (x # xs) = x @ str '','' @ json_join xs"

definition json_array :: "('a \<Rightarrow> bytes) \<Rightarrow> 'a list \<Rightarrow> bytes" where
  "json_array f xs = str ''['' @ json_join (map f xs) @ str '']''"

fun json_items :: "nat \<Rightarrow> (bytes \<Rightarrow> ('a \<times> bytes) option) \<Rightarrow> bytes \<Rightarrow> ('a list \<times> bytes) option" where
  "json_items 0 p s = None"
| "json_items (Suc n) p s = do {
     (x, s) \<leftarrow> p s;
     case strip (str '','') s of
       Some s \<Rightarrow> do { (xs, s) \<leftarrow> json_items n p s; Some (x # xs, s) }
     | None \<Rightarrow> do { s \<leftarrow> strip (str '']'') s; Some ([x], s) } }"

definition json_list :: "(bytes \<Rightarrow> ('a \<times> bytes) option) \<Rightarrow> bytes \<Rightarrow> ('a list \<times> bytes) option" where
  "json_list p s = do {
     s \<leftarrow> strip (str ''['') s;
     case strip (str '']'') s of Some s \<Rightarrow> Some ([], s) | None \<Rightarrow> json_items (length s) p s }"

section \<open>Base64\<close>

definition b64_char :: "nat \<Rightarrow> byte" where
  "b64_char n = (if n < 26 then of_nat (65 + n) else if n < 52 then of_nat (71 + n) else if n < 62 then of_nat (n - 4)
     else if n = 62 then 43 else 47)"

definition b64_val :: "byte \<Rightarrow> nat option" where
  "b64_val c = (let n = unat c in
     if 65 \<le> n \<and> n \<le> 90 then Some (n - 65) else if 97 \<le> n \<and> n \<le> 122 then Some (n - 71)
     else if 48 \<le> n \<and> n \<le> 57 then Some (n + 4) else if n = 43 then Some 62 else if n = 47 then Some 63 else None)"

fun b64_encode :: "bytes \<Rightarrow> bytes" where
  "b64_encode [] = []"
| "b64_encode [a] = [b64_char (unat a div 4), b64_char ((unat a mod 4) * 16), 61, 61]"
| "b64_encode [a, b] =
     [b64_char (unat a div 4), b64_char ((unat a mod 4) * 16 + unat b div 16), b64_char ((unat b mod 16) * 4), 61]"
| "b64_encode (a # b # c # s) =
     [b64_char (unat a div 4), b64_char ((unat a mod 4) * 16 + unat b div 16),
      b64_char ((unat b mod 16) * 4 + unat c div 64), b64_char (unat c mod 64)] @ b64_encode s"

fun b64_decode :: "bytes \<Rightarrow> bytes option" where
  "b64_decode [] = Some []"
| "b64_decode (w # x # y # z # s) =
     (if y = 61 then
        (if z = 61 \<and> s = [] then do { w \<leftarrow> b64_val w; x \<leftarrow> b64_val x; Some [of_nat (w * 4 + x div 16)] } else None)
      else if z = 61 then
        (if s = [] then do { w \<leftarrow> b64_val w; x \<leftarrow> b64_val x; y \<leftarrow> b64_val y;
           Some [of_nat (w * 4 + x div 16), of_nat ((x mod 16) * 16 + y div 4)] } else None)
      else do {
        w \<leftarrow> b64_val w; x \<leftarrow> b64_val x; y \<leftarrow> b64_val y; z \<leftarrow> b64_val z; r \<leftarrow> b64_decode s;
        Some ([of_nat (w * 4 + x div 16), of_nat ((x mod 16) * 16 + y div 4), of_nat ((y mod 4) * 64 + z)] @ r) })"
| "b64_decode s = None"

section \<open>Strings\<close>

text \<open>The length of the UTF-8 encoding of a rune at the front of the bytes, none when it is not valid.\<close>

definition utf8_cont :: "byte \<Rightarrow> bool" where
  "utf8_cont c \<longleftrightarrow> 0x80 \<le> c \<and> c \<le> 0xBF"

definition utf8_len :: "bytes \<Rightarrow> nat option" where
  "utf8_len s =
     (case s of
        [] \<Rightarrow> None
      | a # s1 \<Rightarrow>
          if a < 0x80 then Some 1
          else case s1 of
            [] \<Rightarrow> None
          | b # s2 \<Rightarrow>
              if 0xC2 \<le> a \<and> a \<le> 0xDF then (if utf8_cont b then Some 2 else None)
              else case s2 of
                [] \<Rightarrow> None
              | c # s3 \<Rightarrow>
                  if 0xE0 \<le> a \<and> a \<le> 0xEF then
                    (if utf8_cont b \<and> utf8_cont c \<and> (a = 0xE0 \<longrightarrow> 0xA0 \<le> b) \<and> (a = 0xED \<longrightarrow> b \<le> 0x9F) then Some 3 else None)
                  else case s3 of
                    [] \<Rightarrow> None
                  | d # s4 \<Rightarrow>
                      if 0xF0 \<le> a \<and> a \<le> 0xF4 \<and> utf8_cont b \<and> utf8_cont c \<and> utf8_cont d \<and> (a = 0xF0 \<longrightarrow> 0x90 \<le> b) \<and>
                         (a = 0xF4 \<longrightarrow> b \<le> 0x8F)
                      then Some 4 else None)"

definition hex_digit :: "nat \<Rightarrow> byte" where
  "hex_digit n = (if n < 10 then of_nat (48 + n) else of_nat (87 + n))"

definition escape_ascii :: "byte \<Rightarrow> bytes" where
  "escape_ascii c =
     (if c = 34 \<or> c = 92 then [92, c]
      else if c = 8 then [92, 98] else if c = 12 then [92, 102]
      else if c = 10 then [92, 110] else if c = 13 then [92, 114] else if c = 9 then [92, 116]
      else if c < 32 \<or> c = 60 \<or> c = 62 \<or> c = 38
      then [92, 117, 48, 48] @ [hex_digit (unat c div 16), hex_digit (unat c mod 16)]
      else [c])"

function json_escape :: "bytes \<Rightarrow> bytes" where
  "json_escape s =
     (case s of
        [] \<Rightarrow> []
      | c # cs \<Rightarrow>
          if c < 0x80 then escape_ascii c @ json_escape cs
          else case utf8_len s of
            None \<Rightarrow> [92, 117, 102, 102, 102, 100] @ json_escape cs
          | Some n \<Rightarrow>
              (if take n s = [0xE2, 0x80, 0xA8] then [92, 117, 50, 48, 50, 56]
               else if take n s = [0xE2, 0x80, 0xA9] then [92, 117, 50, 48, 50, 57] else take n s) @ json_escape (drop n s))"
  by pat_completeness auto
termination
  by (relation "measure length") (auto simp: utf8_len_def split: list.splits if_splits)

declare json_escape.simps [simp del]

definition json_string :: "bytes \<Rightarrow> bytes" where
  "json_string s = [34] @ json_escape s @ [34]"

text \<open>Reading a string: escapes of one letter and of four hexadecimal digits, up to the closing quote.\<close>

definition hex_val :: "byte \<Rightarrow> nat option" where
  "hex_val c = (let n = unat c in if 48 \<le> n \<and> n \<le> 57 then Some (n - 48) else if 97 \<le> n \<and> n \<le> 102 then Some (n - 87) else None)"

definition utf8_encode :: "nat \<Rightarrow> bytes" where
  "utf8_encode r =
     (if r < 0x80 then [of_nat r]
      else if r < 0x800 then [of_nat (0xC0 + r div 64), of_nat (0x80 + r mod 64)]
      else [of_nat (0xE0 + r div 4096), of_nat (0x80 + r div 64 mod 64), of_nat (0x80 + r mod 64)])"

fun json_unescape :: "bytes \<Rightarrow> (bytes \<times> bytes) option" where
  "json_unescape [] = None"
| "json_unescape (c # s) =
     (if c = 34 then Some ([], s)
      else if c \<noteq> 92 then do { (r, s) \<leftarrow> json_unescape s; Some (c # r, s) }
      else case s of
        e # s1 \<Rightarrow>
          if e = 34 \<or> e = 92 then do { (r, s) \<leftarrow> json_unescape s1; Some (e # r, s) }
          else if e = 98 then do { (r, s) \<leftarrow> json_unescape s1; Some (8 # r, s) }
          else if e = 102 then do { (r, s) \<leftarrow> json_unescape s1; Some (12 # r, s) }
          else if e = 110 then do { (r, s) \<leftarrow> json_unescape s1; Some (10 # r, s) }
          else if e = 114 then do { (r, s) \<leftarrow> json_unescape s1; Some (13 # r, s) }
          else if e = 116 then do { (r, s) \<leftarrow> json_unescape s1; Some (9 # r, s) }
          else if e = 117 then
            (case s1 of
               h1 # h2 # h3 # h4 # s2 \<Rightarrow> do {
                 h1 \<leftarrow> hex_val h1; h2 \<leftarrow> hex_val h2; h3 \<leftarrow> hex_val h3; h4 \<leftarrow> hex_val h4;
                 (r, s) \<leftarrow> json_unescape s2;
                 Some (utf8_encode (((h1 * 16 + h2) * 16 + h3) * 16 + h4) @ r, s) }
             | _ \<Rightarrow> None)
          else None
      | [] \<Rightarrow> None)"

definition json_read_string :: "bytes \<Rightarrow> (bytes \<times> bytes) option" where
  "json_read_string s = do { s \<leftarrow> strip [34] s; json_unescape s }"

section \<open>Values\<close>

definition json_value :: "Value \<Rightarrow> bytes" where
  "json_value v =
     str ''{\"type\":'' @ dec_digits (unat (v_Type v)) @ str '',\"int64\":'' @ Sprintf_d (v_I64 v) @ str '',\"str\":'' @
     (if v_Type v = TYPE_BYTES then [34] @ b64_encode (v_Str v) @ [34] else str ''null'') @ str ''}''"

definition json_bytes :: "bytes \<Rightarrow> (bytes \<times> bytes) option" where
  "json_bytes s =
     (case strip (str ''null'') s of
        Some s \<Rightarrow> Some ([], s)
      | None \<Rightarrow> do { (t, s) \<leftarrow> json_read_string s; b \<leftarrow> b64_decode t; Some (b, s) })"

definition json_read_value :: "bytes \<Rightarrow> (Value \<times> bytes) option" where
  "json_read_value s = do {
     s \<leftarrow> strip (str ''{\"type\":'') s;
     (t, s) \<leftarrow> json_u32 s;
     s \<leftarrow> strip (str '',\"int64\":'') s;
     (n, s) \<leftarrow> json_int s;
     s \<leftarrow> strip (str '',\"str\":'') s;
     (b, s) \<leftarrow> json_bytes s;
     s \<leftarrow> strip (str ''}'') s;
     Some (\<lparr>v_Type = t, v_I64 = n, v_Str = b\<rparr>, s) }"

definition EncodeVal :: "Value list \<Rightarrow> bytes" where
  "EncodeVal vals = json_array json_value vals"

text \<open>\<open>DecodeVal\<close> appends the values to the record under the columns after the primary key; it panics when
  there are more values than columns.\<close>

fun DecodeVal_loop :: "TableDef \<Rightarrow> Record \<Rightarrow> nat \<Rightarrow> Value list \<Rightarrow> Record option" where
  "DecodeVal_loop tdef rec i [] = Some rec"
| "DecodeVal_loop tdef rec i (val # vals) =
     (if i + td_Pkeys tdef < length (td_Cols tdef)
      then DecodeVal_loop tdef \<lparr>r_Cols = r_Cols rec @ [td_Cols tdef ! (i + td_Pkeys tdef)], r_Vals = r_Vals rec @ [val]\<rparr> (i + 1) vals
      else None)"

definition DecodeVal :: "TableDef \<Rightarrow> Record \<Rightarrow> bytes \<Rightarrow> (gostring + Record) option" where
  "DecodeVal tdef rec val =
     (case json_list json_read_value val of
        Some (decodedVals, []) \<Rightarrow> map_option Inr (DecodeVal_loop tdef rec 0 decodedVals)
      | _ \<Rightarrow> Some (Inl (str ''unmashaing value into record'')))"

section \<open>Table definitions\<close>

definition json_slice :: "('a \<Rightarrow> bytes) \<Rightarrow> 'a list \<Rightarrow> bytes" where
  "json_slice f xs = (if xs = [] then str ''null'' else json_array f xs)"

definition json_read_slice :: "(bytes \<Rightarrow> ('a \<times> bytes) option) \<Rightarrow> bytes \<Rightarrow> ('a list \<times> bytes) option" where
  "json_read_slice p s = (case strip (str ''null'') s of Some s \<Rightarrow> Some ([], s) | None \<Rightarrow> json_list p s)"

definition json_u32_digits :: "u32 \<Rightarrow> bytes" where
  "json_u32_digits t = dec_digits (unat t)"

definition json_tdef :: "TableDef \<Rightarrow> bytes" where
  "json_tdef t =
     str ''{\"name\":'' @ json_string (td_Name t) @ str '',\"cols\":'' @ json_slice json_string (td_Cols t) @
     str '',\"types\":'' @ json_slice json_u32_digits (td_Types t) @ str '',\"pkeys\":'' @ dec_digits (td_Pkeys t) @
     str '',\"prefixes\":'' @ json_array json_u32_digits (td_Prefixes t) @
     str '',\"indexes\":'' @ json_array (json_array json_string) (td_Indexes t) @ str ''}''"

definition json_read_tdef :: "bytes \<Rightarrow> TableDef option" where
  "json_read_tdef s = do {
     s \<leftarrow> strip (str ''{\"name\":'') s; (nm, s) \<leftarrow> json_read_string s;
     s \<leftarrow> strip (str '',\"cols\":'') s; (cols, s) \<leftarrow> json_read_slice json_read_string s;
     s \<leftarrow> strip (str '',\"types\":'') s; (types, s) \<leftarrow> json_read_slice json_u32 s;
     s \<leftarrow> strip (str '',\"pkeys\":'') s; (pkeys, s) \<leftarrow> json_nat s;
     s \<leftarrow> strip (str '',\"prefixes\":'') s; (prefixes, s) \<leftarrow> json_list json_u32 s;
     s \<leftarrow> strip (str '',\"indexes\":'') s; (indexes, s) \<leftarrow> json_list (json_list json_read_string) s;
     s \<leftarrow> strip (str ''}'') s;
     if s = [] then Some \<lparr>td_Name = nm, td_Cols = cols, td_Types = types, td_Pkeys = pkeys, td_Prefixes = prefixes, td_Indexes = indexes\<rparr>
     else None }"

end
