(* ===== verification/Json_Correct.thy ===== *)
theory Json_Correct
  imports Json
begin

text \<open>
  The codec reads back what it writes: the values of a row, and table definitions whose names need no
  escape in a string. Both are instances of one interface, a writer and a reader of a type.
\<close>

text \<open>What may follow a token in the layout: the end, or a byte that ends a number.\<close>

definition follows :: "bytes \<Rightarrow> bool" where
  "follows r \<longleftrightarrow> (r = [] \<or> \<not> is_digit (hd r))"

section \<open>The interface of a writer and its reader\<close>

locale json_codec =
  fixes put :: "'a \<Rightarrow> bytes" and get :: "bytes \<Rightarrow> ('a \<times> bytes) option" and ok :: "'a \<Rightarrow> bool"
  assumes get_put: "ok x \<Longrightarrow> follows r \<Longrightarrow> get (put x @ r) = Some (x, r)"
    and no_bracket: "ok x \<Longrightarrow> strip (str '']'') (put x @ r) = None"

lemma strip_append [simp]: "strip l (l @ s) = Some s"
  by (induction l) simp_all

lemma str_Cons: "str (c # cs) = of_char c # str cs" "str [] = []"
  by (simp_all add: str_def)

lemma follows_str: "follows (str '','' @ r)" "follows (str '']'' @ r)" "follows (str ''}'' @ r)" "follows []"
  by (simp_all add: follows_def str_def)

context json_codec
begin

lemma json_items_join:
  assumes "xs \<noteq> []" "\<forall>x \<in> set xs. ok x" "length xs \<le> n"
  shows "json_items n get (json_join (map put xs) @ str '']'' @ r) = Some (xs, r)"
  using assms
proof (induction xs arbitrary: n)
  case (Cons x xs)
  then obtain m where n: "n = Suc m" by (cases n) auto
  show ?case
  proof (cases xs)
    case Nil
    have "get (put x @ str '']'' @ r) = Some (x, str '']'' @ r)" using Cons.prems(2) follows_str by (intro get_put) auto
    moreover have "strip (str '','') (str '']'' @ r) = None" by (simp add: str_def)
    ultimately show ?thesis using n Nil by simp
  next
    case (Cons y ys)
    have "get (put x @ str '','' @ json_join (map put xs) @ str '']'' @ r) = Some (x, str '','' @ json_join (map put xs) @ str '']'' @ r)"
      using Cons.prems(2) follows_str by (intro get_put) auto
    moreover have "json_items m get (json_join (map put xs) @ str '']'' @ r) = Some (xs, r)"
      using Cons.IH [of m] Cons.prems n Cons by simp
    ultimately show ?thesis using n Cons by simp
  qed
qed simp

lemma json_list_array:
  assumes "\<forall>x \<in> set xs. ok x"
  shows "json_list get (json_array put xs @ r) = Some (xs, r)"
proof (cases xs)
  case Nil
  then show ?thesis by (simp add: json_list_def json_array_def)
next
  case (Cons y ys)
  have "json_join (map put xs) @ str '']'' @ r = put y @ (case ys of [] \<Rightarrow> [] | _ \<Rightarrow> str '','' @ json_join (map put ys)) @ str '']'' @ r"
    using Cons by (simp split: list.split)
  then have "strip (str '']'') (json_join (map put xs) @ str '']'' @ r) = None"
    using no_bracket assms Cons by simp
  moreover have "length xs \<le> length (json_join (map put xs) @ str '']'' @ r)"
  proof -
    have "length zs \<le> Suc (length (json_join zs))" for zs
      by (induction zs rule: induct_list012) (simp_all add: str_def)
    from this [of "map put xs"] show ?thesis by (simp add: str_def)
  qed
  ultimately show ?thesis
    using json_items_join [of xs "length (json_join (map put xs) @ str '']'' @ r)" r] assms Cons
    by (simp add: json_list_def json_array_def)
qed

lemma array_codec: "json_codec (json_array put) (json_list get) (\<lambda>xs. \<forall>x \<in> set xs. ok x)"
proof
  show "strip (str '']'') (json_array put xs @ r) = None" for xs r by (simp add: json_array_def str_def)
qed (rule json_list_array)

end

section \<open>Numbers\<close>

lemma dec_digits_digits: "c \<in> set (dec_digits n) \<Longrightarrow> is_digit c"
proof (induction n rule: dec_digits.induct)
  case (1 n)
  have d: "is_digit (of_nat (48 + m))" if "m < 10" for m
  proof -
    have "unat (of_nat (48 + m) :: byte) = 48 + m" using that by (simp only: unat_of_nat) simp
    then show ?thesis using that by (simp add: word_le_nat_alt del: of_nat_add)
  qed
  show ?case using 1 d [of n] d [of "n mod 10"] by (subst (asm) dec_digits.simps) (auto split: if_splits)
qed

lemma dec_val_append: "dec_val a (s @ t) = dec_val (dec_val a s) t"
  by (induction s arbitrary: a) simp_all

lemma dec_val_digits: "dec_val 0 (dec_digits n) = n"
proof (induction n rule: dec_digits.induct)
  case (1 n)
  have d: "unat (of_nat (48 + m) :: byte) - 48 = m" if "m < 10" for m using that by (simp only: unat_of_nat) simp
  show ?case
    using 1 d [of n] d [of "n mod 10"] by (subst dec_digits.simps) (simp add: dec_val_append del: of_nat_add)
qed

lemma dec_digits_not_Nil [simp]: "dec_digits n \<noteq> []"
  by (subst dec_digits.simps) simp

lemma json_nat_digits: "follows r \<Longrightarrow> json_nat (dec_digits n @ r) = Some (n, r)"
proof -
  assume r: "follows r"
  have *: "takeWhile is_digit r = []" "dropWhile is_digit r = r"
  proof -
    have "r = [] \<or> (\<exists>c s. r = c # s \<and> \<not> is_digit c)" using r by (cases r) (simp_all only: follows_def list.sel simp_thms list.simps, blast)
    then show "takeWhile is_digit r = []" "dropWhile is_digit r = r" by (elim disjE exE; simp only: takeWhile.simps dropWhile.simps conj_assoc if_False simp_thms)+
  qed
  have "takeWhile is_digit (dec_digits n @ r) = dec_digits n @ takeWhile is_digit r"
    by (rule takeWhile_append2) (rule dec_digits_digits)
  moreover have "dropWhile is_digit (dec_digits n @ r) = dropWhile is_digit r"
    by (rule dropWhile_append2) (rule dec_digits_digits)
  ultimately have "takeWhile is_digit (dec_digits n @ r) = dec_digits n" "dropWhile is_digit (dec_digits n @ r) = r"
    using * by simp_all
  then show ?thesis by (simp add: json_nat_def dec_val_digits)
qed

lemma json_u32_read: "follows r \<Longrightarrow> json_u32 (dec_digits (unat t) @ r) = Some (t, r)"
  using unsigned_less [where 'a = nat, of t] by (simp add: json_u32_def json_nat_digits)

lemma strip_digit: "is_digit (hd s) \<Longrightarrow> s \<noteq> [] \<Longrightarrow> c < 48 \<or> 57 < c \<Longrightarrow> strip (c # cs) (s @ r) = None"
  by (cases s) (auto simp: word_less_nat_alt word_le_nat_alt)

lemma hd_dec_digits: "is_digit (hd (dec_digits n))"
  using dec_digits_digits [of "hd (dec_digits n)" n] by simp

lemma json_int_Sprintf: "follows r \<Longrightarrow> json_int (Sprintf_d n @ r) = Some (n, r)"
proof -
  assume r: "follows r"
  have b: "- (2 ^ 63) \<le> sint n" "sint n < 2 ^ 63" using sint_ge [of n] sint_lt [of n] by simp_all
  show ?thesis
  proof (cases "sint n < 0")
    case True
    have "(- of_nat (nat (- sint n)) :: i64) = n" using True by (simp add: of_nat_nat)
    moreover have "nat (- sint n) \<le> 2 ^ 63"
    proof -
      have "- sint n \<le> int (2 ^ 63)" using b(1) by simp
      then show ?thesis by linarith
    qed
    ultimately show ?thesis using True r by (simp add: json_int_def Sprintf_d_def json_nat_digits)
  next
    case False
    have "(of_nat (nat (sint n)) :: i64) = n" using False by (simp add: of_nat_nat)
    moreover have "nat (sint n) < 2 ^ 63"
    proof -
      have "sint n < int (2 ^ 63)" using b(2) by simp
      then show ?thesis using False by linarith
    qed
    moreover have "strip (str ''-'') (dec_digits (nat (sint n)) @ r) = None"
      using strip_digit [OF hd_dec_digits] by (simp add: str_def)
    ultimately show ?thesis using False r by (simp add: json_int_def Sprintf_d_def json_nat_digits)
  qed
qed

section \<open>Byte slices and strings\<close>

lemma b64_val_char: "n < 64 \<Longrightarrow> b64_val (b64_char n) = Some n"
proof -
  have "list_all (\<lambda>n. b64_val (b64_char n) = Some n) [0..<64]" by code_simp
  then show "n < 64 \<Longrightarrow> b64_val (b64_char n) = Some n" by (auto simp: list_all_iff)
qed

lemma b64_char_plain: "n < 64 \<Longrightarrow> b64_char n \<noteq> 61 \<and> b64_char n \<noteq> 34 \<and> b64_char n \<noteq> 92"
proof -
  have "list_all (\<lambda>n. b64_char n \<noteq> 61 \<and> b64_char n \<noteq> 34 \<and> b64_char n \<noteq> 92) [0..<64]" by code_simp
  then show "n < 64 \<Longrightarrow> ?thesis" by (auto simp: list_all_iff)
qed

lemma byte_div: "unat (a :: byte) div 4 < 64" "(unat a mod 4) * 16 + unat (b :: byte) div 16 < 64"
  "(unat b mod 16) * 4 + unat (c :: byte) div 64 < 64" "unat c mod 64 < 64" "(unat a mod 4) * 16 < 64" "(unat b mod 16) * 4 < 64"
  using unsigned_less [where 'a = nat, of a] unsigned_less [where 'a = nat, of b] unsigned_less [where 'a = nat, of c] by simp_all

lemma b64_join: "unat (a :: byte) div 4 * 4 + ((unat a mod 4) * 16 + unat (b :: byte) div 16) div 16 = unat a"
  "((unat a mod 4) * 16 + unat b div 16) mod 16 * 16 + ((unat b mod 16) * 4 + unat (c :: byte) div 64) div 4 = unat b"
  "((unat b mod 16) * 4 + unat c div 64) mod 4 * 64 + unat c mod 64 = unat c"
  "unat a div 4 * 4 + (unat a mod 4) * 16 div 16 = unat a"
  "((unat a mod 4) * 16 + unat b div 16) mod 16 * 16 + (unat b mod 16) * 4 div 4 = unat b"
  using unsigned_less [where 'a = nat, of a] unsigned_less [where 'a = nat, of b] unsigned_less [where 'a = nat, of c] by simp_all

lemma b64_roundtrip: "b64_decode (b64_encode s) = Some s"
proof (induction s rule: b64_encode.induct)
  case (2 a)
  then show ?case using byte_div(1) [of a] byte_div(5) [of a] b64_join(4) [of a] by (simp add: b64_val_char b64_char_plain del: of_nat_add)
next
  case (3 a b)
  then show ?case using byte_div(1) [of a] byte_div(2) [of a b] byte_div(6) [of b] b64_join(1) [of a b] b64_join(5) [of a b]
    by (simp add: b64_val_char b64_char_plain del: of_nat_add of_nat_mult)
next
  case (4 a b c s)
  then show ?case using byte_div(1) [of a] byte_div(2) [of a b] byte_div(3) [of b c] byte_div(4) [of c] b64_join(1) [of a b] b64_join(2) [of a b c] b64_join(3) [of b c]
    by (simp add: b64_val_char b64_char_plain del: of_nat_add of_nat_mult)
qed simp

definition plain_byte :: "byte \<Rightarrow> bool" where
  "plain_byte c \<longleftrightarrow> c \<noteq> 34 \<and> c \<noteq> 92"

lemma b64_plain: "c \<in> set (b64_encode s) \<Longrightarrow> plain_byte c"
  using byte_div b64_char_plain by (induction s rule: b64_encode.induct) (auto simp: plain_byte_def)

lemma json_unescape_plain: "\<forall>c \<in> set s. plain_byte c \<Longrightarrow> json_unescape (s @ 34 # r) = Some (s, r)"
  by (induction s) (simp_all add: plain_byte_def)

lemma json_bytes_b64: "json_bytes ([34] @ b64_encode s @ [34] @ r) = Some (s, r)"
  using json_unescape_plain [of "b64_encode s" r] b64_plain
  by (simp add: json_bytes_def json_read_string_def str_def b64_roundtrip)

section \<open>Values\<close>

definition json_ok :: "Value \<Rightarrow> bool" where
  "json_ok v \<longleftrightarrow> v_Type v = TYPE_BYTES \<or> v_Str v = []"

lemma json_read_value_roundtrip:
  assumes "json_ok v"
  shows "json_read_value (json_value v @ r) = Some (v, r)"
proof -
  have c: "follows (str '',\"int64\":'' @ s)" "follows (str '',\"str\":'' @ s)" for s by (simp_all add: follows_def str_def)
  have b: "json_bytes ((if v_Type v = TYPE_BYTES then [34] @ b64_encode (v_Str v) @ [34] else str ''null'') @ s) = Some (v_Str v, s)" for s
  proof (cases "v_Type v = TYPE_BYTES")
    case True
    then show ?thesis using json_bytes_b64 [of "v_Str v" s] by (simp only: True if_True simp_thms append_assoc)
  next
    case False
    then have "v_Str v = []" using assms by (simp add: json_ok_def)
    then show ?thesis using False by (simp only: if_False) (simp add: json_bytes_def)
  qed
  show ?thesis
    unfolding json_read_value_def json_value_def append_assoc
    by (simp only: strip_append Option.bind.simps json_u32_read [OF c(1)] json_int_Sprintf [OF c(2)] b prod.case) simp
qed

interpretation val: json_codec json_value json_read_value json_ok
  by unfold_locales (simp_all only: json_read_value_roundtrip, simp add: json_value_def str_def)

section \<open>Names\<close>

text \<open>Bytes that \<open>json.Marshal\<close> writes as they are: printable ASCII without the quote, the backslash and the
  three characters of HTML.\<close>

definition name_byte :: "byte \<Rightarrow> bool" where
  "name_byte c \<longleftrightarrow> 32 \<le> c \<and> c < 128 \<and> c \<notin> {34, 92, 60, 62, 38}"

definition json_name :: "gostring \<Rightarrow> bool" where
  "json_name s \<longleftrightarrow> (\<forall>c \<in> set s. name_byte c)"

lemma escape_name_byte: "name_byte c \<Longrightarrow> escape_ascii c = [c]"
  by (auto simp: name_byte_def escape_ascii_def word_less_nat_alt word_le_nat_alt)

lemma json_escape_name: "json_name s \<Longrightarrow> json_escape s = s"
proof (induction s)
  case Nil
  then show ?case by (subst json_escape.simps) simp
next
  case (Cons c s)
  then have c: "name_byte c" "json_name s" by (simp_all add: json_name_def)
  then have "c < 0x80" "escape_ascii c = [c]" by (simp_all add: name_byte_def escape_name_byte)
  with Cons.IH c(2) show ?case by (subst json_escape.simps) simp
qed

lemma json_name_plain: "json_name s \<Longrightarrow> \<forall>c \<in> set s. plain_byte c"
  by (simp add: json_name_def name_byte_def plain_byte_def)

lemma json_read_name: "json_name s \<Longrightarrow> json_read_string (json_string s @ r) = Some (s, r)"
  using json_unescape_plain [OF json_name_plain, of s r] by (simp add: json_read_string_def json_string_def json_escape_name)

interpretation nam: json_codec json_string json_read_string json_name
  by unfold_locales (simp_all add: json_read_name, simp add: json_string_def str_def)

interpretation num: json_codec json_u32_digits json_u32 "\<lambda>_. True"
proof unfold_locales
  show "strip (str '']'') (json_u32_digits x @ r) = None" for x r
    using strip_digit [OF hd_dec_digits] by (simp add: json_u32_digits_def str_def)
qed (simp add: json_u32_digits_def json_u32_read)

interpretation nams: json_codec "json_array json_string" "json_list json_read_string" "\<lambda>xs. \<forall>x \<in> set xs. json_name x"
  by (rule nam.array_codec)

section \<open>The table definitions and rows\<close>

definition tdef_names :: "TableDef \<Rightarrow> bool" where
  "tdef_names t \<longleftrightarrow> json_name (td_Name t) \<and> (\<forall>c \<in> set (td_Cols t). json_name c) \<and> (\<forall>i \<in> set (td_Indexes t). \<forall>c \<in> set i. json_name c)"

lemma json_read_slice_put:
  assumes "json_codec f g ok" "\<forall>x \<in> set xs. ok x"
  shows "json_read_slice g (json_slice f xs @ r) = Some (xs, r)"
proof (cases "xs = []")
  case False
  have "strip (str ''null'') (json_array f xs @ r) = None" by (simp add: json_array_def str_def)
  then show ?thesis using False json_codec.json_list_array [OF assms] by (simp only: json_read_slice_def json_slice_def if_False option.case)
qed (simp add: json_read_slice_def json_slice_def)

lemma json_read_tdef_put: "tdef_names t \<Longrightarrow> json_read_tdef (json_tdef t) = Some t"
proof -
  assume t: "tdef_names t"
  have f: "follows (str '',\"prefixes\":'' @ s)" for s by (simp add: follows_def str_def)
  note slices = json_read_slice_put [OF nam.json_codec_axioms] json_read_slice_put [OF num.json_codec_axioms]
  show ?thesis
    using t unfolding json_read_tdef_def json_tdef_def append_assoc tdef_names_def
    by (simp add: json_read_name slices num.json_list_array nams.json_list_array json_nat_digits [OF f])
      (simp add: str_def)
qed

lemma DecodeVal_loop_take:
  "i + td_Pkeys tdef + length vals \<le> length (td_Cols tdef) \<Longrightarrow>
   DecodeVal_loop tdef rec i vals = Some \<lparr>r_Cols = r_Cols rec @ take (length vals) (drop (i + td_Pkeys tdef) (td_Cols tdef)), r_Vals = r_Vals rec @ vals\<rparr>"
proof (induction tdef rec i vals rule: DecodeVal_loop.induct)
  case (2 tdef rec i val vals)
  then show ?case by (simp add: Cons_nth_drop_Suc [symmetric])
qed simp

lemma DecodeVal_loop_None:
  "vals \<noteq> [] \<Longrightarrow> length (td_Cols tdef) < i + td_Pkeys tdef + length vals \<Longrightarrow> DecodeVal_loop tdef rec i vals = None"
proof (induction tdef rec i vals rule: DecodeVal_loop.induct)
  case (2 tdef rec i val vals)
  then show ?case by (cases "vals = []") auto
qed simp

lemma DecodeVal_encoded:
  assumes "\<forall>v \<in> set vals. json_ok v"
  shows "DecodeVal tdef rec (EncodeVal vals) =
    (if vals = [] \<or> td_Pkeys tdef + length vals \<le> length (td_Cols tdef)
     then Some (Inr \<lparr>r_Cols = r_Cols rec @ take (length vals) (drop (td_Pkeys tdef) (td_Cols tdef)), r_Vals = r_Vals rec @ vals\<rparr>)
     else None)"
proof -
  have "json_list json_read_value (EncodeVal vals) = Some (vals, [])"
    using val.json_list_array [of vals "[]"] assms by (simp add: EncodeVal_def)
  then show ?thesis
    using DecodeVal_loop_take [of 0 tdef vals rec] DecodeVal_loop_None [of vals tdef 0 rec] by (auto simp: DecodeVal_def)
qed

text \<open>C14: A row round-trips through its encoding: decoding the encoded values adds them to the record under
  the columns after the primary key. Only a row with more values than such columns makes the decoder panic.\<close>

theorem DecodeVal_EncodeVal:
  assumes "\<forall>v \<in> set vals. json_ok v"
  shows "DecodeVal tdef rec (EncodeVal vals) =
    (if vals = [] \<or> td_Pkeys tdef + length vals \<le> length (td_Cols tdef)
     then Some (Inr \<lparr>r_Cols = r_Cols rec @ take (length vals) (drop (td_Pkeys tdef) (td_Cols tdef)), r_Vals = r_Vals rec @ vals\<rparr>)
     else None)"
  using assms by (rule DecodeVal_encoded)

theorem DecodeVal_EncodeVal_witness:
  "DecodeVal \<lparr>td_Name = str ''t'', td_Cols = [str ''id'', str ''name'', str ''age''], td_Types = [TYPE_INT64, TYPE_BYTES, TYPE_INT64], td_Pkeys = 1,
      td_Prefixes = [5], td_Indexes = []\<rparr> \<lparr>r_Cols = [str ''id''], r_Vals = [\<lparr>v_Type = TYPE_INT64, v_I64 = 7, v_Str = []\<rparr>]\<rparr> (EncodeVal [\<lparr>v_Type = TYPE_BYTES, v_I64 = 0, v_Str = str ''bob''\<rparr>, \<lparr>v_Type = TYPE_INT64, v_I64 = (- 4), v_Str = []\<rparr>]) =
   Some (Inr \<lparr>r_Cols = [str ''id'', str ''name'', str ''age''], r_Vals = [\<lparr>v_Type = TYPE_INT64, v_I64 = 7, v_Str = []\<rparr>, \<lparr>v_Type = TYPE_BYTES, v_I64 = 0, v_Str = str ''bob''\<rparr>, \<lparr>v_Type = TYPE_INT64, v_I64 = (- 4), v_Str = []\<rparr>]\<rparr>)"
  by (subst DecodeVal_EncodeVal) (simp_all add: json_ok_def)

end
