(* ===== verification/Db.thy ===== *)
theory Db
  imports Txn Secondary_Index Json_Correct
begin

text \<open>
  The tables (\<^verbatim>\<open>db/db.go\<close>): rows over a transaction of the key-value store, the catalogue of table
  definitions, and scanners over the primary key or a secondary index. The pointers \<open>tx.db.kv\<close> and \<open>tx.kv\<close> are
  the two fields of \<open>DBTX\<close>; a function that takes a pointer to a record returns the record it leaves there.
  \<open>None\<close> is a panic. The height of the trees bounds every descent and is the argument \<open>fuel\<close>; \<open>n\<close> bounds the
  one loop that need not end.
\<close>

record DB =
  db_Path :: gostring
  db_kv :: KV

record DBTX =
  dtx_kv :: KVTX
  dtx_db :: DB

definition NewDB :: "gostring \<Rightarrow> KV \<Rightarrow> DB" where
  "NewDB path kv = \<lparr>db_Path = path, db_kv = kv\<rparr>"

text \<open>\<open>NewTX\<close> leaves the pointer to the database nil; \<open>Begin\<close> sets it.\<close>

definition DB_Begin :: "DB \<Rightarrow> KVTX \<Rightarrow> DBTX" where
  "DB_Begin db tx = \<lparr>dtx_kv = Begin (db_kv db) tx, dtx_db = db\<rparr>"

definition DB_Commit :: "nat \<Rightarrow> Sys \<Rightarrow> u64 list \<Rightarrow> gostring list \<Rightarrow> gostring list \<Rightarrow> DB \<Rightarrow> DBTX \<Rightarrow> (DB \<times> gostring option) option" where
  "DB_Commit fuel sys order worder dorder db tx =
     map_option (map_prod (\<lambda>kv. db\<lparr>db_kv := kv\<rparr>) id) (Commit fuel sys order worder dorder (db_kv db) (dtx_kv tx))"

definition DB_Abort :: "DB \<Rightarrow> DBTX \<Rightarrow> DB option" where
  "DB_Abort db tx = map_option (\<lambda>kv. db\<lparr>db_kv := kv\<rparr>) (Abort (db_kv db) (dtx_kv tx))"

section \<open>The operations of the transaction\<close>

definition tx_get :: "nat \<Rightarrow> DBTX \<Rightarrow> bytes \<Rightarrow> (DBTX \<times> (gostring + bytes)) option" where
  "tx_get fuel tx key = map_option (map_prod (\<lambda>kv. tx\<lparr>dtx_kv := kv\<rparr>) id) (KVTX_Get fuel (db_kv (dtx_db tx)) (dtx_kv tx) key)"

definition tx_set :: "nat \<Rightarrow> DBTX \<Rightarrow> bytes \<Rightarrow> bytes \<Rightarrow> DBTX option" where
  "tx_set fuel tx key val = map_option (\<lambda>kv. tx\<lparr>dtx_kv := kv\<rparr>) (KVTX_Set fuel (dtx_kv tx) key val)"

definition tx_del :: "nat \<Rightarrow> DBTX \<Rightarrow> bytes \<Rightarrow> (DBTX \<times> bool) option" where
  "tx_del fuel tx key = map_option (map_prod (\<lambda>kv. tx\<lparr>dtx_kv := kv\<rparr>) id) (KVTX_Del fuel (dtx_kv tx) key)"

section \<open>Rows\<close>

text \<open>\<open>types.EncodeKey(tdef.Prefixes[0], values[:tdef.Pkeys])\<close>, the key of a row.\<close>

definition row_key :: "TableDef \<Rightarrow> Value list \<Rightarrow> bytes option" where
  "row_key tdef values = do {
     prefix \<leftarrow> go_nth (td_Prefixes tdef) 0;
     if td_Pkeys tdef \<le> length values then EncodeKey prefix (take (td_Pkeys tdef) values) else None }"

text \<open>\<open>dbGet\<close> answers an error or adds the decoded columns to the record.\<close>

definition dbGet :: "nat \<Rightarrow> DBTX \<Rightarrow> TableDef \<Rightarrow> Record \<Rightarrow> (DBTX \<times> (gostring + Record)) option" where
  "dbGet fuel tx tdef rec =
     (case GetRecordVals tdef rec (td_Pkeys tdef) of
        Inl err \<Rightarrow> Some (tx, Inl (str ''getting record values: '' @ err))
      | Inr values \<Rightarrow> do {
          key \<leftarrow> row_key tdef values;
          (tx, r) \<leftarrow> tx_get fuel tx key;
          case r of
            Inl err \<Rightarrow> Some (tx, Inl (str ''getting key('' @ key @ str ''): '' @ err))
          | Inr val \<Rightarrow> do {
              d \<leftarrow> DecodeVal tdef rec val;
              case d of
                Inl err \<Rightarrow> Some (tx, Inl (str ''decoding values: '' @ err))
              | Inr rec \<Rightarrow> Some (tx, Inr rec) } })"

fun set_keys :: "nat \<Rightarrow> DBTX \<Rightarrow> bytes list \<Rightarrow> DBTX option" where
  "set_keys fuel tx [] = Some tx"
| "set_keys fuel tx (k # keys) = do { tx \<leftarrow> tx_set fuel tx k []; set_keys fuel tx keys }"

definition dbSet :: "nat \<Rightarrow> DBTX \<Rightarrow> TableDef \<Rightarrow> Record \<Rightarrow> (DBTX \<times> gostring option) option" where
  "dbSet fuel tx tdef rec =
     (case GetRecordVals tdef rec (td_Pkeys tdef) of
        Inl err \<Rightarrow> Some (tx, Some (str ''getting record values: '' @ err))
      | Inr values \<Rightarrow> do {
          key \<leftarrow> row_key tdef values;
          tx \<leftarrow> tx_set fuel tx key (EncodeVal (drop (td_Pkeys tdef) values));
          if length (td_Indexes tdef) > 1 then do {
            (rec, keys) \<leftarrow> GetSecondaryIndexesKeys tdef rec;
            tx \<leftarrow> set_keys fuel tx keys;
            Some (tx, None) }
          else Some (tx, None) })"

fun del_keys :: "nat \<Rightarrow> DBTX \<Rightarrow> bytes list \<Rightarrow> (DBTX \<times> bool) option" where
  "del_keys fuel tx [] = Some (tx, True)"
| "del_keys fuel tx (k # keys) = do {
     (tx, ok) \<leftarrow> tx_del fuel tx k;
     if ok then del_keys fuel tx keys else Some (tx, False) }"

definition dbDel :: "nat \<Rightarrow> DBTX \<Rightarrow> TableDef \<Rightarrow> Record \<Rightarrow> (DBTX \<times> bool) option" where
  "dbDel fuel tx tdef rec =
     (case GetRecordVals tdef rec (td_Pkeys tdef) of
        Inl err \<Rightarrow> Some (tx, False)
      | Inr values \<Rightarrow> do {
          key \<leftarrow> row_key tdef values;
          (tx, r) \<leftarrow> dbGet fuel tx tdef rec;
          case r of
            Inl err \<Rightarrow> Some (tx, False)
          | Inr rec \<Rightarrow>
              if length (td_Indexes tdef) > 1 then do {
                (rec, keys) \<leftarrow> GetSecondaryIndexesKeys tdef rec;
                (tx, ok) \<leftarrow> del_keys fuel tx keys;
                if ok then tx_del fuel tx key else Some (tx, False) }
              else tx_del fuel tx key })"

section \<open>The catalogue\<close>

definition GetTableDef :: "nat \<Rightarrow> DBTX \<Rightarrow> gostring \<Rightarrow> (DBTX \<times> (gostring + TableDef)) option" where
  "GetTableDef fuel tx table =
     (if table = str ''@table'' then Some (tx, Inr TDEF_TABLE)
      else if table = str ''@meta'' then Some (tx, Inr TDEF_META)
      else do {
        (tx, r) \<leftarrow> dbGet fuel tx TDEF_TABLE (AddStr EmptyRecord (str ''name'') table);
        case r of
          Inl err \<Rightarrow> Some (tx, Inl (str ''getting table definition: '' @ err))
        | Inr rec \<Rightarrow> do {
            p \<leftarrow> Record_Get rec (str ''def'');
            i \<leftarrow> p;
            case json_read_tdef (v_Str (r_Vals rec ! i)) of
              None \<Rightarrow> Some (tx, Inl (str ''decoding table definition''))
            | Some tdef \<Rightarrow> Some (tx, Inr tdef) } })"

text \<open>\<open>TableNew\<close> changes the definition it is given: it returns it with the prefixes it chose. The count of
  the prefixes taken so far is an \<open>int64\<close>, a prefix is its low 32 bits.\<close>

definition TableNew :: "nat \<Rightarrow> DBTX \<Rightarrow> TableDef \<Rightarrow> (DBTX \<times> TableDef \<times> gostring option) option" where
  "TableNew fuel tx tdef = do {
     let rec = AddStr EmptyRecord (str ''name'') (td_Name tdef);
     recpks \<leftarrow> GetPKs rec (td_Pkeys tdef);
     (tx, r) \<leftarrow> dbGet fuel tx TDEF_TABLE recpks;
     case r of
       Inr _ \<Rightarrow> Some (tx, tdef, Some (str ''table already exists''))
     | Inl _ \<Rightarrow> do {
         let prefixrec = AddStr EmptyRecord (str ''key'') (str ''prefix'');
         (tx, r) \<leftarrow> dbGet fuel tx TDEF_META prefixrec;
         (prefixrec, curPrefix) \<leftarrow> (case r of
            Inl _ \<Rightarrow> Some (prefixrec, 3)
          | Inr prefixrec \<Rightarrow> do { p \<leftarrow> Record_Get prefixrec (str ''value''); i \<leftarrow> p; Some (prefixrec, v_I64 (r_Vals prefixrec ! i)) });
         let k = length (td_Indexes tdef);
         let Prefixes = map (\<lambda>i. word_of_int (sint (curPrefix + of_nat i))) [0..<k];
         let tdef = tdef\<lparr>td_Prefixes := Prefixes\<rparr>;
         (tx, _) \<leftarrow> dbSet fuel tx TDEF_META (AddI64 prefixrec (str ''data'') (curPrefix + of_nat k));
         (tx, _) \<leftarrow> dbSet fuel tx TDEF_TABLE (AddStr rec (str ''def'') (json_tdef tdef));
         Some (tx, tdef, None) } }"

section \<open>The operations on a table\<close>

definition DBTX_Get :: "nat \<Rightarrow> DBTX \<Rightarrow> gostring \<Rightarrow> Record \<Rightarrow> (DBTX \<times> (gostring + Record)) option" where
  "DBTX_Get fuel tx table rec = do {
     (tx, r) \<leftarrow> GetTableDef fuel tx table;
     case r of Inl err \<Rightarrow> Some (tx, Inl err) | Inr tdef \<Rightarrow> dbGet fuel tx tdef rec }"

text \<open>The loop of \<open>Insert\<close> over \<open>rec.Vals[:tdef.Pkeys]\<close> copies what \<open>GetPKs\<close> copies.\<close>

definition DBTX_Insert :: "nat \<Rightarrow> DBTX \<Rightarrow> gostring \<Rightarrow> Record \<Rightarrow> (DBTX \<times> gostring option) option" where
  "DBTX_Insert fuel tx table rec = do {
     (tx, r) \<leftarrow> GetTableDef fuel tx table;
     case r of
       Inl err \<Rightarrow> Some (tx, Some err)
     | Inr tdef \<Rightarrow> do {
         tempRec \<leftarrow> GetPKs rec (td_Pkeys tdef);
         (tx, r) \<leftarrow> dbGet fuel tx tdef tempRec;
         case r of
           Inl _ \<Rightarrow> dbSet fuel tx tdef rec
         | Inr _ \<Rightarrow> Some (tx, Some (str ''key already exists'')) } }"

definition DBTX_Update :: "nat \<Rightarrow> DBTX \<Rightarrow> gostring \<Rightarrow> Record \<Rightarrow> (DBTX \<times> bool) option" where
  "DBTX_Update fuel tx table rec = do {
     (tx, r) \<leftarrow> GetTableDef fuel tx table;
     case r of
       Inl err \<Rightarrow> Some (tx, False)
     | Inr tdef \<Rightarrow> do {
         getRec \<leftarrow> GetPKs rec (td_Pkeys tdef);
         (tx, r) \<leftarrow> dbGet fuel tx tdef getRec;
         case r of
           Inl _ \<Rightarrow> Some (tx, False)
         | Inr getRec \<Rightarrow> do {
             (tx, ok) \<leftarrow> dbDel fuel tx tdef getRec;
             if \<not> ok then Some (tx, False)
             else do {
               (tx, err) \<leftarrow> dbSet fuel tx tdef rec;
               Some (tx, err = None) } } } }"

definition DBTX_Upsert :: "nat \<Rightarrow> DBTX \<Rightarrow> gostring \<Rightarrow> Record \<Rightarrow> (DBTX \<times> bool) option" where
  "DBTX_Upsert fuel tx table rec = do {
     (tx, r) \<leftarrow> GetTableDef fuel tx table;
     case r of
       Inl err \<Rightarrow> Some (tx, False)
     | Inr tdef \<Rightarrow> do {
         getRec \<leftarrow> GetPKs rec (td_Pkeys tdef);
         (tx, r) \<leftarrow> dbGet fuel tx tdef getRec;
         case r of
           Inr _ \<Rightarrow> DBTX_Update fuel tx table rec
         | Inl _ \<Rightarrow> do { (tx, err) \<leftarrow> DBTX_Insert fuel tx table rec; Some (tx, err = None) } } }"

definition DBTX_Delete :: "nat \<Rightarrow> DBTX \<Rightarrow> gostring \<Rightarrow> Record \<Rightarrow> (DBTX \<times> bool) option" where
  "DBTX_Delete fuel tx table rec = do {
     (tx, r) \<leftarrow> GetTableDef fuel tx table;
     case r of Inl err \<Rightarrow> Some (tx, False) | Inr tdef \<Rightarrow> dbDel fuel tx tdef rec }"

end
