(* ===== verification/Scanner.thy ===== *)
theory Scanner
  imports Db
begin

text \<open>
  Scanners (\<open>Scanner\<close>, \<open>NewScanner\<close> of \<^verbatim>\<open>db/db.go\<close>): an iterator over the snapshot of the transaction between
  two encoded keys. A scanner over a secondary index reads the row of each key with \<open>dbGet\<close>, which the
  transaction records, so \<open>Deref\<close> returns the transaction as well.
\<close>

record Scanner =
  s_iter :: BIter
  s_Key1 :: Record
  s_Key2 :: Record
  s_Tdef :: TableDef
  s_key1Include :: bool
  s_key2Include :: bool
  s_index :: nat
  s_key1 :: bytes
  s_key2 :: bytes

abbreviation snap_tree :: "DBTX \<Rightarrow> KV BTree" where
  "snap_tree tx \<equiv> kv_tree (snapshot_Root (dtx_kv tx))"

definition Scanner_Next :: "DBTX \<Rightarrow> Scanner \<Rightarrow> Scanner option" where
  "Scanner_Next tx sc = do { it \<leftarrow> Next (snap_tree tx) (db_kv (dtx_db tx)) (s_iter sc); Some (sc\<lparr>s_iter := it\<rparr>) }"

definition Scanner_Prev :: "DBTX \<Rightarrow> Scanner \<Rightarrow> Scanner option" where
  "Scanner_Prev tx sc = do { it \<leftarrow> Prev (snap_tree tx) (db_kv (dtx_db tx)) (s_iter sc); Some (sc\<lparr>s_iter := it\<rparr>) }"

definition Scanner_Valid :: "DBTX \<Rightarrow> Scanner \<Rightarrow> bool option" where
  "Scanner_Valid tx sc = do {
     valid \<leftarrow> Valid (snap_tree tx) (s_iter sc);
     if \<not> valid then Some False
     else do {
       (key, _) \<leftarrow> Deref (snap_tree tx) (s_iter sc);
       let cmp = bytes_Compare key (s_key1 sc);
       if cmp = 0 \<and> \<not> s_key1Include sc then Some False
       else if cmp < 0 then Some False
       else
         let cmp = bytes_Compare key (s_key2 sc) in
         if cmp = 0 \<and> \<not> s_key2Include sc then Some False
         else if cmp > 0 then Some False else Some True } }"

text \<open>The loop of \<open>kvToRecord\<close> over the decoded key.\<close>

fun key_record :: "TableDef \<Rightarrow> Record \<Rightarrow> nat \<Rightarrow> Value list \<Rightarrow> Record option" where
  "key_record tdef rec i [] = Some rec"
| "key_record tdef rec i (k # keys) =
     (if v_Type k = TYPE_BYTES then do { c \<leftarrow> go_nth (td_Cols tdef) i; key_record tdef (AddStr rec c (v_Str k)) (Suc i) keys }
      else if v_Type k = TYPE_INT64 then do { c \<leftarrow> go_nth (td_Cols tdef) i; key_record tdef (AddI64 rec c (v_I64 k)) (Suc i) keys }
      else None)"

definition kvToRecord :: "nat \<Rightarrow> DBTX \<Rightarrow> TableDef \<Rightarrow> bytes \<Rightarrow> bytes \<Rightarrow> nat \<Rightarrow> (DBTX \<times> (gostring + Record)) option" where
  "kvToRecord fuel tx tdef key val idx =
     (if idx \<noteq> 0 then do {
        rec \<leftarrow> GetPKFromSecKey tdef key idx;
        (tx, r) \<leftarrow> dbGet fuel tx tdef rec;
        case r of
          Inl err \<Rightarrow> Some (tx, Inl (str ''getting secondary index row: '' @ err))
        | Inr rec \<Rightarrow> Some (tx, Inr rec) }
      else do {
        keys \<leftarrow> DecodeKey key tdef;
        rec \<leftarrow> key_record tdef EmptyRecord 0 keys;
        d \<leftarrow> DecodeVal tdef rec val;
        case d of
          Inl err \<Rightarrow> Some (tx, Inl (str ''decoding values: '' @ err))
        | Inr rec \<Rightarrow> Some (tx, Inr rec) })"

definition Scanner_Deref :: "nat \<Rightarrow> DBTX \<Rightarrow> Scanner \<Rightarrow> (DBTX \<times> (gostring + Record)) option" where
  "Scanner_Deref fuel tx sc = do {
     valid \<leftarrow> Scanner_Valid tx sc;
     if \<not> valid then Some (tx, Inl (str ''out of range''))
     else do {
       (key, val) \<leftarrow> Deref (snap_tree tx) (s_iter sc);
       (tx, r) \<leftarrow> kvToRecord fuel tx (s_Tdef sc) key val (s_index sc);
       case r of
         Inl err \<Rightarrow> Some (tx, Inl (str ''getting row: '' @ err))
       | Inr rec \<Rightarrow> Some (tx, Inr rec) } }"

section \<open>A new scanner\<close>

text \<open>The values of the columns of an index in the two records; a column that a record lacks is a nil
  dereference.\<close>

definition col_value :: "Record \<Rightarrow> gostring \<Rightarrow> Value option" where
  "col_value rec col = do { p \<leftarrow> Record_Get rec col; i \<leftarrow> p; Some (r_Vals rec ! i) }"

fun index_vals :: "Record \<Rightarrow> Record \<Rightarrow> gostring list \<Rightarrow> (Value list \<times> Value list) option" where
  "index_vals key1 key2 [] = Some ([], [])"
| "index_vals key1 key2 (col # cols) = do {
     val1 \<leftarrow> col_value key1 col;
     val2 \<leftarrow> col_value key2 col;
     (vals1, vals2) \<leftarrow> index_vals key1 key2 cols;
     Some (val1 # vals1, val2 # vals2) }"

text \<open>The key that the iterator is at, none for the nil slice of an iterator over an empty tree.\<close>

definition scan_key :: "DBTX \<Rightarrow> Scanner \<Rightarrow> bytes option option" where
  "scan_key tx sc =
     (if Root (snap_tree tx) = 0 \<or> bi_path (s_iter sc) = [] then Some None
      else map_option (Some \<circ> fst) (Deref (snap_tree tx) (s_iter sc)))"

text \<open>The loop that leaves the keys up to an excluded lower bound. It ends at a greater key or at a nil key
  only: it does not look whether the iterator has reached its end.\<close>

fun skip_key1 :: "nat \<Rightarrow> DBTX \<Rightarrow> Scanner \<Rightarrow> int \<Rightarrow> Scanner option" where
  "skip_key1 n tx sc cmp =
     (if cmp \<le> 0 \<and> \<not> s_key1Include sc then
        case n of
          0 \<Rightarrow> None
        | Suc n \<Rightarrow> do {
            sc \<leftarrow> Scanner_Next tx sc;
            k \<leftarrow> scan_key tx sc;
            case k of
              None \<Rightarrow> Some sc
            | Some key \<Rightarrow> skip_key1 n tx sc (bytes_Compare key (s_key1 sc)) }
      else Some sc)"

declare skip_key1.simps [simp del]

definition scan_keys :: "TableDef \<Rightarrow> Record \<Rightarrow> Record \<Rightarrow> nat \<Rightarrow> (bytes \<times> bytes) option" where
  "scan_keys tdef key1 key2 idx = do {
     prefix \<leftarrow> go_nth (td_Prefixes tdef) idx;
     (vals1, vals2) \<leftarrow>
       (if idx = 0 then do {
          pk1 \<leftarrow> GetPKs key1 (td_Pkeys tdef); pk2 \<leftarrow> GetPKs key2 (td_Pkeys tdef); Some (r_Vals pk1, r_Vals pk2) }
        else do { cols \<leftarrow> go_nth (td_Indexes tdef) idx; index_vals key1 key2 cols });
     key1Bytes \<leftarrow> EncodeKey prefix vals1;
     key2Bytes \<leftarrow> EncodeKey prefix vals2;
     Some (key1Bytes, key2Bytes) }"

definition NewScanner :: "nat \<Rightarrow> nat \<Rightarrow> DBTX \<Rightarrow> TableDef \<Rightarrow> Record \<Rightarrow> Record \<Rightarrow> bool \<Rightarrow> bool \<Rightarrow> nat \<Rightarrow> Scanner option" where
  "NewScanner fuel n tx tdef key1 key2 key1inc key2inc idx = do {
     (key1Bytes, key2Bytes) \<leftarrow> scan_keys tdef key1 key2 idx;
     let swap = bytes_Compare key1Bytes key2Bytes > 0;
     let (key1Bytes, key2Bytes) = (if swap then (key2Bytes, key1Bytes) else (key1Bytes, key2Bytes));
     let (key1, key2) = (if swap then (key2, key1) else (key1, key2));
     let (key1inc, key2inc) = (if swap then (key2inc, key1inc) else (key1inc, key2inc));
     let key1Bytes = (if idx \<noteq> 0 then key1Bytes @ [if key1inc then 0x00 else 0xff] else key1Bytes);
     let key2Bytes = (if idx \<noteq> 0 then key2Bytes @ [if key2inc then 0xff else 0x00] else key2Bytes);
     it \<leftarrow> KVTX_Seek fuel (db_kv (dtx_db tx)) (dtx_kv tx) key1Bytes;
     let sc = \<lparr>s_iter = it, s_Key1 = key1, s_Key2 = key2, s_Tdef = tdef, s_key1Include = key1inc, s_key2Include = key2inc,
       s_index = idx, s_key1 = key1Bytes, s_key2 = key2Bytes\<rparr>;
     k \<leftarrow> scan_key tx sc;
     let cmp = bytes_Compare (case k of None \<Rightarrow> [] | Some key \<Rightarrow> key) (s_key1 sc);
     sc \<leftarrow> (if cmp < 0 \<and> idx \<noteq> 0 then Scanner_Next tx sc else Some sc);
     k \<leftarrow> scan_key tx sc;
     case k of
       None \<Rightarrow> Some sc
     | Some key \<Rightarrow> skip_key1 n tx sc (bytes_Compare key (s_key1 sc)) }"

end
