(* ===== verification/Planner.thy ===== *)
theory Planner
  imports Scanner Eval
begin

text \<open>
  Scans of a query (\<^verbatim>\<open>engine/planner.go\<close>): the choice of an index and of the two ends of a scan, and the three
  iterators over a scanner, which drop the rows that fail the filter, count to the limit and evaluate the
  output expressions. The only error that the loops tell from the others is the one of a scanner out of its
  range; the others keep their cause.
\<close>

datatype scan_error = OutOfRange | RowError gostring | FilterError "eval_error list"

record qlScanIter =
  qi_req :: QLScan
  qi_sc :: Scanner
  qi_rec :: Record
  qi_err :: "scan_error option"

definition newQlScanIter :: "QLScan \<Rightarrow> Scanner \<Rightarrow> qlScanIter" where
  "newQlScanIter req sc = \<lparr>qi_req = req, qi_sc = sc, qi_rec = EmptyRecord, qi_err = None\<rparr>"

definition Iter_Valid :: "DBTX \<Rightarrow> qlScanIter \<Rightarrow> bool option" where
  "Iter_Valid tx it = Scanner_Valid tx (qi_sc it)"

definition Iter_Next :: "DBTX \<Rightarrow> qlScanIter \<Rightarrow> qlScanIter option" where
  "Iter_Next tx it = map_option (\<lambda>sc. it\<lparr>qi_sc := sc\<rparr>) (Scanner_Next tx (qi_sc it))"

definition Iter_Prev :: "DBTX \<Rightarrow> qlScanIter \<Rightarrow> qlScanIter option" where
  "Iter_Prev tx it = map_option (\<lambda>sc. it\<lparr>qi_sc := sc\<rparr>) (Scanner_Prev tx (qi_sc it))"

text \<open>\<open>Deref\<close> of \<open>qlScanIter\<close>: the error it returns is the one it leaves in \<open>err\<close>, the row is in \<open>rec\<close>.\<close>

definition scan_error_of :: "gostring \<Rightarrow> scan_error" where
  "scan_error_of e = (if e = str ''out of range'' then OutOfRange else RowError e)"

definition Iter_Deref :: "nat \<Rightarrow> DBTX \<Rightarrow> qlScanIter \<Rightarrow> (DBTX \<times> qlScanIter) option" where
  "Iter_Deref fuel tx it = do {
     (tx, r) \<leftarrow> Scanner_Deref fuel tx (qi_sc it);
     case r of
       Inl err \<Rightarrow> Some (tx, it\<lparr>qi_err := Some (scan_error_of err)\<rparr>)
     | Inr rec \<Rightarrow> do {
         res \<leftarrow> (case sc_Filter (qi_req it) of None \<Rightarrow> Some [] | Some f \<Rightarrow> QLEvalRecordBool rec f);
         Some (tx, it\<lparr>qi_rec := rec, qi_err := (if res \<noteq> [] then Some (FilterError res) else None)\<rparr>) } }"

section \<open>Offset, limit, filter\<close>

record qlScanFilter =
  qf_sc :: qlScanIter
  qf_limit :: i64
  qf_offset :: i64
  qf_idx :: i64

definition skips :: "qlScanIter \<Rightarrow> bool" where
  "skips it \<longleftrightarrow> qi_err it \<noteq> None \<and> qi_err it \<noteq> Some OutOfRange"

text \<open>The loop behind \<open>Next\<close> and \<open>newQlScanFilter\<close>: to the next row that passes the filter.\<close>

fun next_row :: "nat \<Rightarrow> nat \<Rightarrow> DBTX \<Rightarrow> qlScanIter \<Rightarrow> (DBTX \<times> qlScanIter) option" where
  "next_row n fuel tx it =
     (if skips it then
        case n of
          0 \<Rightarrow> None
        | Suc n \<Rightarrow> do { it \<leftarrow> Iter_Next tx it; (tx, it) \<leftarrow> Iter_Deref fuel tx it; next_row n fuel tx it }
      else Some (tx, it))"

declare next_row.simps [simp del]

definition Filter_Valid :: "DBTX \<Rightarrow> qlScanFilter \<Rightarrow> bool option" where
  "Filter_Valid tx f = (if sint (qf_idx f) \<ge> sint (qf_limit f) then Some False else Iter_Valid tx (qf_sc f))"

definition Filter_Next :: "nat \<Rightarrow> nat \<Rightarrow> DBTX \<Rightarrow> qlScanFilter \<Rightarrow> (DBTX \<times> qlScanFilter) option" where
  "Filter_Next n fuel tx f = do {
     it \<leftarrow> Iter_Next tx (qf_sc f);
     (tx, it) \<leftarrow> Iter_Deref fuel tx it;
     (tx, it) \<leftarrow> next_row n fuel tx it;
     Some (tx, f\<lparr>qf_idx := qf_idx f + 1, qf_sc := it\<rparr>) }"

text \<open>\<open>Prev\<close> and its loop call each other; the loop also goes on when the scanner is out of its range.\<close>

fun Filter_Prev :: "nat \<Rightarrow> nat \<Rightarrow> DBTX \<Rightarrow> qlScanFilter \<Rightarrow> (DBTX \<times> qlScanFilter) option"
  and prev_row :: "nat \<Rightarrow> nat \<Rightarrow> DBTX \<Rightarrow> qlScanFilter \<Rightarrow> (DBTX \<times> qlScanFilter) option"
where
  "Filter_Prev 0 fuel tx f = None"
| "Filter_Prev (Suc n) fuel tx f =
     (if sint (qf_idx f) \<ge> 0 then do {
        it \<leftarrow> Iter_Prev tx (qf_sc f);
        (tx, it) \<leftarrow> Iter_Deref fuel tx it;
        prev_row n fuel tx (f\<lparr>qf_idx := qf_idx f - 1, qf_sc := it\<rparr>) }
      else Some (tx, f))"
| "prev_row 0 fuel tx f = None"
| "prev_row (Suc n) fuel tx f =
     (if qi_err (qf_sc f) \<noteq> None then do {
        (tx, f) \<leftarrow> Filter_Prev n fuel tx f;
        (tx, it) \<leftarrow> Iter_Deref fuel tx (qf_sc f);
        prev_row n fuel tx (f\<lparr>qf_sc := it\<rparr>) }
      else Some (tx, f))"

text \<open>\<open>Deref\<close> returns \<open>iter.sc.rec\<close> and \<open>iter.sc.err\<close>.\<close>

definition Filter_Deref :: "nat \<Rightarrow> DBTX \<Rightarrow> qlScanFilter \<Rightarrow> (DBTX \<times> qlScanFilter \<times> Record \<times> scan_error option) option" where
  "Filter_Deref fuel tx f = do {
     (tx, it) \<leftarrow> Iter_Deref fuel tx (qf_sc f);
     Some (tx, f\<lparr>qf_sc := it\<rparr>, qi_rec it, qi_err it) }"

fun skip_offset :: "nat \<Rightarrow> nat \<Rightarrow> DBTX \<Rightarrow> qlScanFilter \<Rightarrow> (DBTX \<times> qlScanFilter) option" where
  "skip_offset n fuel tx f =
     (if qf_idx f \<noteq> qf_offset f then
        case n of
          0 \<Rightarrow> None
        | Suc m \<Rightarrow> do { (tx, f) \<leftarrow> Filter_Next n fuel tx f; skip_offset m fuel tx f }
      else Some (tx, f))"

declare skip_offset.simps [simp del]

section \<open>The ends of a scan\<close>

definition MaxValue :: Value where
  "MaxValue = \<lparr>v_Type = 0, v_I64 = 0x7FFFFFFFFFFFFFFF, v_Str = [0xff, 0xff, 0xff, 0xff]\<rparr>"

definition MinValue :: Value where
  "MinValue = \<lparr>v_Type = 0, v_I64 = 0x8000000000000001, v_Str = [0x00, 0x00, 0x00, 0x00]\<rparr>"

definition addValToRecord :: "u32 \<Rightarrow> Record \<Rightarrow> gostring \<Rightarrow> Value \<Rightarrow> (gostring + Record)" where
  "addValToRecord valType rec col val =
     (if valType = QL_STR then Inr (AddStr rec col (v_Str val))
      else if valType = QL_I64 then Inr (AddI64 rec col (v_I64 val))
      else Inl (str ''invalid column type: '' @ dec_digits (unat valType)))"

text \<open>The loops that look for the type of a column take the last column of the name, and type 0 without one.\<close>

fun col_type :: "TableDef \<Rightarrow> gostring \<Rightarrow> u32 \<Rightarrow> nat \<Rightarrow> gostring list \<Rightarrow> u32 option" where
  "col_type tdef col t i [] = Some t"
| "col_type tdef col t i (c # cs) =
     (if col = c then do { t \<leftarrow> go_nth (td_Types tdef) i; col_type tdef col t (Suc i) cs }
      else col_type tdef col t (Suc i) cs)"

text \<open>The two records of a scan over a whole index.\<close>

fun full_range :: "TableDef \<Rightarrow> Record \<Rightarrow> Record \<Rightarrow> gostring list \<Rightarrow> (gostring + Record \<times> Record) option" where
  "full_range tdef startRec endRec [] = Some (Inr (startRec, endRec))"
| "full_range tdef startRec endRec (col # cols) = do {
     colType \<leftarrow> col_type tdef col 0 0 (td_Cols tdef);
     case addValToRecord colType startRec col MinValue of
       Inl err \<Rightarrow> Some (Inl (str ''adding start record: '' @ err))
     | Inr startRec \<Rightarrow>
         case addValToRecord colType endRec col MaxValue of
           Inl err \<Rightarrow> Some (Inl (str ''adding end record: '' @ err))
         | Inr endRec \<Rightarrow> full_range tdef startRec endRec cols }"

definition fullRangeIndexScanner :: "nat \<Rightarrow> nat \<Rightarrow> TableDef \<Rightarrow> DBTX \<Rightarrow> nat \<Rightarrow> (gostring + Scanner) option" where
  "fullRangeIndexScanner fuel n tdef tx idx = do {
     cols \<leftarrow> go_nth (td_Indexes tdef) idx;
     r \<leftarrow> full_range tdef EmptyRecord EmptyRecord cols;
     case r of
       Inl err \<Rightarrow> Some (Inl err)
     | Inr (startRec, endRec) \<Rightarrow> map_option Inr (NewScanner fuel n tx tdef startRec endRec False False idx) }"

section \<open>The choice of an index\<close>

text \<open>The loop over the indexes with one column: the first index that starts with it.\<close>

fun index_of_col :: "gostring \<Rightarrow> nat \<Rightarrow> gostring list list \<Rightarrow> nat option option" where
  "index_of_col col i [] = Some None"
| "index_of_col col i (idx # idxs) =
     (case idx of [] \<Rightarrow> None | c # _ \<Rightarrow> if col = c then Some (Some i) else index_of_col col (Suc i) idxs)"

text \<open>The first loop with several columns gives up at an index that is shorter than the columns.\<close>

fun index_prefix :: "gostring list \<Rightarrow> nat \<Rightarrow> gostring list list \<Rightarrow> nat option" where
  "index_prefix cols i [] = None"
| "index_prefix cols i (idx # idxs) =
     (if length idx < length cols then None
      else if take (length cols) idx = cols then Some i else index_prefix cols (Suc i) idxs)"

text \<open>The second loop counts the pairs of equal columns.\<close>

fun index_count :: "gostring list \<Rightarrow> nat \<Rightarrow> gostring list list \<Rightarrow> nat option" where
  "index_count cols i [] = None"
| "index_count cols i (idx # idxs) =
     (if sum_list (map (\<lambda>col. length (filter (\<lambda>k. col = k) idx)) cols) = length cols then Some i
      else index_count cols (Suc i) idxs)"

definition getColsIndex :: "TableDef \<Rightarrow> gostring list \<Rightarrow> (gostring + nat) option" where
  "getColsIndex tdef cols =
     (case cols of
        [] \<Rightarrow> Some (Inl (str ''no columns provided''))
      | [col] \<Rightarrow> do {
          r \<leftarrow> index_of_col col 0 (td_Indexes tdef);
          Some (case r of Some i \<Rightarrow> Inr i | None \<Rightarrow> Inl (str ''there are no columns having index: '' @ col)) }
      | _ \<Rightarrow>
          Some (case index_prefix cols 0 (td_Indexes tdef) of
             Some i \<Rightarrow> Inr i
           | None \<Rightarrow>
               case index_count cols 0 (td_Indexes tdef) of
                 Some i \<Rightarrow> Inr i
               | None \<Rightarrow> Inl (str ''there are no columns having indexes'')))"

section \<open>The scan of a query\<close>

definition cmp_ge :: "u32 \<Rightarrow> bool" where "cmp_ge t \<longleftrightarrow> t = QL_CMP_GE \<or> t = QL_CMP_GT"
definition cmp_le :: "u32 \<Rightarrow> bool" where "cmp_le t \<longleftrightarrow> t = QL_CMP_LE \<or> t = QL_CMP_LT"

text \<open>One condition: from the value of the condition to the greatest or the least value.\<close>

definition scan_one :: "nat \<Rightarrow> nat \<Rightarrow> TableDef \<Rightarrow> DBTX \<Rightarrow> QLNode \<Rightarrow> gostring \<Rightarrow> u32 \<Rightarrow> nat \<Rightarrow> (gostring + Scanner) option" where
  "scan_one fuel n tdef tx key1node key1col valType index = do {
     let t = v_Type (node_val key1node);
     kid \<leftarrow> go_nth (Kids key1node) 1;
     case addValToRecord valType EmptyRecord key1col (node_val kid) of
       Inl err \<Rightarrow> Some (Inl (str ''adding start record: '' @ err))
     | Inr startRec \<Rightarrow>
         case (if cmp_ge t then addValToRecord valType EmptyRecord key1col MaxValue
               else if cmp_le t then addValToRecord valType EmptyRecord key1col MinValue
               else if t = QL_CMP_EQ then Inr startRec else Inr EmptyRecord) of
           Inl err \<Rightarrow> Some (Inl (str ''adding end record: '' @ err))
         | Inr endRec \<Rightarrow>
             map_option Inr (NewScanner fuel n tx tdef startRec endRec
               (t = QL_CMP_GE \<or> t = QL_CMP_LE \<or> t = QL_CMP_EQ) (t = QL_CMP_EQ) index) }"

text \<open>Two conditions on one column, one of each direction.\<close>

definition scan_two :: "nat \<Rightarrow> nat \<Rightarrow> TableDef \<Rightarrow> DBTX \<Rightarrow> QLNode \<Rightarrow> QLNode \<Rightarrow> gostring \<Rightarrow> u32 \<Rightarrow> nat \<Rightarrow> (gostring + Scanner) option" where
  "scan_two fuel n tdef tx key1node key2node key1col valType index = do {
     let t1 = v_Type (node_val key1node);
     let t2 = v_Type (node_val key2node);
     kid2 \<leftarrow> go_nth (Kids key2node) 0;
     let key2col = v_Str (node_val kid2);
     if cmp_ge t1 \<and> \<not> cmp_le t2 then Some (Inl (str ''invalid range conditions''))
     else if cmp_ge t2 \<and> \<not> cmp_le t1 then Some (Inl (str ''invalid range conditions''))
     else if key1col \<noteq> key2col then Some (Inl (str ''index by should include conditions for the same column''))
     else if valType \<noteq> QL_STR \<and> valType \<noteq> QL_I64 then Some (Inl (str ''invalid column type: '' @ dec_digits (unat valType)))
     else do {
       v1 \<leftarrow> go_nth (Kids key1node) 1;
       v2 \<leftarrow> go_nth (Kids key2node) 1;
       let (startRec, endRec) =
         (if valType = QL_STR then (AddStr EmptyRecord key1col (v_Str (node_val v1)), AddStr EmptyRecord key2col (v_Str (node_val v2)))
          else (AddI64 EmptyRecord key1col (v_I64 (node_val v1)), AddI64 EmptyRecord key2col (v_I64 (node_val v2))));
       map_option Inr (NewScanner fuel n tx tdef startRec endRec
         (t1 = QL_CMP_GE \<or> t1 = QL_CMP_LE) (t2 = QL_CMP_GE \<or> t2 = QL_CMP_LE) index) } }"

text \<open>A scan over the whole of the index that \<open>getColsIndex\<close> finds for some columns.\<close>

definition scan_index :: "nat \<Rightarrow> nat \<Rightarrow> TableDef \<Rightarrow> DBTX \<Rightarrow> gostring list \<Rightarrow> (gostring + Scanner) option" where
  "scan_index fuel n tdef tx cols = do {
     r \<leftarrow> getColsIndex tdef cols;
     case r of
       Inl err \<Rightarrow> Some (Inl (str ''getting column index: '' @ err))
     | Inr index \<Rightarrow> fullRangeIndexScanner fuel n tdef tx index }"

definition qlScanInit :: "nat \<Rightarrow> nat \<Rightarrow> QLScan \<Rightarrow> DBTX \<Rightarrow> (DBTX \<times> (gostring + Scanner)) option" where
  "qlScanInit fuel n req tx = do {
     (tx, r) \<leftarrow> GetTableDef fuel tx (sc_Table req);
     case r of
       Inl _ \<Rightarrow> Some (tx, Inl (str ''no table named: '' @ sc_Table req))
     | Inr tdef \<Rightarrow>
         map_option (Pair tx)
           (case sc_Key1 req of
              None \<Rightarrow> (if sc_Key2 req = None then fullRangeIndexScanner fuel n tdef tx 0 else None)
            | Some key1node \<Rightarrow>
                if Kids key1node = [] \<and> sc_Key2 req = None then scan_index fuel n tdef tx [v_Str (node_val key1node)]
                else if v_Type (node_val key1node) = QL_TUP then
                  (if \<exists>kid \<in> set (Kids key1node). v_Type (node_val kid) \<noteq> QL_SYM
                   then Some (Inl (str ''invalid index by arguments, expected symbols''))
                   else scan_index fuel n tdef tx (map (\<lambda>kid. v_Str (node_val kid)) (Kids key1node)))
                else do {
                  kid \<leftarrow> go_nth (Kids key1node) 0;
                  let key1col = v_Str (node_val kid);
                  valType \<leftarrow> col_type tdef key1col 0 0 (td_Cols tdef);
                  r \<leftarrow> getColsIndex tdef [key1col];
                  case r of
                    Inl err \<Rightarrow> Some (Inl (str ''getting column index: '' @ err))
                  | Inr index \<Rightarrow>
                      case sc_Key2 req of
                        None \<Rightarrow> scan_one fuel n tdef tx key1node key1col valType index
                      | Some key2node \<Rightarrow> scan_two fuel n tdef tx key1node key2node key1col valType index }) }"

definition newQlScanFilter :: "nat \<Rightarrow> nat \<Rightarrow> QLScan \<Rightarrow> DBTX \<Rightarrow> (DBTX \<times> (gostring + qlScanFilter)) option" where
  "newQlScanFilter fuel n req tx = do {
     (tx, r) \<leftarrow> qlScanInit fuel n req tx;
     case r of
       Inl err \<Rightarrow> Some (tx, Inl err)
     | Inr sc \<Rightarrow> do {
         (tx, f) \<leftarrow> skip_offset n fuel tx
           \<lparr>qf_sc = newQlScanIter req sc, qf_limit = sc_Limit req, qf_offset = sc_Offset req, qf_idx = 0\<rparr>;
         (tx, it) \<leftarrow> Iter_Deref fuel tx (qf_sc f);
         (tx, it) \<leftarrow> next_row n fuel tx it;
         Some (tx, Inr (f\<lparr>qf_sc := it\<rparr>)) } }"

section \<open>Select\<close>

record qlScanSelect =
  qs_iter :: qlScanFilter
  qs_sel :: QLSelect

definition qlSelect :: "nat \<Rightarrow> nat \<Rightarrow> QLSelect \<Rightarrow> DBTX \<Rightarrow> (DBTX \<times> (gostring + qlScanSelect)) option" where
  "qlSelect fuel n sel tx = do {
     (tx, r) \<leftarrow> newQlScanFilter fuel n (sel_Scan sel) tx;
     Some (tx, case r of
         Inl err \<Rightarrow> Inl (str ''creating scan filter: '' @ err)
       | Inr f \<Rightarrow> Inr \<lparr>qs_iter = f, qs_sel = sel\<rparr>) }"

definition Select_Next :: "nat \<Rightarrow> nat \<Rightarrow> DBTX \<Rightarrow> qlScanSelect \<Rightarrow> (DBTX \<times> qlScanSelect) option" where
  "Select_Next n fuel tx sc = do { (tx, f) \<leftarrow> Filter_Next n fuel tx (qs_iter sc); Some (tx, sc\<lparr>qs_iter := f\<rparr>) }"

definition Select_Prev :: "nat \<Rightarrow> nat \<Rightarrow> DBTX \<Rightarrow> qlScanSelect \<Rightarrow> (DBTX \<times> qlScanSelect) option" where
  "Select_Prev n fuel tx sc = do { (tx, f) \<leftarrow> Filter_Prev n fuel tx (qs_iter sc); Some (tx, sc\<lparr>qs_iter := f\<rparr>) }"

definition Select_Valid :: "DBTX \<Rightarrow> qlScanSelect \<Rightarrow> bool option" where
  "Select_Valid tx sc = Filter_Valid tx (qs_iter sc)"

datatype exec_error = ExecError gostring | RowFailed scan_error | EvalFailed "eval_error list"

definition Select_Deref :: "nat \<Rightarrow> DBTX \<Rightarrow> qlScanSelect \<Rightarrow> (DBTX \<times> qlScanSelect \<times> (exec_error + Record)) option" where
  "Select_Deref fuel tx sc = do {
     (tx, f, rec, err) \<leftarrow> Filter_Deref fuel tx (qs_iter sc);
     let sc = sc\<lparr>qs_iter := f\<rparr>;
     case err of
       Some e \<Rightarrow> Some (tx, sc, Inl (RowFailed e))
     | None \<Rightarrow> do {
         r \<leftarrow> QLEvalOutput rec (sel_Output (qs_sel sc)) (sel_Name (qs_sel sc));
         Some (tx, sc, case r of Inl e \<Rightarrow> Inl (EvalFailed e) | Inr out \<Rightarrow> Inr out) } }"

end
