(* ===== verification/Executor.thy ===== *)
theory Executor
  imports Planner
begin

text \<open>
  Statements (\<^verbatim>\<open>engine/executor.go\<close>): each statement over a transaction, and \<open>ExecuteQuery\<close>, which parses a
  query, runs it in a transaction of its own and commits or aborts it. A statement pointer that is nil
  is dereferenced, which is a panic.
\<close>

datatype QueryResult = ResNil | ResRecords "Record list" | ResCount int

definition qlCreateTable :: "nat \<Rightarrow> QLCreateTable \<Rightarrow> DBTX \<Rightarrow> (DBTX \<times> exec_error option) option" where
  "qlCreateTable fuel req tx = do {
     (tx, tdef, err) \<leftarrow> TableNew fuel tx (crt_Def req);
     Some (tx, map_option ExecError err) }"

definition qlInsert :: "nat \<Rightarrow> QLInsert \<Rightarrow> DBTX \<Rightarrow> (DBTX \<times> exec_error option) option" where
  "qlInsert fuel req tx = do {
     (rec, err) \<leftarrow> populateRecord EmptyRecord (ins_Values req) (ins_Name req);
     if err \<noteq> [] then Some (tx, Some (EvalFailed err))
     else do {
       (tx, err) \<leftarrow> DBTX_Insert fuel tx (ins_Table req) rec;
       Some (tx, map_option ExecError err) } }"

definition qlUpsert :: "nat \<Rightarrow> QLInsert \<Rightarrow> DBTX \<Rightarrow> (DBTX \<times> exec_error option) option" where
  "qlUpsert fuel req tx = do {
     (rec, err) \<leftarrow> populateRecord EmptyRecord (ins_Values req) (ins_Name req);
     if err \<noteq> [] then Some (tx, Some (EvalFailed err))
     else do {
       (tx, ok) \<leftarrow> DBTX_Upsert fuel tx (ins_Table req) rec;
       Some (tx, if ok then None else Some (ExecError (str ''error upserting record''))) } }"

fun delete_rows :: "nat \<Rightarrow> nat \<Rightarrow> gostring \<Rightarrow> DBTX \<Rightarrow> qlScanFilter \<Rightarrow> int \<Rightarrow> (DBTX \<times> int \<times> exec_error option) option" where
  "delete_rows 0 fuel table tx it count = None"
| "delete_rows (Suc n) fuel table tx it count = do {
     valid \<leftarrow> Filter_Valid tx it;
     if \<not> valid then Some (tx, count, None)
     else do {
       (tx, it, rec, err) \<leftarrow> Filter_Deref fuel tx it;
       case err of
         Some e \<Rightarrow> Some (tx, count, Some (RowFailed e))
       | None \<Rightarrow> do {
           (tx, ok) \<leftarrow> DBTX_Delete fuel tx table rec;
           if \<not> ok then Some (tx, count, Some (ExecError (str ''unable to delete record'')))
           else do {
             (tx, it) \<leftarrow> Filter_Next n fuel tx it;
             delete_rows n fuel table tx it (count + 1) } } } }"

definition qlDelete :: "nat \<Rightarrow> nat \<Rightarrow> QLDelete \<Rightarrow> DBTX \<Rightarrow> (DBTX \<times> int \<times> exec_error option) option" where
  "qlDelete fuel n req tx = do {
     (tx, r) \<leftarrow> newQlScanFilter fuel n (del_Scan req) tx;
     case r of
       Inl err \<Rightarrow> Some (tx, 0, Some (ExecError (str ''getting scanner: '' @ err)))
     | Inr it \<Rightarrow> delete_rows n fuel (sc_Table (del_Scan req)) tx it 0 }"

text \<open>The columns that an update does not set are set to themselves.\<close>

fun keep_cols :: "gostring list \<Rightarrow> gostring list \<Rightarrow> QLNode list \<Rightarrow> gostring list \<times> QLNode list" where
  "keep_cols [] names vals = (names, vals)"
| "keep_cols (col # cols) names vals =
     (if col \<in> set names then keep_cols cols names vals
      else keep_cols cols (names @ [col]) (vals @ [QLNode \<lparr>v_Type = QL_SYM, v_I64 = 0, v_Str = col\<rparr> []]))"

text \<open>The row in the order of the columns of the table, with the types of the table.\<close>

fun reorder :: "TableDef \<Rightarrow> Record \<Rightarrow> Record \<Rightarrow> nat \<Rightarrow> gostring list \<Rightarrow> (exec_error + Record) option" where
  "reorder tdef newrec rec i [] = Some (Inr rec)"
| "reorder tdef newrec rec i (col # cols) = do {
     t \<leftarrow> go_nth (td_Types tdef) i;
     if t = TYPE_INT64 then do { v \<leftarrow> col_value newrec col; reorder tdef newrec (AddI64 rec col (v_I64 v)) (Suc i) cols }
     else if t = TYPE_BYTES then do { v \<leftarrow> col_value newrec col; reorder tdef newrec (AddStr rec col (v_Str v)) (Suc i) cols }
     else Some (Inl (ExecError (str ''invalid record type''))) }"

fun update_rows :: "nat \<Rightarrow> nat \<Rightarrow> gostring \<Rightarrow> TableDef \<Rightarrow> gostring list \<Rightarrow> QLNode list \<Rightarrow> DBTX \<Rightarrow> qlScanFilter \<Rightarrow> (DBTX \<times> exec_error option) option" where
  "update_rows 0 fuel table tdef names vals tx it = None"
| "update_rows (Suc n) fuel table tdef names vals tx it = do {
     valid \<leftarrow> Filter_Valid tx it;
     if \<not> valid then Some (tx, None)
     else do {
       (tx, it, rec, err) \<leftarrow> Filter_Deref fuel tx it;
       case err of
         Some e \<Rightarrow> Some (tx, Some (RowFailed e))
       | None \<Rightarrow> do {
           r \<leftarrow> QLEvalOutput rec vals names;
           case r of
             Inl e \<Rightarrow> Some (tx, Some (EvalFailed e))
           | Inr newrec \<Rightarrow> do {
               r \<leftarrow> reorder tdef newrec EmptyRecord 0 (td_Cols tdef);
               case r of
                 Inl e \<Rightarrow> Some (tx, Some e)
               | Inr reorderedRec \<Rightarrow> do {
                   (tx, ok) \<leftarrow> DBTX_Update fuel tx table reorderedRec;
                   if \<not> ok then Some (tx, Some (ExecError (str ''error updating the table'')))
                   else do {
                     (tx, it) \<leftarrow> Filter_Next n fuel tx it;
                     update_rows n fuel table tdef names vals tx it } } } } } }"

definition qlUpdate :: "nat \<Rightarrow> nat \<Rightarrow> QLUpdate \<Rightarrow> DBTX \<Rightarrow> (DBTX \<times> exec_error option) option" where
  "qlUpdate fuel n req tx = do {
     let table = sc_Table (upd_Scan req);
     (tx, r) \<leftarrow> newQlScanFilter fuel n (upd_Scan req) tx;
     case r of
       Inl err \<Rightarrow> Some (tx, Some (ExecError (str ''getting scanner: '' @ err)))
     | Inr it \<Rightarrow> do {
         (tx, r) \<leftarrow> GetTableDef fuel tx table;
         case r of
           Inl err \<Rightarrow> Some (tx, Some (ExecError (str ''getting table definition: '' @ err)))
         | Inr tdef \<Rightarrow>
             case keep_cols (td_Cols tdef) (upd_Name req) (upd_Values req) of
               (names, vals) \<Rightarrow> update_rows n fuel table tdef names vals tx it } }"

fun select_rows :: "nat \<Rightarrow> nat \<Rightarrow> DBTX \<Rightarrow> qlScanSelect \<Rightarrow> Record list \<Rightarrow> (DBTX \<times> (exec_error + Record list)) option" where
  "select_rows 0 fuel tx sc resArr = None"
| "select_rows (Suc n) fuel tx sc resArr = do {
     valid \<leftarrow> Select_Valid tx sc;
     if \<not> valid then Some (tx, Inr resArr)
     else do {
       (tx, sc, r) \<leftarrow> Select_Deref fuel tx sc;
       case r of
         Inl e \<Rightarrow> Some (tx, Inl e)
       | Inr rec \<Rightarrow> do {
           (tx, sc) \<leftarrow> Select_Next n fuel tx sc;
           select_rows n fuel tx sc (resArr @ [rec]) } } }"

definition stmt_result :: "(DBTX \<times> exec_error option) option \<Rightarrow> (DBTX \<times> (exec_error + QueryResult)) option" where
  "stmt_result r = do { (tx, err) \<leftarrow> r; Some (tx, case err of Some e \<Rightarrow> Inl e | None \<Rightarrow> Inr ResNil) }"

definition qlStmt :: "nat \<Rightarrow> nat \<Rightarrow> QLStmt \<Rightarrow> DBTX \<Rightarrow> (DBTX \<times> (exec_error + QueryResult)) option" where
  "qlStmt fuel n r tx =
     (case r of
        StmtCreateTable val \<Rightarrow> do { val \<leftarrow> val; stmt_result (qlCreateTable fuel val tx) }
      | StmtSelect val \<Rightarrow> do {
          val \<leftarrow> val;
          (tx, r) \<leftarrow> qlSelect fuel n val tx;
          case r of
            Inl err \<Rightarrow> Some (tx, Inl (ExecError err))
          | Inr sc \<Rightarrow> do {
              (tx, r) \<leftarrow> select_rows n fuel tx sc [];
              Some (tx, case r of Inl e \<Rightarrow> Inl e | Inr rows \<Rightarrow> Inr (ResRecords rows)) } }
      | StmtUpdate val \<Rightarrow> do { val \<leftarrow> val; stmt_result (qlUpdate fuel n val tx) }
      | StmtInsert val \<Rightarrow> stmt_result (if ins_IsUpsert val then qlUpsert fuel val tx else qlInsert fuel val tx)
      | StmtDelete val \<Rightarrow> do {
          val \<leftarrow> val;
          (tx, count, err) \<leftarrow> qlDelete fuel n val tx;
          Some (tx, case err of Some e \<Rightarrow> Inl e | None \<Rightarrow> Inr (ResCount count)) }
      | StmtNil \<Rightarrow> Some (tx, Inl (ExecError (str ''invalid result type''))))"

text \<open>\<open>ExecuteQuery\<close>: the result and the error are returned together, the result also when the commit fails.
  The errors of the parser count only when there is no statement. The
  argument \<open>cap\<close> is the capacity of the byte slice of the query.\<close>

definition ExecuteQuery :: "nat \<Rightarrow> nat \<Rightarrow> Sys \<Rightarrow> u64 list \<Rightarrow> gostring list \<Rightarrow> gostring list \<Rightarrow> nat \<Rightarrow> gostring \<Rightarrow> DB \<Rightarrow>
     (DB \<times> QueryResult \<times> exec_error option) option" where
  "ExecuteQuery fuel n sys order worder dorder cap query database = do {
     (p, stmt) \<leftarrow> PStmt n \<lparr>p_Input = query, p_Cap = cap, p_Idx = 0, p_Err = None\<rparr>;
     if stmt = StmtNil then Some (database, ResNil, Some (ExecError (str ''failed to parse statement or syntax error'')))
     else do {
       (tx, r) \<leftarrow> qlStmt fuel n stmt (DB_Begin database NewKVTX);
       case r of
         Inl e \<Rightarrow> do { database \<leftarrow> DB_Abort database tx; Some (database, ResNil, Some e) }
       | Inr res \<Rightarrow> do {
           (database, err) \<leftarrow> DB_Commit fuel sys order worder dorder database tx;
           Some (database, res, map_option ExecError err) } } }"

end
