(* ===== verification/Spec2Isabelle.thy ===== *)
theory Spec2Isabelle
  imports Node_Claims Pending Scan Txn Secondary_Index Eval_Correct Json_Correct Executor
begin

text \<open>
  A verification library for AuroraDB, an embedded database in Go.
\<close>

end
